(* ===== verification/Prelude.thy ===== *)
theory Prelude
  imports Main "HOL-Library.Word"
begin

unbundle bit_operations_syntax

text \<open>
  Shared vocabulary of the development: names for the machine integers of the worker
  (\<open>worker/src\<close>, \<open>worker/include\<close>), the fact collections the components add to, and generic
  lemmas on lists, options and words.

  A failed \<^verbatim>\<open>MS_ASSERT\<close> aborts the worker (\<^verbatim>\<open>worker/include/Logger.hpp\<close>), and so does, in
  effect, a null dereference or an out-of-range access. An operation that contains such a
  point returns an \<open>option\<close>: \<open>None\<close> is the aborted process. A thrown \<^verbatim>\<open>MediaSoupError\<close> is
  the left side of a sum type.
\<close>

type_synonym u8 = "8 word"
type_synonym u16 = "16 word"
type_synonym u32 = "32 word"
type_synonym u64 = "64 word"
type_synonym bytes = "8 word list"

named_theorems wrap_simps "rules that move wrapping arithmetic on words to natural numbers"
named_theorems op_defs "definitions of the operations of a component"

subsection \<open>Options\<close>

lemma bind_eq_SomeD: "Option.bind x f = Some y \<Longrightarrow> \<exists>a. x = Some a \<and> f a = Some y"
  by (cases x) auto

subsection \<open>Lists\<close>

lemma takeWhile_eq_filter_sorted:
  assumes "sorted_wrt (\<lambda>x y. P y \<longrightarrow> P x) xs"
  shows "takeWhile P xs = filter P xs \<and> dropWhile P xs = filter (\<lambda>x. \<not> P x) xs"
  using assms
proof (induction xs)
  case Nil
  then show ?case by simp
next
  case (Cons a xs)
  show ?case
  proof (cases "P a")
    case True
    with Cons show ?thesis by simp
  next
    case False
    with Cons.prems have none: "\<forall>y \<in> set xs. \<not> P y" by auto
    then have "filter P xs = []" and "filter (\<lambda>x. \<not> P x) xs = xs" by (auto simp: filter_empty_conv)
    with False show ?thesis by simp
  qed
qed

lemma take_length_takeWhile [simp]: "take (length (takeWhile P xs)) xs = takeWhile P xs"
  by (induction xs) auto

lemma drop_length_takeWhile [simp]: "drop (length (takeWhile P xs)) xs = dropWhile P xs"
  by (induction xs) auto

lemma nth_length_takeWhile_not:
  "length (takeWhile P xs) < length xs \<Longrightarrow> \<not> P (xs ! length (takeWhile P xs))"
  by (induction xs) auto

lemma sum_list_update_nat:
  fixes xs :: "nat list"
  shows "i < length xs \<Longrightarrow> sum_list (xs[i := v]) + xs ! i = sum_list xs + v"
proof (induction xs arbitrary: i)
  case Nil
  then show ?case by simp
next
  case (Cons a xs)
  show ?case
  proof (cases i)
    case 0
    then show ?thesis by simp
  next
    case (Suc j)
    with Cons.prems have "j < length xs" by simp
    then have "sum_list (xs[j := v]) + xs ! j = sum_list xs + v" by (rule Cons.IH)
    with Suc show ?thesis by simp
  qed
qed

subsection \<open>Words\<close>

lemma unat_sub_wrap:
  fixes a b :: "'a::len word"
  shows "unat (a - b) = (if unat b \<le> unat a then unat a - unat b
                         else unat a + 2 ^ LENGTH('a) - unat b)"
proof (cases "b \<le> a")
  case True
  then show ?thesis by (simp add: unat_sub word_le_nat_alt)
next
  case False
  then show ?thesis
    by (simp add: unat_sub_if' word_le_nat_alt)
qed

lemma unat_add_wrap:
  fixes a b :: "'a::len word"
  shows "unat (a + b) = (unat a + unat b) mod 2 ^ LENGTH('a)"
  by (simp add: unat_word_ariths)

lemma two_power_len_double: "(2::nat) ^ LENGTH('a::len) = 2 * 2 ^ (LENGTH('a) - 1)"
  by (metis One_nat_def Suc_pred len_gt_0 power_Suc)

lemma ucast_of_unat: "(ucast x :: 'b::len word) = of_nat (unat (x :: 'a::len word))"
  by simp

lemma unat_and_mask_word [wrap_simps]:
  fixes a :: "'a::len word"
  shows "unat (a AND mask n) = unat a mod 2 ^ n"
  by (simp only: take_bit_eq_mask [symmetric] unsigned_take_bit_eq) (simp add: take_bit_eq_mod)

lemma unat_mask_word:
  "n \<le> LENGTH('a) \<Longrightarrow> unat (mask n :: 'a::len word) = 2 ^ n - 1"
  by (simp only: unat_eq_nat_uint uint_mask_eq min.absorb2 nat_mask_eq)
     (simp only: mask_eq_exp_minus_1)

lemma unat_half_word: "unat (a div 2 :: 'a::len word) = unat a div 2"
proof -
  have "unat (drop_bit 1 a) = drop_bit 1 (unat a)"
    by (simp only: unsigned_drop_bit_eq take_bit_nat_eq_self [OF unsigned_less])
  then show ?thesis by (simp only: drop_bit_eq_div power_one_right)
qed

lemma unat_of_nat_less:
  "k < 2 ^ LENGTH('a) \<Longrightarrow> unat (of_nat k :: 'a::len word) = k"
  by (simp add: unat_of_nat)

end
