(* ===== verification/OrderedSet.thy ===== *)
theory OrderedSet
  imports Prelude
begin

text \<open>
  The ordered containers of the C++ code: \<^verbatim>\<open>std::set\<close>, \<^verbatim>\<open>absl::btree_set\<close> and
  \<^verbatim>\<open>absl::btree_map\<close> with a user-supplied comparator. A container is the list of its
  elements in iteration order; an iterator is an index into it, \<open>length xs\<close> is \<^verbatim>\<open>end()\<close>.
  The element's key is read by a projection: the identity for a set, \<open>fst\<close> for a map.

  The container's contract needs the comparator to be a strict order on the stored keys and
  the keys looked up. The comparator of this program, \<^verbatim>\<open>SeqLowerThan\<close>, is such an order only
  inside a window of half the sequence-number space; the locale \<open>ordered_keys\<close> states that
  requirement and proves the container laws from it, and the interpretation on the real
  comparator is in the theory of the sequence manager.
\<close>

subsection \<open>Operations\<close>

definition lower_bound :: "('k \<Rightarrow> 'k \<Rightarrow> bool) \<Rightarrow> ('e \<Rightarrow> 'k) \<Rightarrow> 'k \<Rightarrow> 'e list \<Rightarrow> nat" where
  "lower_bound lt kf k xs = length (takeWhile (\<lambda>x. lt (kf x) k) xs)"

definition upper_bound :: "('k \<Rightarrow> 'k \<Rightarrow> bool) \<Rightarrow> ('e \<Rightarrow> 'k) \<Rightarrow> 'k \<Rightarrow> 'e list \<Rightarrow> nat" where
  "upper_bound lt kf k xs = length (takeWhile (\<lambda>x. \<not> lt k (kf x)) xs)"

definition os_find :: "('k \<Rightarrow> 'k \<Rightarrow> bool) \<Rightarrow> ('e \<Rightarrow> 'k) \<Rightarrow> 'k \<Rightarrow> 'e list \<Rightarrow> nat option" where
  "os_find lt kf k xs =
     (let i = lower_bound lt kf k xs
      in if i < length xs \<and> \<not> lt k (kf (xs ! i)) then Some i else None)"

definition os_insert :: "('k \<Rightarrow> 'k \<Rightarrow> bool) \<Rightarrow> ('e \<Rightarrow> 'k) \<Rightarrow> 'e \<Rightarrow> 'e list \<Rightarrow> 'e list" where
  "os_insert lt kf e xs =
     (case os_find lt kf (kf e) xs of
        Some _ \<Rightarrow> xs
      | None \<Rightarrow> (let i = lower_bound lt kf (kf e) xs in take i xs @ e # drop i xs))"

definition os_erase_range :: "nat \<Rightarrow> nat \<Rightarrow> 'e list \<Rightarrow> 'e list" where
  "os_erase_range i j xs = take i xs @ drop j xs"

definition os_erase :: "nat \<Rightarrow> 'e list \<Rightarrow> 'e list" where
  "os_erase i xs = take i xs @ drop (Suc i) xs"

lemma lower_bound_le [simp]: "lower_bound lt kf k xs \<le> length xs"
  by (simp add: lower_bound_def length_takeWhile_le)

lemma upper_bound_le [simp]: "upper_bound lt kf k xs \<le> length xs"
  by (simp add: upper_bound_def length_takeWhile_le)

lemma length_os_erase: "i < length xs \<Longrightarrow> length (os_erase i xs) = length xs - 1"
  by (simp add: os_erase_def)

lemma set_os_erase_range: "set (os_erase_range i j xs) \<subseteq> set xs"
  by (auto simp: os_erase_range_def dest: in_set_takeD in_set_dropD)

lemma set_os_erase: "set (os_erase i xs) \<subseteq> set xs"
  by (auto simp: os_erase_def dest: in_set_takeD in_set_dropD)

lemma set_os_insert_subset: "set (os_insert lt kf e xs) \<subseteq> insert e (set xs)"
  by (auto simp: os_insert_def Let_def split: option.splits dest: in_set_takeD in_set_dropD)

lemma sorted_wrt_os_erase_range: "i \<le> j \<Longrightarrow> sorted_wrt r xs \<Longrightarrow> sorted_wrt r (os_erase_range i j xs)"
proof -
  assume ij: "i \<le> j" and s: "sorted_wrt r xs"
  have "xs = take i xs @ drop i xs" by simp
  moreover have "drop i xs = take (j - i) (drop i xs) @ drop j xs"
    using ij by (metis add_diff_inverse_nat append_take_drop_id drop_drop linorder_not_less add.commute)
  ultimately have "xs = take i xs @ take (j - i) (drop i xs) @ drop j xs" by simp
  with s have "sorted_wrt r (take i xs @ take (j - i) (drop i xs) @ drop j xs)" by simp
  then show ?thesis
    unfolding os_erase_range_def by (auto simp: sorted_wrt_append)
qed

lemma os_erase_eq_range: "os_erase i xs = os_erase_range i (Suc i) xs"
  by (simp add: os_erase_def os_erase_range_def)

lemma sorted_wrt_os_erase: "sorted_wrt r xs \<Longrightarrow> sorted_wrt r (os_erase i xs)"
  by (simp add: os_erase_eq_range sorted_wrt_os_erase_range)

lemma os_find_SomeD:
  "os_find lt kf k xs = Some i \<Longrightarrow> i < length xs \<and> \<not> lt k (kf (xs ! i)) \<and> \<not> lt (kf (xs ! i)) k"
  using nth_length_takeWhile_not [of "\<lambda>x. lt (kf x) k" xs]
  by (auto simp: os_find_def Let_def lower_bound_def split: if_splits)

subsection \<open>The container contract\<close>

locale ordered_keys =
  fixes lt :: "'k \<Rightarrow> 'k \<Rightarrow> bool" and key :: "'k \<Rightarrow> nat" and C :: "'k set"
  assumes lt_key: "x \<in> C \<Longrightarrow> y \<in> C \<Longrightarrow> lt x y \<longleftrightarrow> key x < key y"
    and key_inj: "inj_on key C"
begin

lemma key_eq: "x \<in> C \<Longrightarrow> y \<in> C \<Longrightarrow> key x = key y \<Longrightarrow> x = y"
  using key_inj by (auto dest: inj_onD)

lemma lower_bound_split:
  assumes "sorted_wrt (\<lambda>x y. lt (kf x) (kf y)) xs" and "kf ` set xs \<subseteq> C" and "k \<in> C"
  shows "take (lower_bound lt kf k xs) xs = filter (\<lambda>x. lt (kf x) k) xs
    \<and> drop (lower_bound lt kf k xs) xs = filter (\<lambda>x. \<not> lt (kf x) k) xs"
proof -
  have "sorted_wrt (\<lambda>x y. lt (kf y) k \<longrightarrow> lt (kf x) k) xs"
    using assms by (intro sorted_wrt_mono_rel [OF _ assms(1)]) (auto simp: lt_key image_subset_iff)
  from takeWhile_eq_filter_sorted [OF this] show ?thesis
    unfolding lower_bound_def take_length_takeWhile drop_length_takeWhile .
qed

lemma upper_bound_split:
  assumes "sorted_wrt (\<lambda>x y. lt (kf x) (kf y)) xs" and "kf ` set xs \<subseteq> C" and "k \<in> C"
  shows "take (upper_bound lt kf k xs) xs = filter (\<lambda>x. \<not> lt k (kf x)) xs
    \<and> drop (upper_bound lt kf k xs) xs = filter (\<lambda>x. lt k (kf x)) xs"
proof -
  have "sorted_wrt (\<lambda>x y. \<not> lt k (kf y) \<longrightarrow> \<not> lt k (kf x)) xs"
    using assms by (intro sorted_wrt_mono_rel [OF _ assms(1)]) (auto simp: lt_key image_subset_iff)
  from takeWhile_eq_filter_sorted [OF this] show ?thesis
    unfolding upper_bound_def take_length_takeWhile drop_length_takeWhile by simp
qed

lemma find_iff:
  assumes s: "sorted_wrt (\<lambda>x y. lt (kf x) (kf y)) xs" and c: "kf ` set xs \<subseteq> C" and k: "k \<in> C"
  shows "os_find lt kf k xs \<noteq> None \<longleftrightarrow> k \<in> kf ` set xs"
proof
  assume "os_find lt kf k xs \<noteq> None"
  then obtain i where i: "os_find lt kf k xs = Some i" by auto
  from os_find_SomeD [OF i] have "i < length xs" "\<not> lt k (kf (xs ! i))" "\<not> lt (kf (xs ! i)) k"
    by auto
  moreover from \<open>i < length xs\<close> c have "kf (xs ! i) \<in> C" by auto
  ultimately have "kf (xs ! i) = k" using k by (auto simp: lt_key intro: key_eq)
  with \<open>i < length xs\<close> show "k \<in> kf ` set xs" by auto
next
  assume "k \<in> kf ` set xs"
  then obtain e where e: "e \<in> set xs" "kf e = k" by auto
  let ?i = "lower_bound lt kf k xs"
  from lower_bound_split [OF s c k]
  have d: "drop ?i xs = filter (\<lambda>x. \<not> lt (kf x) k) xs" by simp
  from e k have "e \<in> set (drop ?i xs)" unfolding d by (auto simp: lt_key)
  then have lt: "?i < length xs" by (metis drop_all empty_iff empty_set leI)
  then have "drop ?i xs = xs ! ?i # drop (Suc ?i) xs" by (simp add: Cons_nth_drop_Suc)
  moreover have "sorted_wrt (\<lambda>x y. lt (kf x) (kf y)) (drop ?i xs)"
    using s by (simp add: sorted_wrt_drop)
  ultimately have "xs ! ?i = e \<or> lt (kf (xs ! ?i)) (kf e)"
    using \<open>e \<in> set (drop ?i xs)\<close> by auto
  moreover have "kf (xs ! ?i) \<in> C" using lt c by auto
  ultimately have "\<not> lt k (kf (xs ! ?i))" using e k lt_key [of "kf (xs ! ?i)" k] lt_key [of k "kf (xs ! ?i)"]
    by auto
  with lt show "os_find lt kf k xs \<noteq> None" by (simp add: os_find_def Let_def)
qed

lemma find_nth:
  assumes "os_find lt kf k xs = Some i" and "kf ` set xs \<subseteq> C" and "k \<in> C"
  shows "i < length xs \<and> kf (xs ! i) = k"
proof -
  from os_find_SomeD [OF assms(1)]
  have i: "i < length xs" "\<not> lt k (kf (xs ! i))" "\<not> lt (kf (xs ! i)) k" by auto
  with assms(2) have "kf (xs ! i) \<in> C" by auto
  with i assms(3) show ?thesis by (auto simp: lt_key intro: key_eq)
qed

lemma insert_spec:
  assumes s: "sorted_wrt (\<lambda>x y. lt (kf x) (kf y)) xs" and c: "kf ` set xs \<subseteq> C" and k: "kf e \<in> C"
  shows "sorted_wrt (\<lambda>x y. lt (kf x) (kf y)) (os_insert lt kf e xs)
    \<and> set (os_insert lt kf e xs) = (if kf e \<in> kf ` set xs then set xs else insert e (set xs))
    \<and> length (os_insert lt kf e xs) = (if kf e \<in> kf ` set xs then length xs else Suc (length xs))"
proof (cases "os_find lt kf (kf e) xs")
  case (Some i)
  with find_iff [OF s c k] have "kf e \<in> kf ` set xs" by simp
  with Some s show ?thesis by (simp add: os_insert_def)
next
  case None
  with find_iff [OF s c k] have nin: "kf e \<notin> kf ` set xs" by simp
  let ?i = "lower_bound lt kf (kf e) xs"
  let ?A = "filter (\<lambda>x. lt (kf x) (kf e)) xs" and ?B = "filter (\<lambda>x. \<not> lt (kf x) (kf e)) xs"
  have ins: "os_insert lt kf e xs = ?A @ e # ?B"
    using None lower_bound_split [OF s c k] by (simp add: os_insert_def Let_def)
  have "sorted_wrt (\<lambda>x y. lt (kf x) (kf y)) (take ?i xs @ drop ?i xs)" using s by simp
  then have ab: "sorted_wrt (\<lambda>x y. lt (kf x) (kf y)) (?A @ ?B)"
    using lower_bound_split [OF s c k] by simp
  have above: "\<forall>b \<in> set ?B. lt (kf e) (kf b)"
  proof
    fix b assume "b \<in> set ?B"
    then have b: "b \<in> set xs" "\<not> lt (kf b) (kf e)" by auto
    with c have "kf b \<in> C" by auto
    moreover from b(1) nin have "kf b \<noteq> kf e" by (metis imageI)
    moreover from this have "key (kf b) \<noteq> key (kf e)"
      using key_eq [OF \<open>kf b \<in> C\<close> k] by auto
    ultimately show "lt (kf e) (kf b)" using b(2) k by (simp add: lt_key)
  qed
  have below: "\<forall>a \<in> set ?A. lt (kf a) (kf e)" by simp
  have srt: "sorted_wrt (\<lambda>x y. lt (kf x) (kf y)) (?A @ e # ?B)"
    unfolding sorted_wrt_append sorted_wrt.simps list.set
    using ab [unfolded sorted_wrt_append] above below by blast
  have len: "length ?A + length ?B = length xs"
    by (rule sum_length_filter_compl)
  have "set (?A @ e # ?B) = insert e (set xs)" by auto
  with srt len nin show ?thesis unfolding ins by simp
qed

end

end
