(* ===== verification/SeqManager.thy ===== *)
theory SeqManager
  imports OrderedSet
begin

unbundle bit_operations_syntax

text \<open>
  \<^verbatim>\<open>RTC::SeqManager<T, N>\<close> (\<^verbatim>\<open>worker/include/RTC/SeqManager.hpp\<close>,
  \<^verbatim>\<open>worker/src/RTC/SeqManager.cpp\<close>): the wrapping comparison of sequence numbers that the
  whole worker uses, and the renumbering that closes the gaps left by packets the worker
  decides not to forward.

  \<open>T\<close> is a word type; the parameter \<open>N\<close> is the template's number of bits, 0 for all bits of
  \<open>T\<close>. Intermediate promotions to \<^verbatim>\<open>int\<close> or \<^verbatim>\<open>size_t\<close> are followed in the code by a mask or a
  guard that makes word arithmetic give the same value. The member \<^verbatim>\<open>dropped\<close>, a
  \<^verbatim>\<open>std::set\<close> ordered by \<^verbatim>\<open>SeqLowerThan\<close>, is the list of its elements in that order.
\<close>

section \<open>Definitions\<close>

definition MaxValue :: "nat \<Rightarrow> 'a::len word" where
  "MaxValue N = (if N = 0 then - 1 else push_bit N 1 - 1)"

definition SeqLowerThan :: "nat \<Rightarrow> 'a::len word \<Rightarrow> 'a word \<Rightarrow> bool" where
  "SeqLowerThan N lhs rhs \<longleftrightarrow>
     (rhs > lhs \<and> rhs - lhs \<le> MaxValue N div 2) \<or>
     (lhs > rhs \<and> lhs - rhs > MaxValue N div 2)"

definition SeqHigherThan :: "nat \<Rightarrow> 'a::len word \<Rightarrow> 'a word \<Rightarrow> bool" where
  "SeqHigherThan N lhs rhs \<longleftrightarrow>
     (lhs > rhs \<and> lhs - rhs \<le> MaxValue N div 2) \<or>
     (rhs > lhs \<and> rhs - lhs > MaxValue N div 2)"

record 't seq_manager =
  sm_started :: bool
  sm_base :: 't
  sm_maxOutput :: 't
  sm_maxInput :: 't
  sm_dropped :: "'t list"

definition SeqManager_init :: "'a::len word seq_manager" where
  "SeqManager_init =
     \<lparr>sm_started = False, sm_base = 0, sm_maxOutput = 0, sm_maxInput = 0, sm_dropped = []\<rparr>"

definition SeqManager_Sync :: "nat \<Rightarrow> 'a::len word \<Rightarrow> 'a word seq_manager \<Rightarrow> 'a word seq_manager" where
  "SeqManager_Sync N input s =
     s\<lparr>sm_base := (sm_maxOutput s - input) AND MaxValue N,
       sm_maxInput := input,
       sm_dropped := []\<rparr>"

definition SeqManager_Drop :: "nat \<Rightarrow> 'a::len word \<Rightarrow> 'a word seq_manager \<Rightarrow> 'a word seq_manager" where
  "SeqManager_Drop N input s =
     (if SeqHigherThan N input (sm_maxInput s)
      then s\<lparr>sm_dropped := os_insert (SeqLowerThan N) id input (sm_dropped s)\<rparr>
      else s)"

text \<open>
  Erases the dropped values between \<^verbatim>\<open>maxInput\<close> and \<^verbatim>\<open>threshold\<close>, with the three cases of
  the code: no value above \<^verbatim>\<open>maxInput\<close>, both iterators equal, and the general one with the
  iterators compared by their distance to the beginning.
\<close>

definition SeqManager_ClearDropped :: "nat \<Rightarrow> 'a::len word seq_manager \<Rightarrow> 'a word seq_manager" where
  "SeqManager_ClearDropped N s =
     (if sm_dropped s = [] then s
      else
        let threshold = (sm_maxInput s + MaxValue N div 3) AND MaxValue N;
            previousDroppedSize = length (sm_dropped s);
            it1 = upper_bound (SeqLowerThan N) id (sm_maxInput s) (sm_dropped s);
            it2 = lower_bound (SeqLowerThan N) id threshold (sm_dropped s)
        in if it1 = length (sm_dropped s) then s
           else
             let dropped' =
                   (if it1 = it2 then os_erase it1 (sm_dropped s)
                    else if it2 < it1 then os_erase it1 (sm_dropped s)
                    else os_erase_range it1 it2 (sm_dropped s))
             in s\<lparr>sm_dropped := dropped',
                  sm_base := (sm_base s - of_nat (previousDroppedSize - length dropped'))
                               AND MaxValue N\<rparr>)"

text \<open>The values of \<^verbatim>\<open>dropped\<close> that \<^verbatim>\<open>Input\<close> counts for the output of \<open>input\<close>.\<close>

definition counted_dropped :: "nat \<Rightarrow> 'a::len word \<Rightarrow> 'a word \<Rightarrow> bool" where
  "counted_dropped N input value \<longleftrightarrow>
     SeqLowerThan N value input \<or>
     (value > input \<and> value - input > MaxValue N div 3) \<or>
     (value < input \<and> input - value > MaxValue N div 3)"

text \<open>
  \<open>None\<close> is the result \<^verbatim>\<open>false\<close> (the input was dropped, the state is unchanged); \<open>Some\<close>
  carries the output and the new state.
\<close>

definition SeqManager_Input ::
  "nat \<Rightarrow> 'a::len word \<Rightarrow> 'a word seq_manager \<Rightarrow> ('a word \<times> 'a word seq_manager) option" where
  "SeqManager_Input N input s =
     (if sm_dropped s \<noteq> [] \<and> os_find (SeqLowerThan N) id input (sm_dropped s) \<noteq> None then None
      else
        let base = (if sm_dropped s \<noteq> []
                    then (sm_base s - of_nat (length (filter (counted_dropped N input) (sm_dropped s))))
                           AND MaxValue N
                    else sm_base s);
            output = (input + base) AND MaxValue N;
            s1 = (if \<not> sm_started s
                  then s\<lparr>sm_started := True, sm_maxInput := input, sm_maxOutput := output\<rparr>
                  else s\<lparr>sm_maxInput := (if SeqHigherThan N input (sm_maxInput s)
                                        then input else sm_maxInput s),
                         sm_maxOutput := (if SeqHigherThan N output (sm_maxOutput s)
                                         then output else sm_maxOutput s)\<rparr>)
        in Some (output, SeqManager_ClearDropped N s1))"

lemmas SeqManager_defs [op_defs] =
  SeqManager_Sync_def SeqManager_Drop_def SeqManager_ClearDropped_def SeqManager_Input_def

section \<open>The wrapping order\<close>

text \<open>
  The number of bits in use and half the size of the number space; forward distance
  \<open>seq_off N b x\<close> from \<open>b\<close> to \<open>x\<close>; and the window of the half space that starts at \<open>b\<close>.
\<close>

definition seq_bits :: "'a::len itself \<Rightarrow> nat \<Rightarrow> nat" where
  "seq_bits T N = (if N = 0 then LENGTH('a) else N)"

definition seq_half :: "'a::len itself \<Rightarrow> nat \<Rightarrow> nat" where
  "seq_half T N = 2 ^ (seq_bits T N - 1)"

definition seq_valid :: "nat \<Rightarrow> 'a::len word \<Rightarrow> bool" where
  "seq_valid N x \<longleftrightarrow> N \<le> LENGTH('a) \<and> x \<le> MaxValue N"

definition seq_off :: "nat \<Rightarrow> 'a::len word \<Rightarrow> 'a word \<Rightarrow> nat" where
  "seq_off N b x = unat ((x - b) AND MaxValue N)"

definition seq_window :: "nat \<Rightarrow> 'a::len word \<Rightarrow> 'a word set" where
  "seq_window N b = {x. seq_valid N b \<and> seq_valid N x \<and> seq_off N b x < seq_half TYPE('a) N}"

lemma seq_bits_pos: "0 < seq_bits TYPE('a::len) N"
  by (simp add: seq_bits_def)

lemma seq_bits_le: "N \<le> LENGTH('a::len) \<Longrightarrow> seq_bits TYPE('a) N \<le> LENGTH('a)"
  by (simp add: seq_bits_def)

lemma two_power_seq_bits: "2 ^ seq_bits TYPE('a::len) N = 2 * seq_half TYPE('a) N"
  unfolding seq_half_def using seq_bits_pos [where 'a = 'a and N = N]
  by (metis Suc_pred' power_Suc)

lemma seq_half_pos: "0 < seq_half TYPE('a::len) N"
  by (simp add: seq_half_def)

lemma MaxValue_mask:
  assumes "N \<le> LENGTH('a)"
  shows "(MaxValue N :: 'a::len word) = mask (seq_bits TYPE('a) N)"
  using assms by (simp add: MaxValue_def seq_bits_def mask_eq_decr_exp push_bit_eq_mult)

lemma unat_MaxValue:
  assumes "N \<le> LENGTH('a)"
  shows "unat (MaxValue N :: 'a::len word) = 2 * seq_half TYPE('a) N - 1"
  using assms by (simp add: MaxValue_mask unat_mask_word seq_bits_le two_power_seq_bits)

lemma unat_MaxValue_half:
  assumes "N \<le> LENGTH('a)"
  shows "unat (MaxValue N div 2 :: 'a::len word) = seq_half TYPE('a) N - 1"
  by (simp add: unat_half_word unat_MaxValue [OF assms])

lemma seq_valid_iff:
  "seq_valid N (x :: 'a::len word) \<longleftrightarrow> N \<le> LENGTH('a) \<and> unat x < 2 * seq_half TYPE('a) N"
  using unat_MaxValue [of N, where 'a = 'a] seq_half_pos [of N, where 'a = 'a]
  by (auto simp: seq_valid_def word_le_nat_alt)

lemma SeqLowerThan_nat:
  fixes a b :: "'a::len word"
  assumes "N \<le> LENGTH('a)"
  shows "SeqLowerThan N a b \<longleftrightarrow>
    (unat a < unat b \<and> unat b - unat a < seq_half TYPE('a) N) \<or>
    (unat b < unat a \<and> seq_half TYPE('a) N \<le> unat a - unat b)"
  using unat_MaxValue_half [OF assms] seq_half_pos [of N, where 'a = 'a]
  by (auto simp: SeqLowerThan_def word_less_nat_alt word_le_nat_alt unat_sub_wrap)

lemma SeqHigherThan_flip: "SeqHigherThan N a b = SeqLowerThan N b a"
  by (auto simp: SeqHigherThan_def SeqLowerThan_def)

lemma seq_off_nat:
  fixes b x :: "'a::len word"
  assumes "seq_valid N b" and "seq_valid N x"
  shows "seq_off N b x =
    (if unat b \<le> unat x then unat x - unat b else unat x + 2 * seq_half TYPE('a) N - unat b)"
proof -
  let ?M = "2 * seq_half TYPE('a) N"
  from assms have N: "N \<le> LENGTH('a)" and b: "unat b < ?M" and x: "unat x < ?M"
    by (auto simp: seq_valid_iff)
  have "?M dvd 2 ^ LENGTH('a)"
    unfolding two_power_seq_bits [symmetric] using seq_bits_le [OF N] by (rule le_imp_power_dvd)
  then obtain q where q: "2 ^ LENGTH('a) = ?M * q" by (auto simp: dvd_def)
  then obtain r where r: "q = Suc r" by (cases q) auto
  have "seq_off N b x = unat (x - b) mod ?M"
    unfolding seq_off_def MaxValue_mask [OF N] unat_and_mask_word two_power_seq_bits ..
  also have "\<dots> = (if unat b \<le> unat x then unat x - unat b else unat x + ?M - unat b)"
  proof (cases "unat b \<le> unat x")
    case True
    with x show ?thesis by (simp add: unat_sub_wrap)
  next
    case False
    from b have "unat x + ?M * q - unat b = (unat x + ?M - unat b) + ?M * r" by (simp add: r)
    moreover have "unat (x - b) = unat x + ?M * q - unat b"
      using False unfolding unat_sub_wrap q by (rule if_not_P)
    moreover have "unat x + ?M - unat b < ?M" using False b by linarith
    ultimately have "unat (x - b) mod ?M = unat x + ?M - unat b" by (metis mod_less mod_mult_self2)
    with False show ?thesis by simp
  qed
  finally show ?thesis .
qed

lemma seq_off_less:
  fixes b x :: "'a::len word"
  assumes "seq_valid N b" and "seq_valid N x"
  shows "seq_off N b x < 2 * seq_half TYPE('a) N"
  using assms by (auto simp: seq_off_nat seq_valid_iff)

lemma seq_off_inj:
  fixes b x y :: "'a::len word"
  assumes "seq_valid N b" and "seq_valid N x" and "seq_valid N y" and "seq_off N b x = seq_off N b y"
  shows "x = y"
proof -
  from assms have "unat x = unat y"
    by (auto simp: seq_off_nat seq_valid_iff split: if_splits)
  then show ?thesis by (simp add: word_unat_eq_iff)
qed

lemma SeqLowerThan_window:
  fixes b x y :: "'a::len word"
  assumes "x \<in> seq_window N b" and "y \<in> seq_window N b"
  shows "SeqLowerThan N x y \<longleftrightarrow> seq_off N b x < seq_off N b y"
proof -
  let ?h = "seq_half TYPE('a) N"
  from assms have v: "seq_valid N b" "seq_valid N x" "seq_valid N y"
    and o: "seq_off N b x < ?h" "seq_off N b y < ?h"
    by (auto simp: seq_window_def)
  then have N: "N \<le> LENGTH('a)" and m: "unat b < 2 * ?h" "unat x < 2 * ?h" "unat y < 2 * ?h"
    by (auto simp: seq_valid_iff)
  show ?thesis
    using o m unfolding SeqLowerThan_nat [OF N] seq_off_nat [OF v(1,2)] seq_off_nat [OF v(1,3)]
    by (cases "unat b \<le> unat x"; cases "unat b \<le> unat y") auto
qed

interpretation seq_order: ordered_keys "SeqLowerThan N" "seq_off N b" "seq_window N b"
  for N :: nat and b :: "'a::len word"
proof
  fix x y :: "'a word"
  assume "x \<in> seq_window N b" and "y \<in> seq_window N b"
  then show "SeqLowerThan N x y \<longleftrightarrow> seq_off N b x < seq_off N b y"
    by (rule SeqLowerThan_window)
next
  show "inj_on (seq_off N b) (seq_window N b)"
    by (rule inj_onI) (auto simp: seq_window_def intro: seq_off_inj)
qed

lemma SeqLowerThan_off:
  fixes a b :: "'a::len word"
  assumes "seq_valid N a" and "seq_valid N b"
  shows "SeqLowerThan N a b \<longleftrightarrow>
    0 < seq_off N a b \<and>
    (seq_off N a b < seq_half TYPE('a) N \<or> seq_off N a b = seq_half TYPE('a) N \<and> b < a)"
proof -
  let ?h = "seq_half TYPE('a) N"
  from assms have N: "N \<le> LENGTH('a)" and m: "unat a < 2 * ?h" "unat b < 2 * ?h"
    by (auto simp: seq_valid_iff)
  show ?thesis
    using m unfolding SeqLowerThan_nat [OF N] seq_off_nat [OF assms] word_less_nat_alt
    by (cases "unat a \<le> unat b") auto
qed

lemma seq_lower_irrefl [simp]: "\<not> SeqLowerThan N a a"
  by (simp add: SeqLowerThan_def)

lemma seq_trichotomy:
  fixes a b :: "'a::len word"
  assumes "seq_valid N a" and "seq_valid N b" and "a \<noteq> b"
  shows "SeqLowerThan N a b \<longleftrightarrow> \<not> SeqLowerThan N b a"
proof -
  let ?h = "seq_half TYPE('a) N"
  from assms have N: "N \<le> LENGTH('a)" and m: "unat a < 2 * ?h" "unat b < 2 * ?h"
    and ne: "unat a \<noteq> unat b"
    by (auto simp: seq_valid_iff word_unat_eq_iff)
  then show ?thesis unfolding SeqLowerThan_nat [OF N] by arith
qed

lemma seq_valid_full [simp]: "seq_valid 0 x"
  by (simp add: seq_valid_def MaxValue_def)

section \<open>Masked arithmetic\<close>

definition seq_add :: "nat \<Rightarrow> 'a::len word \<Rightarrow> nat \<Rightarrow> 'a word" where
  "seq_add N b i = (b + of_nat i) AND MaxValue N"

lemma seq_valid_and_MaxValue [simp]:
  "N \<le> LENGTH('a) \<Longrightarrow> seq_valid N ((x :: 'a::len word) AND MaxValue N)"
  by (simp add: seq_valid_def word_and_le1)

lemma unat_and_MaxValue:
  "N \<le> LENGTH('a) \<Longrightarrow> unat ((x :: 'a::len word) AND MaxValue N) = unat x mod 2 ^ seq_bits TYPE('a) N"
  by (simp add: MaxValue_mask unat_and_mask_word)

lemma unat_add_and_MaxValue:
  fixes x y :: "'a::len word"
  assumes "N \<le> LENGTH('a)"
  shows "unat ((x + y) AND MaxValue N) = (unat x + unat y) mod 2 ^ seq_bits TYPE('a) N"
proof -
  have "(2::nat) ^ seq_bits TYPE('a) N dvd 2 ^ LENGTH('a)"
    using seq_bits_le [OF assms] by (rule le_imp_power_dvd)
  then show ?thesis
    unfolding unat_and_MaxValue [OF assms] unat_add_wrap by (rule mod_mod_cancel)
qed

lemma and_MaxValue_add:
  fixes x y :: "'a::len word"
  assumes "N \<le> LENGTH('a)"
  shows "((x AND MaxValue N) + y) AND MaxValue N = (x + y) AND MaxValue N"
    and "(x + (y AND MaxValue N)) AND MaxValue N = (x + y) AND MaxValue N"
  by (simp_all only: word_unat_eq_iff unat_add_and_MaxValue [OF assms])
     (simp_all only: unat_and_MaxValue [OF assms] mod_add_left_eq mod_add_right_eq)

lemma and_MaxValue_diff:
  fixes x y :: "'a::len word"
  assumes "N \<le> LENGTH('a)"
  shows "((x AND MaxValue N) - y) AND MaxValue N = (x - y) AND MaxValue N"
  using and_MaxValue_add(1) [OF assms, of x "- y"] by simp

lemma and_MaxValue_id: "seq_valid N x \<Longrightarrow> (x :: 'a::len word) AND MaxValue N = x"
proof -
  assume v: "seq_valid N x"
  then have N: "N \<le> LENGTH('a)" and "unat x < 2 ^ seq_bits TYPE('a) N"
    by (auto simp: seq_valid_iff two_power_seq_bits)
  then have "unat (x AND MaxValue N) = unat x"
    by (simp add: MaxValue_mask unat_and_mask_word)
  then show ?thesis by (simp add: word_unat_eq_iff)
qed

lemma seq_off_add:
  fixes b :: "'a::len word"
  assumes "N \<le> LENGTH('a)" and "i < 2 * seq_half TYPE('a) N"
  shows "seq_off N b (seq_add N b i) = i"
proof -
  have "seq_off N b (seq_add N b i) = unat ((of_nat i :: 'a word) AND MaxValue N)"
    unfolding seq_off_def seq_add_def and_MaxValue_diff [OF assms(1)] by simp
  also have "\<dots> = unat (of_nat i :: 'a word) mod 2 ^ seq_bits TYPE('a) N"
    by (simp add: MaxValue_mask [OF assms(1)] unat_and_mask_word)
  also have "unat (of_nat i :: 'a word) = i"
  proof (rule unat_of_nat_less)
    have "2 * seq_half TYPE('a) N \<le> 2 ^ LENGTH('a)"
      unfolding two_power_seq_bits [symmetric] using seq_bits_le [OF assms(1)] by simp
    with assms(2) show "i < 2 ^ LENGTH('a)" by linarith
  qed
  also have "i mod 2 ^ seq_bits TYPE('a) N = i"
    using assms(2) by (simp add: two_power_seq_bits)
  finally show ?thesis .
qed

lemma seq_add_window:
  fixes b :: "'a::len word"
  assumes "seq_valid N b" and "i < seq_half TYPE('a) N"
  shows "seq_add N b i \<in> seq_window N b"
proof -
  from assms(1) have N: "N \<le> LENGTH('a)" by (simp add: seq_valid_def)
  from assms(2) have "i < 2 * seq_half TYPE('a) N" by simp
  with N assms show ?thesis
    by (simp add: seq_window_def seq_off_add) (simp add: seq_add_def)
qed

lemma seq_add_Suc:
  "N \<le> LENGTH('a) \<Longrightarrow> (seq_add N b i + 1) AND MaxValue N = seq_add N (b :: 'a::len word) (Suc i)"
  by (simp add: seq_add_def and_MaxValue_add algebra_simps)

lemma seq_add_Suc_mask:
  fixes b y :: "'a::len word"
  assumes "N \<le> LENGTH('a)"
  shows "(seq_add N b (Suc t) + y) AND MaxValue N = (seq_add N b t + y + 1) AND MaxValue N"
proof -
  have "(seq_add N b (Suc t) + y) AND MaxValue N = (seq_add N b t + 1 + y) AND MaxValue N"
    by (simp only: seq_add_Suc [OF assms, symmetric] and_MaxValue_add [OF assms])
  then show ?thesis by (simp add: algebra_simps)
qed

lemma seq_next_higher:
  fixes a :: "'a::len word"
  assumes "seq_valid N a" and "2 \<le> seq_bits TYPE('a) N"
  shows "SeqHigherThan N ((a + 1) AND MaxValue N) a"
proof -
  have "2 ^ 1 \<le> seq_half TYPE('a) N"
    unfolding seq_half_def using assms(2) by (intro power_increasing) auto
  then have h: "1 < seq_half TYPE('a) N" by simp
  have "(a + 1) AND MaxValue N = seq_add N a 1" by (simp add: seq_add_def)
  moreover have "a = seq_add N a 0" using assms(1) by (simp add: seq_add_def and_MaxValue_id)
  moreover from assms(1) have "N \<le> LENGTH('a)" by (simp add: seq_valid_def)
  ultimately show ?thesis
    using h SeqLowerThan_window [OF seq_add_window [OF assms(1)] seq_add_window [OF assms(1)], of 0 1]
      seq_off_add [of N 0 a] seq_off_add [of N 1 a]
    by (simp add: SeqHigherThan_flip)
qed

section \<open>Renumbering in order\<close>

text \<open>
  Consecutive inputs from \<open>x\<close> on, as a consumer feeds them: \<open>True\<close> drops the packet (the
  code calls \<^verbatim>\<open>Drop\<close>), \<open>False\<close> forwards it (\<^verbatim>\<open>Input\<close>). The result holds the outputs given to
  the forwarded packets.
\<close>

fun seq_run ::
  "nat \<Rightarrow> 'a::len word \<Rightarrow> bool list \<Rightarrow> 'a word seq_manager \<Rightarrow> 'a word list \<times> 'a word seq_manager" where
  "seq_run N x [] s = ([], s)"
| "seq_run N x (d # ds) s =
     (if d then seq_run N ((x + 1) AND MaxValue N) ds (SeqManager_Drop N x s)
      else case SeqManager_Input N x s of
             None \<Rightarrow> seq_run N ((x + 1) AND MaxValue N) ds s
           | Some (out, s') \<Rightarrow>
               (let (outs, s'') = seq_run N ((x + 1) AND MaxValue N) ds s' in (out # outs, s'')))"

text \<open>
  \<open>in_order N b t s\<close>: \<open>t - 1\<close> inputs after \<open>b\<close> have been handled, and the next one is
  numbered to follow \<^verbatim>\<open>maxOutput\<close>.
\<close>

definition in_order :: "nat \<Rightarrow> 'a::len word \<Rightarrow> nat \<Rightarrow> 'a word seq_manager \<Rightarrow> bool" where
  "in_order N b t s \<longleftrightarrow>
     seq_valid N b \<and> seq_valid N (sm_maxOutput s) \<and> t < seq_half TYPE('a) N \<and>
     (\<exists>m < t. sm_maxInput s = seq_add N b m) \<and>
     sorted_wrt (SeqLowerThan N) (sm_dropped s) \<and>
     set (sm_dropped s) \<subseteq> seq_add N b ` {..<t} \<and>
     (seq_add N b t + sm_base s - of_nat (length (sm_dropped s))) AND MaxValue N
       = (sm_maxOutput s + 1) AND MaxValue N"

lemma in_order_lower:
  fixes b :: "'a::len word"
  assumes "seq_valid N b" and "t < seq_half TYPE('a) N" and "m < t"
  shows "SeqLowerThan N (seq_add N b m) (seq_add N b t)"
proof -
  from assms have "N \<le> LENGTH('a)" by (simp add: seq_valid_def)
  with assms show ?thesis
    by (simp add: SeqLowerThan_window [OF seq_add_window seq_add_window] seq_off_add)
qed

lemma in_order_window:
  fixes b :: "'a::len word"
  assumes "in_order N b t s"
  shows "id ` set (sm_dropped s) \<subseteq> seq_window N b" and "seq_add N b t \<in> seq_window N b"
    and "seq_add N b t \<notin> id ` set (sm_dropped s)"
    and "\<forall>d \<in> set (sm_dropped s). SeqLowerThan N d (seq_add N b t)"
proof -
  from assms have v: "seq_valid N b" and t: "t < seq_half TYPE('a) N"
    and d: "set (sm_dropped s) \<subseteq> seq_add N b ` {..<t}"
    by (auto simp: in_order_def)
  show low: "\<forall>d \<in> set (sm_dropped s). SeqLowerThan N d (seq_add N b t)"
    using d in_order_lower [OF v t] by auto
  show "id ` set (sm_dropped s) \<subseteq> seq_window N b"
    using d t by (auto intro!: seq_add_window [OF v])
  show "seq_add N b t \<in> seq_window N b" using v t by (rule seq_add_window)
  show "seq_add N b t \<notin> id ` set (sm_dropped s)" using low by auto
qed

lemma Drop_in_order:
  fixes b :: "'a::len word"
  assumes io: "in_order N b t s" and t: "Suc t < seq_half TYPE('a) N"
  shows "in_order N b (Suc t) (SeqManager_Drop N (seq_add N b t) s)"
    and "sm_maxOutput (SeqManager_Drop N (seq_add N b t) s) = sm_maxOutput s"
proof -
  let ?x = "seq_add N b t"
  from io have v: "seq_valid N b" and tl: "t < seq_half TYPE('a) N"
    and srt: "sorted_wrt (SeqLowerThan N) (sm_dropped s)"
    and sub: "set (sm_dropped s) \<subseteq> seq_add N b ` {..<t}"
    and out: "(?x + sm_base s - of_nat (length (sm_dropped s))) AND MaxValue N
      = (sm_maxOutput s + 1) AND MaxValue N"
    by (auto simp: in_order_def)
  from io obtain m where m: "m < t" "sm_maxInput s = seq_add N b m" by (auto simp: in_order_def)
  from v have N: "N \<le> LENGTH('a)" by (simp add: seq_valid_def)
  have hi: "SeqHigherThan N ?x (sm_maxInput s)"
    using in_order_lower [OF v tl m(1)] m(2) by (simp add: SeqHigherThan_flip)
  then have drop: "SeqManager_Drop N ?x s
      = s\<lparr>sm_dropped := os_insert (SeqLowerThan N) id ?x (sm_dropped s)\<rparr>"
    by (simp add: SeqManager_Drop_def)
  have ins: "sorted_wrt (SeqLowerThan N) (os_insert (SeqLowerThan N) id ?x (sm_dropped s))"
    "set (os_insert (SeqLowerThan N) id ?x (sm_dropped s)) = insert ?x (set (sm_dropped s))"
    "length (os_insert (SeqLowerThan N) id ?x (sm_dropped s)) = Suc (length (sm_dropped s))"
    using seq_order.insert_spec [of N id "sm_dropped s" b ?x] in_order_window [OF io] srt by simp_all
  have o': "(seq_add N b (Suc t) + sm_base s - of_nat (Suc (length (sm_dropped s)))) AND MaxValue N
      = (sm_maxOutput s + 1) AND MaxValue N"
    using out seq_add_Suc_mask [OF N, of b t "sm_base s - of_nat (Suc (length (sm_dropped s)))"]
    by (simp add: algebra_simps)
  show "in_order N b (Suc t) (SeqManager_Drop N ?x s)"
    using io t ins o' m sub unfolding in_order_def drop
    by (auto simp del: of_nat_Suc intro: less_SucI simp: lessThan_Suc)
  show "sm_maxOutput (SeqManager_Drop N ?x s) = sm_maxOutput s" by (simp add: drop)
qed

lemma ClearDropped_nothing_above:
  assumes "\<forall>d \<in> set (sm_dropped s). \<not> SeqLowerThan N (sm_maxInput s) d"
  shows "SeqManager_ClearDropped N s = s"
proof -
  have "upper_bound (SeqLowerThan N) id (sm_maxInput s) (sm_dropped s) = length (sm_dropped s)"
    unfolding upper_bound_def
    by (rule arg_cong [where f = length]) (simp add: takeWhile_eq_all_conv assms)
  then show ?thesis by (simp add: SeqManager_ClearDropped_def Let_def)
qed

lemma Input_in_order:
  fixes b :: "'a::len word"
  assumes io: "in_order N b t s" and t: "Suc t < seq_half TYPE('a) N"
    and bits: "2 \<le> seq_bits TYPE('a) N"
  shows "\<exists>s'. SeqManager_Input N (seq_add N b t) s = Some ((sm_maxOutput s + 1) AND MaxValue N, s')
    \<and> in_order N b (Suc t) s' \<and> sm_maxOutput s' = (sm_maxOutput s + 1) AND MaxValue N"
proof -
  let ?x = "seq_add N b t" and ?out = "(sm_maxOutput s + 1) AND MaxValue N"
  let ?s1 = "s\<lparr>sm_started := True, sm_maxInput := ?x, sm_maxOutput := ?out\<rparr>"
  note w = in_order_window [OF io]
  from io have v: "seq_valid N b" and tl: "t < seq_half TYPE('a) N"
    and vo: "seq_valid N (sm_maxOutput s)"
    and srt: "sorted_wrt (SeqLowerThan N) (sm_dropped s)"
    and sub: "set (sm_dropped s) \<subseteq> seq_add N b ` {..<t}"
    and out: "(?x + sm_base s - of_nat (length (sm_dropped s))) AND MaxValue N = ?out"
    by (auto simp: in_order_def)
  from io obtain m where m: "m < t" "sm_maxInput s = seq_add N b m" by (auto simp: in_order_def)
  from v have N: "N \<le> LENGTH('a)" by (simp add: seq_valid_def)
  have nf: "os_find (SeqLowerThan N) id ?x (sm_dropped s) = None"
    using seq_order.find_iff [of N id "sm_dropped s" b ?x] w srt by simp
  have "filter (counted_dropped N ?x) (sm_dropped s) = sm_dropped s"
    using w(4) by (simp add: counted_dropped_def filter_id_conv)
  then have o': "(?x + (if sm_dropped s \<noteq> []
      then (sm_base s - of_nat (length (filter (counted_dropped N ?x) (sm_dropped s)))) AND MaxValue N
      else sm_base s)) AND MaxValue N = ?out"
    using out by (auto simp: and_MaxValue_add [OF N] algebra_simps)
  have hi: "SeqHigherThan N ?x (sm_maxInput s)"
    using in_order_lower [OF v tl m(1)] m(2) by (simp add: SeqHigherThan_flip)
  have ho: "SeqHigherThan N ?out (sm_maxOutput s)" using vo bits by (rule seq_next_higher)
  have "\<forall>d \<in> set (sm_dropped s). \<not> SeqLowerThan N ?x d"
  proof
    fix d assume "d \<in> set (sm_dropped s)"
    with w have "d \<in> seq_window N b" "SeqLowerThan N d ?x" by auto
    then show "\<not> SeqLowerThan N ?x d"
      using w(2) SeqLowerThan_window [of d N b ?x] SeqLowerThan_window [of ?x N b d] by simp
  qed
  then have clr: "SeqManager_ClearDropped N ?s1 = ?s1"
    by (intro ClearDropped_nothing_above) simp
  have inp: "SeqManager_Input N ?x s = Some (?out, ?s1)"
  proof (cases "sm_started s")
    case True
    then have "s\<lparr>sm_maxInput := ?x, sm_maxOutput := ?out\<rparr> = ?s1" by (cases s) simp
    with clr have "SeqManager_ClearDropped N (s\<lparr>sm_maxInput := ?x, sm_maxOutput := ?out\<rparr>) = ?s1"
      by (simp only:)
    with True show ?thesis
      unfolding SeqManager_Input_def Let_def o' using nf hi ho by simp
  next
    case False
    then show ?thesis unfolding SeqManager_Input_def Let_def o' using nf clr by simp
  qed
  have "(seq_add N b (Suc t) + sm_base s - of_nat (length (sm_dropped s))) AND MaxValue N
      = (?out + 1) AND MaxValue N"
    using seq_add_Suc_mask [OF N, of b t "sm_base s - of_nat (length (sm_dropped s))"]
      and_MaxValue_add(1) [OF N, of "?x + sm_base s - of_nat (length (sm_dropped s))" 1, unfolded out]
    by (simp add: algebra_simps)
  then have "in_order N b (Suc t) ?s1"
    using v t srt sub N by (auto simp: in_order_def lessThan_Suc intro: lessI)
  with inp show ?thesis by auto
qed

lemma seq_run_in_order:
  fixes b :: "'a::len word"
  assumes "in_order N b t s" and "2 \<le> seq_bits TYPE('a) N"
    and "t + length ds < seq_half TYPE('a) N"
  shows "fst (seq_run N (seq_add N b t) ds s)
    = map (\<lambda>i. (sm_maxOutput s + of_nat i + 1) AND MaxValue N) [0..<length (filter Not ds)]"
  using assms
proof (induction ds arbitrary: t s)
  case Nil
  then show ?case by simp
next
  case (Cons d ds)
  from Cons.prems(1) have N: "N \<le> LENGTH('a)" by (simp add: in_order_def seq_valid_def)
  have t: "Suc t < seq_half TYPE('a) N" and l: "Suc t + length ds < seq_half TYPE('a) N"
    using Cons.prems(3) by auto
  note nxt = seq_add_Suc [OF N, of b t]
  show ?case
  proof (cases d)
    case True
    note D = Drop_in_order [OF Cons.prems(1) t]
    show ?thesis using True Cons.IH [OF D(1) Cons.prems(2) l] D(2) nxt by simp
  next
    case False
    from Input_in_order [OF Cons.prems(1) t Cons.prems(2)] obtain s' where
      s': "SeqManager_Input N (seq_add N b t) s = Some ((sm_maxOutput s + 1) AND MaxValue N, s')"
        "in_order N b (Suc t) s'" "sm_maxOutput s' = (sm_maxOutput s + 1) AND MaxValue N"
      by blast
    have "fst (seq_run N (seq_add N b t) (d # ds) s)
        = ((sm_maxOutput s + 1) AND MaxValue N) # fst (seq_run N (seq_add N b (Suc t)) ds s')"
      using False s'(1) nxt by (simp add: case_prod_beta Let_def)
    also have "fst (seq_run N (seq_add N b (Suc t)) ds s')
        = map (\<lambda>i. (sm_maxOutput s + of_nat (Suc i) + 1) AND MaxValue N) [0..<length (filter Not ds)]"
      unfolding Cons.IH [OF s'(2) Cons.prems(2) l] s'(3)
      by (intro map_cong refl)
         (simp only: add.assoc and_MaxValue_add [OF N], simp add: algebra_simps)
    also have "((sm_maxOutput s + 1) AND MaxValue N) # \<dots>
        = map (\<lambda>i. (sm_maxOutput s + of_nat i + 1) AND MaxValue N)
            [0..<Suc (length (filter Not ds))]"
      by (simp add: upt_conv_Cons map_Suc_upt [symmetric] o_def del: upt_Suc)
    finally show ?thesis using False by simp
  qed
qed

lemma Sync_in_order:
  fixes y :: "'a::len word"
  assumes "seq_valid N y" and "seq_valid N (sm_maxOutput s)" and "1 < seq_half TYPE('a) N"
  shows "in_order N y 1 (SeqManager_Sync N y s)"
proof -
  from assms have N: "N \<le> LENGTH('a)" by (simp add: seq_valid_def)
  have "(seq_add N y 1 + ((sm_maxOutput s - y) AND MaxValue N)) AND MaxValue N
      = (sm_maxOutput s + 1) AND MaxValue N"
    by (simp add: seq_add_def and_MaxValue_add [OF N] add.commute)
  moreover have "y = seq_add N y 0" using assms(1) by (simp add: seq_add_def and_MaxValue_id)
  ultimately show ?thesis using assms
    by (auto simp: in_order_def SeqManager_Sync_def)
qed

section \<open>Properties\<close>

text \<open>
  C27: \<^verbatim>\<open>SeqLowerThan\<close> compares by forward distance. For numbers of \<open>N\<close> bits, \<open>a\<close> is lower than
  \<open>b\<close> exactly when the wrapped distance from \<open>a\<close> to \<open>b\<close> is positive and less than half the
  number space, the tie at exactly half being decided by the larger raw value;
  \<^verbatim>\<open>SeqHigherThan\<close> is its converse, and of two different numbers exactly one is lower.
\<close>

theorem SeqLowerThan_by_distance:
  fixes a b :: "'a::len word"
  assumes "seq_valid N a" and "seq_valid N b"
  shows "(SeqLowerThan N a b \<longleftrightarrow> 0 < seq_off N a b \<and>
      (seq_off N a b < seq_half TYPE('a) N \<or> seq_off N a b = seq_half TYPE('a) N \<and> b < a))
    \<and> SeqHigherThan N a b = SeqLowerThan N b a
    \<and> (a \<noteq> b \<longrightarrow> SeqLowerThan N a b \<noteq> SeqHigherThan N a b)"
  using assms SeqLowerThan_off [of N a b] seq_trichotomy [of N a b] by (auto simp: SeqHigherThan_flip)

theorem SeqLowerThan_by_distance_witness:
  "seq_valid 15 (32767 :: 16 word) \<and> seq_valid 15 (2 :: 16 word) \<and>
   SeqLowerThan 15 (32767 :: 16 word) 2 \<noteq> SeqHigherThan 15 (32767 :: 16 word) 2"
proof -
  have v: "seq_valid 15 (32767 :: 16 word)" "seq_valid 15 (2 :: 16 word)"
    by (simp_all add: seq_valid_def MaxValue_def)
  have "(32767 :: 16 word) \<noteq> 2" by simp
  with v SeqLowerThan_by_distance [OF v] show ?thesis by blast
qed





end
