(* ===== verification/RtpTypes.thy ===== *)
theory RtpTypes
  imports SeqManager
begin

text \<open>
  What the components of this development read of an \<^verbatim>\<open>RTC::RtpPacket\<close> through its getters.
  The parser that fills a packet is modelled on its own; a component that only calls getters
  takes this view.
\<close>

record rtp_packet =
  rp_ssrc :: u32
  rp_sequenceNumber :: u16
  rp_timestamp :: u32
  rp_payloadType :: u8
  rp_size :: nat
  rp_isKeyFrame :: bool
  rp_mid :: "string option"
  rp_rid :: "string option"

text \<open>
  A packet together with the result of its method \<^verbatim>\<open>Clone\<close>, for the components that keep
  packets.
\<close>

record 'p media_packet = rtp_packet +
  mp_clone :: 'p

end
