(* ===== verification/RtpRetransmissionBuffer.thy ===== *)
theory RtpRetransmissionBuffer
  imports RtpTypes
begin

text \<open>
  \<^verbatim>\<open>RTC::RtpRetransmissionBuffer\<close> (\<^verbatim>\<open>worker/src/RTC/RtpRetransmissionBuffer.cpp\<close>): the packets
  kept to answer NACKs, in a deque addressed by sequence number. A slot of the deque is an
  \<open>option\<close>, \<open>None\<close> being the code's \<^verbatim>\<open>nullptr\<close> (a blank slot). The operations that dereference a
  slot, index the deque or assert return \<open>None\<close> where the code would crash, so a theorem
  that they return \<open>Some\<close> is a theorem that they do not crash. The shared pointer to the
  cloned packet is an \<open>option\<close> too, empty until the first store; what is stored is the clone, of any
  type, and the buffer never looks into it.
\<close>

section \<open>Definitions\<close>

record 'p rb_item =
  it_packet :: "'p option"
  it_ssrc :: u32
  it_sequenceNumber :: u16
  it_timestamp :: u32
  it_resentAtMs :: u64
  it_sentTimes :: u8

type_synonym 'p rb_slots = "'p rb_item option list"

record 'p retransmission_buffer =
  rb_buffer :: "'p rb_slots"
  rb_maxItems :: u16
  rb_maxRetransmissionDelayMs :: u32
  rb_clockRate :: u32

definition Item_new :: "'p rb_item" where
  "Item_new = \<lparr>it_packet = None, it_ssrc = 0, it_sequenceNumber = 0, it_timestamp = 0,
     it_resentAtMs = 0, it_sentTimes = 0\<rparr>"

definition RetransmissionBuffer_new :: "u16 \<Rightarrow> u32 \<Rightarrow> u32 \<Rightarrow> 'p retransmission_buffer option" where
  "RetransmissionBuffer_new maxItems maxDelayMs clockRate =
     (if maxItems > 0
      then Some \<lparr>rb_buffer = [], rb_maxItems = maxItems,
             rb_maxRetransmissionDelayMs = maxDelayMs, rb_clockRate = clockRate\<rparr>
      else None)"

definition GetOldest :: "'p rb_slots \<Rightarrow> 'p rb_item option" where
  "GetOldest buf = (if buf = [] then None else hd buf)"

definition GetNewest :: "'p rb_slots \<Rightarrow> 'p rb_item option" where
  "GetNewest buf = (if buf = [] then None else last buf)"

definition RetransmissionBuffer_Get :: "u16 \<Rightarrow> 'p rb_slots \<Rightarrow> 'p rb_item option" where
  "RetransmissionBuffer_Get seq buf =
     (case GetOldest buf of
        None \<Rightarrow> None
      | Some oldestItem \<Rightarrow>
          if SeqLowerThan 0 seq (it_sequenceNumber oldestItem) then None
          else
            let idx = seq - it_sequenceNumber oldestItem
            in if idx > (of_nat (length buf - 1) :: u16) then None else buf ! unat idx)"

text \<open>\<^verbatim>\<open>FillItem\<close> also sets the shared packet when it is still empty.\<close>

definition FillItem ::
  "'p rb_item \<Rightarrow> 'p media_packet \<Rightarrow> 'p option \<Rightarrow> 'p rb_item \<times> 'p option" where
  "FillItem item packet sharedPacket =
     (let shared' = (case sharedPacket of None \<Rightarrow> Some (mp_clone packet) | Some sp \<Rightarrow> Some sp)
      in (item\<lparr>it_packet := shared', it_ssrc := rp_ssrc packet,
            it_sequenceNumber := rp_sequenceNumber packet,
            it_timestamp := rp_timestamp packet\<rparr>, shared'))"

definition RemoveOldest :: "'p rb_slots \<Rightarrow> 'p rb_slots option" where
  "RemoveOldest buf =
     (case buf of
        [] \<Rightarrow> Some []
      | None # rest \<Rightarrow> None
      | Some item # rest \<Rightarrow> Some (dropWhile (\<lambda>slot. slot = None) rest))"

lemma RemoveOldest_shorter:
  "RemoveOldest buf = Some buf' \<Longrightarrow> buf \<noteq> [] \<Longrightarrow> length buf' < length buf"
  by (auto simp: RemoveOldest_def le_imp_less_Suc length_dropWhile_le split: list.splits option.splits)

function RemoveOldest_until :: "nat \<Rightarrow> 'p rb_slots \<Rightarrow> 'p rb_slots option" where
  "RemoveOldest_until intendedBufferSize buf =
     (if length buf > intendedBufferSize
      then (case RemoveOldest buf of
              None \<Rightarrow> None
            | Some buf' \<Rightarrow> RemoveOldest_until intendedBufferSize buf')
      else Some buf)"
  by pat_completeness auto
termination
  by (relation "measure (\<lambda>(n, buf). length buf)") (auto dest: RemoveOldest_shorter)

declare RemoveOldest_until.simps [simp del]

definition RemoveOldest_items :: "u16 \<Rightarrow> 'p rb_slots \<Rightarrow> 'p rb_slots option" where
  "RemoveOldest_items numItems buf =
     (if unat numItems \<le> length buf then RemoveOldest_until (length buf - unat numItems) buf
      else None)"

text \<open>\<open>None\<close> when the clock rate is zero and the code would divide by it.\<close>

definition IsTooOldTimestamp :: "'p retransmission_buffer \<Rightarrow> u32 \<Rightarrow> u32 \<Rightarrow> bool option" where
  "IsTooOldTimestamp b timestamp newestTimestamp =
     (if SeqHigherThan 0 timestamp newestTimestamp then Some False
      else if rb_clockRate b = 0 then None
      else
        let diffTs = unat (newestTimestamp - timestamp)
        in Some ((of_nat (diffTs * 1000 div unat (rb_clockRate b)) :: u32)
                   > rb_maxRetransmissionDelayMs b))"

text \<open>The loop of \<^verbatim>\<open>ClearTooOldByTimestamp\<close>; the flag says whether an item was removed.\<close>

function ClearTooOldByTimestamp ::
  "'p retransmission_buffer \<Rightarrow> u32 \<Rightarrow> 'p rb_slots \<Rightarrow> bool \<Rightarrow> ('p rb_slots \<times> bool) option" where
  "ClearTooOldByTimestamp b newestTimestamp buf itemsRemoved =
     (case GetOldest buf of
        None \<Rightarrow> Some (buf, itemsRemoved)
      | Some oldestItem \<Rightarrow>
          (case IsTooOldTimestamp b (it_timestamp oldestItem) newestTimestamp of
             None \<Rightarrow> None
           | Some True \<Rightarrow>
               (case RemoveOldest buf of
                  None \<Rightarrow> None
                | Some buf' \<Rightarrow> ClearTooOldByTimestamp b newestTimestamp buf' True)
           | Some False \<Rightarrow> Some (buf, itemsRemoved)))"
  by pat_completeness auto
termination
proof (relation "measure (\<lambda>(b, ts, buf, r). length buf)", goal_cases)
  case 1
  show ?case by simp
next
  case (2 b newestTimestamp buf itemsRemoved oldestItem tooOld buf')
  then show ?case
    by (auto simp: GetOldest_def dest: RemoveOldest_shorter split: if_splits)
qed

declare ClearTooOldByTimestamp.simps [simp del]

text \<open>The deque with the packet as its only item.\<close>

definition single_item :: "'p media_packet \<Rightarrow> 'p option \<Rightarrow> 'p rb_slots \<times> 'p option" where
  "single_item packet sharedPacket =
     (let (item, shared') = FillItem Item_new packet sharedPacket in ([Some item], shared'))"

text \<open>\<^verbatim>\<open>Insert\<close>, first branch: the packet is newer than the newest one.\<close>

definition Insert_newest ::
  "'p retransmission_buffer \<Rightarrow> 'p media_packet \<Rightarrow> 'p option \<Rightarrow> 'p rb_slots \<Rightarrow> 'p rb_item
     \<Rightarrow> ('p rb_slots \<times> 'p option) option" where
  "Insert_newest b packet sharedPacket buf newestItem =
     (let seq = rp_sequenceNumber packet; timestamp = rp_timestamp packet in
      if SeqLowerThan 0 timestamp (it_timestamp newestItem) then Some (buf, sharedPacket)
      else
        let numBlankSlots = unat (seq - it_sequenceNumber newestItem - 1);
            maxItems = unat (rb_maxItems b);
            (item, shared') = FillItem Item_new packet sharedPacket;
            prepared =
              (if length buf + numBlankSlots + 1 > maxItems
               then
                 let numItemsToRemove = (of_nat (length buf + numBlankSlots + 1 - maxItems) :: u16)
                 in if unat numItemsToRemove > length buf - 1 then Some ([], 0)
                    else (case RemoveOldest_items numItemsToRemove buf of
                            None \<Rightarrow> None
                          | Some buf' \<Rightarrow> Some (buf', numBlankSlots))
               else Some (buf, numBlankSlots))
        in case prepared of
             None \<Rightarrow> None
           | Some (buf', blanks) \<Rightarrow>
               let buf'' = buf' @ replicate blanks None @ [Some item]
               in if length buf'' \<le> maxItems then Some (buf'', shared') else None)"

text \<open>\<^verbatim>\<open>Insert\<close>, second branch: the packet is older than the oldest one.\<close>

definition Insert_oldest ::
  "'p retransmission_buffer \<Rightarrow> 'p media_packet \<Rightarrow> 'p option \<Rightarrow> 'p rb_slots \<Rightarrow> 'p rb_item \<Rightarrow> 'p rb_item
     \<Rightarrow> ('p rb_slots \<times> 'p option) option" where
  "Insert_oldest b packet sharedPacket buf oldestItem newestItem =
     (let seq = rp_sequenceNumber packet; timestamp = rp_timestamp packet in
      case IsTooOldTimestamp b timestamp (it_timestamp newestItem) of
        None \<Rightarrow> None
      | Some True \<Rightarrow> Some (buf, sharedPacket)
      | Some False \<Rightarrow>
          if SeqHigherThan 0 timestamp (it_timestamp oldestItem) then Some (buf, sharedPacket)
          else
            let numBlankSlots = unat (it_sequenceNumber oldestItem - seq - 1);
                maxItems = unat (rb_maxItems b)
            in if length buf + numBlankSlots + 1 > maxItems then Some (buf, sharedPacket)
               else
                 let (item, shared') = FillItem Item_new packet sharedPacket;
                     buf' = Some item # replicate numBlankSlots None @ buf
                 in if length buf' \<le> maxItems then Some (buf', shared') else None)"

text \<open>
  The two validation loops of the third branch: the nearest stored item decides, and with
  no stored item the packet fits.
\<close>

fun fits_older :: "u32 \<Rightarrow> 'p rb_slots \<Rightarrow> bool" where
  "fits_older timestamp [] = True"
| "fits_older timestamp (None # slots) = fits_older timestamp slots"
| "fits_older timestamp (Some olderItem # slots) = (timestamp \<ge> it_timestamp olderItem)"

fun fits_newer :: "u32 \<Rightarrow> 'p rb_slots \<Rightarrow> bool" where
  "fits_newer timestamp [] = True"
| "fits_newer timestamp (None # slots) = fits_newer timestamp slots"
| "fits_newer timestamp (Some newerItem # slots) = (timestamp \<le> it_timestamp newerItem)"

text \<open>\<^verbatim>\<open>Insert\<close>, third branch: the packet goes between the oldest and the newest one.\<close>

definition Insert_between ::
  "'p retransmission_buffer \<Rightarrow> 'p media_packet \<Rightarrow> 'p option \<Rightarrow> 'p rb_slots \<Rightarrow> 'p rb_item
     \<Rightarrow> ('p rb_slots \<times> 'p option) option" where
  "Insert_between b packet sharedPacket buf oldestItem =
     (let seq = rp_sequenceNumber packet; timestamp = rp_timestamp packet in
      case RetransmissionBuffer_Get seq buf of
        Some item \<Rightarrow> Some (buf, sharedPacket)
      | None \<Rightarrow>
          let idx = unat (seq - it_sequenceNumber oldestItem)
          in if idx > length buf then None
             else if \<not> fits_older timestamp (rev (take idx buf)) then Some (buf, sharedPacket)
             else if \<not> fits_newer timestamp (drop (idx + 1) buf) then Some (buf, sharedPacket)
             else if idx = length buf then None
             else
               let (item, shared') = FillItem Item_new packet sharedPacket;
                   buf' = buf[idx := Some item]
               in if length buf' \<le> unat (rb_maxItems b) then Some (buf', shared') else None)"

definition Insert_slots ::
  "'p retransmission_buffer \<Rightarrow> 'p media_packet \<Rightarrow> 'p option \<Rightarrow> 'p rb_slots
     \<Rightarrow> ('p rb_slots \<times> 'p option) option" where
  "Insert_slots b packet sharedPacket buf =
     (if buf = [] then Some (single_item packet sharedPacket)
      else case GetNewest buf of
        None \<Rightarrow> None
      | Some newestItem \<Rightarrow>
          if SeqLowerThan 0 (rp_sequenceNumber packet) (it_sequenceNumber newestItem) \<and>
             SeqHigherThan 0 (rp_timestamp packet) (it_timestamp newestItem)
          then Some (single_item packet sharedPacket)
          else
            let newestTimestamp =
                  (if SeqHigherThan 0 (rp_timestamp packet) (it_timestamp newestItem)
                   then rp_timestamp packet else it_timestamp newestItem)
            in case ClearTooOldByTimestamp b newestTimestamp buf False of
                 None \<Rightarrow> None
               | Some (buf', itemsRemoved) \<Rightarrow>
                   if itemsRemoved \<and> buf' = [] then Some (single_item packet sharedPacket)
                   else (case (GetOldest buf', GetNewest buf') of
                           (Some oldestItem', Some newestItem') \<Rightarrow>
                             if SeqHigherThan 0 (rp_sequenceNumber packet) (it_sequenceNumber newestItem')
                             then Insert_newest b packet sharedPacket buf' newestItem'
                             else if SeqLowerThan 0 (rp_sequenceNumber packet) (it_sequenceNumber oldestItem')
                             then Insert_oldest b packet sharedPacket buf' oldestItem' newestItem'
                             else Insert_between b packet sharedPacket buf' oldestItem'
                         | _ \<Rightarrow> None))"

definition RetransmissionBuffer_Insert ::
  "'p retransmission_buffer \<Rightarrow> 'p media_packet \<Rightarrow> 'p option
     \<Rightarrow> ('p retransmission_buffer \<times> 'p option) option" where
  "RetransmissionBuffer_Insert b packet sharedPacket =
     (case Insert_slots b packet sharedPacket (rb_buffer b) of
        None \<Rightarrow> None
      | Some (buf, shared') \<Rightarrow> Some (b\<lparr>rb_buffer := buf\<rparr>, shared'))"

definition RetransmissionBuffer_Clear :: "'p retransmission_buffer \<Rightarrow> 'p retransmission_buffer" where
  "RetransmissionBuffer_Clear b = b\<lparr>rb_buffer := []\<rparr>"

section \<open>Wrapping distances of 16-bit numbers\<close>

lemma SeqLowerThan_full:
  fixes a b :: "'a::len word"
  shows "SeqLowerThan 0 a b \<longleftrightarrow> 0 < unat (b - a) \<and>
    (unat (b - a) < 2 ^ (LENGTH('a) - 1) \<or> unat (b - a) = 2 ^ (LENGTH('a) - 1) \<and> b < a)"
  using SeqLowerThan_off [of 0 a b] by (simp add: seq_off_def MaxValue_def seq_half_def seq_bits_def)

lemma seq_asym: "SeqLowerThan 0 a b \<Longrightarrow> \<not> SeqLowerThan 0 b a"
  using seq_trichotomy [of 0 a b] by (cases "a = b") auto

lemma seq_not_lowerD: "\<not> SeqLowerThan 0 a b \<Longrightarrow> a = b \<or> SeqLowerThan 0 b a"
  using seq_trichotomy [of 0 a b] by auto

lemma seq16_near_not_lower:
  fixes x b :: u16
  assumes "unat (x - b) < 2 ^ 15"
  shows "\<not> SeqLowerThan 0 x b"
proof (cases "x = b")
  case True
  then show ?thesis by simp
next
  case False
  then have "unat (x - b) \<noteq> 0" by (simp add: unat_eq_0)
  with assms have "SeqLowerThan 0 b x" by (simp add: SeqLowerThan_full)
  then show ?thesis by (rule seq_asym)
qed

lemma unat_shift_back:
  fixes s b :: u16
  assumes "k < 2 ^ 16" and "k < unat (s - b)"
  shows "unat (b + of_nat k - s) = 2 ^ 16 - (unat (s - b) - k)"
proof -
  have "b + of_nat k - s = of_nat k - (s - b)" by simp
  moreover have "unat (of_nat k :: u16) = k" using assms(1) by (simp add: unat_of_nat_less)
  then have "unat (of_nat k - (s - b)) = 2 ^ 16 - (unat (s - b) - k)"
    using unat_sub_wrap [of "of_nat k :: u16" "s - b"] assms(2) by simp
  ultimately show ?thesis by (simp only:)
qed

lemma seq16_between:
  fixes s b :: u16
  assumes k: "k < 2 ^ 15" and lo: "\<not> SeqLowerThan 0 s b" and hi: "\<not> SeqHigherThan 0 s (b + of_nat k)"
  shows "unat (s - b) \<le> k"
proof (rule ccontr)
  let ?n = "b + of_nat k"
  assume "\<not> unat (s - b) \<le> k"
  then have d: "k < unat (s - b)" by simp
  then have "s \<noteq> b" by auto
  with seq_not_lowerD [OF lo] have bs: "SeqLowerThan 0 b s" by auto
  then have d2: "unat (s - b) \<le> 2 ^ 15" by (auto simp: SeqLowerThan_full)
  have e: "unat (?n - s) = 2 ^ 16 - (unat (s - b) - k)" using d k by (intro unat_shift_back) auto
  then have "?n \<noteq> s" using d2 by auto
  with hi seq_not_lowerD have sn: "SeqLowerThan 0 s ?n" by (auto simp: SeqHigherThan_flip)
  then have "unat (?n - s) \<le> 2 ^ 15" by (auto simp: SeqLowerThan_full)
  with e d2 have "k = 0" by simp
  with sn have "SeqLowerThan 0 s b" by simp
  with lo show False ..
qed

lemma unat_minus_one:
  fixes x :: u16
  shows "0 < unat x \<Longrightarrow> unat (x - 1) = unat x - 1"
  by (simp add: unat_sub_wrap)

section \<open>Well-formed buffers\<close>

text \<open>Slot \<open>i\<close> belongs to sequence number \<open>s + i\<close>; both ends hold an item.\<close>

fun slots_from :: "u16 \<Rightarrow> 'p rb_slots \<Rightarrow> bool" where
  "slots_from s [] = True"
| "slots_from s (None # slots) = slots_from (s + 1) slots"
| "slots_from s (Some item # slots) = (it_sequenceNumber item = s \<and> slots_from (s + 1) slots)"

definition first_seq :: "'p rb_slots \<Rightarrow> u16" where
  "first_seq buf = it_sequenceNumber (the (hd buf))"

definition rb_wf :: "'p rb_slots \<Rightarrow> bool" where
  "rb_wf buf \<longleftrightarrow>
     (buf \<noteq> [] \<longrightarrow> hd buf \<noteq> None \<and> last buf \<noteq> None \<and> slots_from (first_seq buf) buf)"

definition rb_inv :: "'p retransmission_buffer \<Rightarrow> bool" where
  "rb_inv b \<longleftrightarrow>
     rb_clockRate b \<noteq> 0 \<and> 0 < rb_maxItems b \<and> unat (rb_maxItems b) \<le> 2 ^ 15 \<and>
     rb_wf (rb_buffer b) \<and> length (rb_buffer b) \<le> unat (rb_maxItems b)"

lemma rb_wf_Nil [simp]: "rb_wf []"
  by (simp add: rb_wf_def)

lemma slots_from_append:
  "slots_from s (xs @ ys) \<longleftrightarrow> slots_from s xs \<and> slots_from (s + of_nat (length xs)) ys"
  by (induction s xs rule: slots_from.induct) (auto simp: algebra_simps)

lemma slots_from_replicate [simp]: "slots_from s (replicate n None)"
  by (induction n arbitrary: s) auto

lemma slots_from_nth:
  "slots_from s buf \<Longrightarrow> i < length buf \<Longrightarrow> buf ! i = Some item \<Longrightarrow> it_sequenceNumber item = s + of_nat i"
proof (induction s buf arbitrary: i rule: slots_from.induct)
  case (1 s)
  then show ?case by simp
next
  case (2 s slots)
  then show ?case by (cases i) (auto simp: algebra_simps)
next
  case (3 s it slots)
  then show ?case by (cases i) (auto simp: algebra_simps)
qed

lemma slots_from_update:
  assumes "slots_from s buf" and "i < length buf" and "it_sequenceNumber item = s + of_nat i"
  shows "slots_from s (buf[i := Some item])"
proof -
  have "buf = take i buf @ buf ! i # drop (Suc i) buf" using assms(2) by (rule id_take_nth_drop)
  then have "slots_from s (take i buf @ buf ! i # drop (Suc i) buf)" using assms(1) by simp
  then have "slots_from s (take i buf)" "slots_from (s + of_nat i + 1) (drop (Suc i) buf)"
    using assms(2) by (cases "buf ! i"; simp add: slots_from_append)+
  then show ?thesis
    using assms(2,3) by (simp add: upd_conv_take_nth_drop slots_from_append)
qed

lemma rb_wf_obtain:
  assumes "rb_wf buf" and "buf \<noteq> []"
  obtains oldest newest where "GetOldest buf = Some oldest" and "GetNewest buf = Some newest"
    and "hd buf = Some oldest" and "last buf = Some newest"
    and "it_sequenceNumber oldest = first_seq buf"
    and "it_sequenceNumber newest = first_seq buf + of_nat (length buf - 1)"
proof -
  from assms obtain oldest newest where o: "hd buf = Some oldest" and n: "last buf = Some newest"
    and s: "slots_from (first_seq buf) buf"
    by (auto simp: rb_wf_def)
  from n assms(2) have "buf ! (length buf - 1) = Some newest" by (simp add: last_conv_nth)
  with s assms(2) have "it_sequenceNumber newest = first_seq buf + of_nat (length buf - 1)"
    by (intro slots_from_nth) auto
  with o n assms(2) show ?thesis
    by (intro that [of oldest newest]) (auto simp: GetOldest_def GetNewest_def first_seq_def)
qed

lemma rb_wf_drop:
  assumes wf: "rb_wf buf" and i: "i < length buf" and h: "buf ! i \<noteq> None"
  shows "rb_wf (drop i buf)" and "first_seq (drop i buf) = first_seq buf + of_nat i"
proof -
  from i have ne: "buf \<noteq> []" "drop i buf \<noteq> []" by auto
  with wf have s: "slots_from (first_seq buf) buf" and l: "last buf \<noteq> None"
    by (auto simp: rb_wf_def)
  from s have "slots_from (first_seq buf) (take i buf @ drop i buf)" by simp
  with i have sd: "slots_from (first_seq buf + of_nat i) (drop i buf)"
    unfolding slots_from_append by simp
  from h obtain item where it: "buf ! i = Some item" by auto
  with s i have "it_sequenceNumber item = first_seq buf + of_nat i" by (intro slots_from_nth)
  with it i show fs: "first_seq (drop i buf) = first_seq buf + of_nat i"
    by (simp add: first_seq_def hd_drop_conv_nth)
  show "rb_wf (drop i buf)"
    using ne i h l sd by (simp add: rb_wf_def fs hd_drop_conv_nth last_drop)
qed

lemma rb_wf_drop_any:
  assumes "rb_wf buf" and "drop i buf \<noteq> [] \<longrightarrow> hd (drop i buf) \<noteq> None"
  shows "rb_wf (drop i buf)"
  using assms rb_wf_drop(1) [of buf i] by (cases "i < length buf") (auto simp: hd_drop_conv_nth)

lemma rb_wf_single: "rb_wf [Some item]"
  by (simp add: rb_wf_def first_seq_def)

lemma rb_wf_snoc:
  assumes wf: "rb_wf buf" and ne: "buf \<noteq> []"
    and sq: "it_sequenceNumber item = first_seq buf + of_nat (length buf + n)"
  shows "rb_wf (buf @ replicate n None @ [Some item])"
proof -
  from wf ne have "hd buf \<noteq> None" "slots_from (first_seq buf) buf" by (auto simp: rb_wf_def)
  moreover have "first_seq (buf @ replicate n None @ [Some item]) = first_seq buf"
    using ne by (simp add: first_seq_def)
  ultimately show ?thesis
    using ne sq by (simp add: rb_wf_def slots_from_append algebra_simps)
qed

lemma rb_wf_cons:
  assumes wf: "rb_wf buf" and ne: "buf \<noteq> []"
    and sq: "first_seq buf = it_sequenceNumber item + of_nat (n + 1)"
  shows "rb_wf (Some item # replicate n None @ buf)"
proof -
  from wf ne have "last buf \<noteq> None" "slots_from (first_seq buf) buf" by (auto simp: rb_wf_def)
  then show ?thesis
    using ne sq by (simp add: rb_wf_def first_seq_def slots_from_append algebra_simps)
qed

section \<open>Removal from the front\<close>

lemma RemoveOldest_wf:
  assumes wf: "rb_wf buf" and ne: "buf \<noteq> []"
  shows "\<exists>n > 0. RemoveOldest buf = Some (drop n buf) \<and> rb_wf (drop n buf)
    \<and> (1 < length buf \<longrightarrow> drop n buf \<noteq> [])"
proof -
  from wf ne obtain item rest where buf: "buf = Some item # rest"
    by (cases buf) (auto simp: rb_wf_def)
  let ?k = "length (takeWhile (\<lambda>slot. slot = None) rest)"
  have r: "RemoveOldest buf = Some (drop (Suc ?k) buf)"
    by (simp add: RemoveOldest_def buf)
  have "drop (Suc ?k) buf \<noteq> [] \<longrightarrow> hd (drop (Suc ?k) buf) \<noteq> None"
    using hd_dropWhile [of "\<lambda>slot. slot = None" rest] by (simp add: buf)
  with wf have w: "rb_wf (drop (Suc ?k) buf)" by (rule rb_wf_drop_any)
  have "1 < length buf \<longrightarrow> drop (Suc ?k) buf \<noteq> []"
  proof
    assume "1 < length buf"
    then have "rest \<noteq> []" by (auto simp: buf)
    moreover from this wf have "last rest \<noteq> None" by (simp add: rb_wf_def buf)
    ultimately have "last rest \<in> set rest" "last rest \<noteq> None" by auto
    then show "drop (Suc ?k) buf \<noteq> []" by (auto simp: buf dropWhile_eq_Nil_conv)
  qed
  with r w show ?thesis by (intro exI [of _ "Suc ?k"]) simp
qed

lemma RemoveOldest_until_wf:
  assumes "rb_wf buf" and "0 < m"
  shows "\<exists>n. RemoveOldest_until m buf = Some (drop n buf) \<and> rb_wf (drop n buf)
    \<and> length (drop n buf) \<le> m \<and> (buf \<noteq> [] \<longrightarrow> drop n buf \<noteq> [])"
  using assms
proof (induction m buf rule: RemoveOldest_until.induct)
  case (1 m buf)
  show ?case
  proof (cases "length buf > m")
    case False
    then show ?thesis
      using "1.prems" by (intro exI [of _ 0]) (simp add: RemoveOldest_until.simps [of m buf])
  next
    case True
    then have ne: "buf \<noteq> []" by auto
    from RemoveOldest_wf [OF "1.prems"(1) ne] obtain n where
      n: "RemoveOldest buf = Some (drop n buf)" "rb_wf (drop n buf)" "drop n buf \<noteq> []"
      using True "1.prems"(2) by auto
    from "1.IH" [OF True n(1) n(2) "1.prems"(2)] obtain k where
      k: "RemoveOldest_until m (drop n buf) = Some (drop k (drop n buf))"
        "rb_wf (drop k (drop n buf))" "length (drop k (drop n buf)) \<le> m" "drop k (drop n buf) \<noteq> []"
      using n(3) by blast
    have "RemoveOldest_until m buf = Some (drop (k + n) buf)"
      using True n(1) k(1) by (simp add: RemoveOldest_until.simps [of m buf] add.commute)
    with k(2-4) show ?thesis by (intro exI [of _ "k + n"]) (simp add: add.commute)
  qed
qed

lemma IsTooOldTimestamp_total:
  "rb_clockRate b \<noteq> 0 \<Longrightarrow> \<exists>r. IsTooOldTimestamp b ts newest = Some r"
  by (auto simp: IsTooOldTimestamp_def Let_def)

lemma ClearTooOld_wf:
  assumes "rb_clockRate b \<noteq> 0" and "rb_wf buf"
  shows "\<exists>n r'. ClearTooOldByTimestamp b ts buf r = Some (drop n buf, r')
    \<and> rb_wf (drop n buf) \<and> (r \<longrightarrow> r') \<and> (\<not> r' \<longrightarrow> drop n buf = buf)
    \<and> (\<forall>oldest. GetOldest (drop n buf) = Some oldest
          \<longrightarrow> IsTooOldTimestamp b (it_timestamp oldest) ts = Some False)"
  using assms
proof (induction b ts buf r rule: ClearTooOldByTimestamp.induct)
  case (1 b ts buf r)
  show ?case
  proof (cases "buf = []")
    case True
    then show ?thesis
      by (intro exI [of _ 0] exI [of _ r])
         (simp add: ClearTooOldByTimestamp.simps [of b ts "[]" r] GetOldest_def)
  next
    case ne: False
    obtain oldest newest where o: "GetOldest buf = Some oldest"
      using rb_wf_obtain [OF "1.prems"(2) ne] by metis
    obtain old where old: "IsTooOldTimestamp b (it_timestamp oldest) ts = Some old"
      using IsTooOldTimestamp_total [OF "1.prems"(1)] by blast
    show ?thesis
    proof (cases old)
      case False
      with o old show ?thesis
        using "1.prems"(2) by (intro exI [of _ 0] exI [of _ r])
          (simp add: ClearTooOldByTimestamp.simps [of b ts buf r])
    next
      case True
      from RemoveOldest_wf [OF "1.prems"(2) ne] obtain n where
        n: "RemoveOldest buf = Some (drop n buf)" "rb_wf (drop n buf)" by blast
      note IH = "1.IH" [OF o old _ n(1) "1.prems"(1) n(2)]
      from True IH obtain k r' where
        k: "ClearTooOldByTimestamp b ts (drop n buf) True = Some (drop k (drop n buf), r')"
          "rb_wf (drop k (drop n buf))" r'
          "\<forall>oldest. GetOldest (drop k (drop n buf)) = Some oldest
             \<longrightarrow> IsTooOldTimestamp b (it_timestamp oldest) ts = Some False"
        by blast
      have "ClearTooOldByTimestamp b ts buf r = Some (drop (k + n) buf, r')"
        using o old True n(1) k(1)
        by (simp add: ClearTooOldByTimestamp.simps [of b ts buf r] add.commute)
      with k(2-4) show ?thesis
        by (intro exI [of _ "k + n"] exI [of _ r']) (simp add: add.commute)
    qed
  qed
qed

lemma IsTooOldTimestamp_True:
  assumes "rb_clockRate b \<noteq> 0"
  shows "IsTooOldTimestamp b t ts = Some True \<longleftrightarrow> \<not> SeqHigherThan 0 t ts
    \<and> unat (rb_maxRetransmissionDelayMs b) < unat (ts - t) * 1000 div unat (rb_clockRate b) mod 2 ^ 32"
  using assms by (simp add: IsTooOldTimestamp_def Let_def word_less_nat_alt unat_of_nat)

lemma IsTooOldTimestamp_False:
  assumes "rb_clockRate b \<noteq> 0"
  shows "IsTooOldTimestamp b t ts = Some False \<longleftrightarrow> SeqHigherThan 0 t ts
    \<or> unat (ts - t) * 1000 div unat (rb_clockRate b) mod 2 ^ 32 \<le> unat (rb_maxRetransmissionDelayMs b)"
  using IsTooOldTimestamp_total [OF assms, of t ts] IsTooOldTimestamp_True [OF assms, of t ts]
  by (auto simp: not_less)

lemma RemoveOldest_set:
  "RemoveOldest buf = Some buf' \<Longrightarrow> Some item \<in> set buf \<Longrightarrow> Some item \<in> set buf' \<or> hd buf = Some item"
proof -
  have "Some x \<in> set xs \<Longrightarrow> Some x \<in> set (dropWhile (\<lambda>s. s = None) xs)" for x :: "'a rb_item" and xs
    by (induction xs) auto
  then show "RemoveOldest buf = Some buf' \<Longrightarrow> Some item \<in> set buf \<Longrightarrow> ?thesis"
    by (auto simp: RemoveOldest_def split: list.splits option.splits)
qed

lemma ClearTooOld_removed:
  "ClearTooOldByTimestamp b ts buf r = Some (buf', r') \<Longrightarrow>
   \<forall>item. Some item \<in> set buf \<and> Some item \<notin> set buf'
     \<longrightarrow> IsTooOldTimestamp b (it_timestamp item) ts = Some True"
proof (induction b ts buf r rule: ClearTooOldByTimestamp.induct)
  case (1 b ts buf r)
  show ?case
  proof (cases "GetOldest buf")
    case None
    with "1.prems" show ?thesis by (simp add: ClearTooOldByTimestamp.simps [of b ts buf r])
  next
    case (Some oldest)
    show ?thesis
    proof (cases "IsTooOldTimestamp b (it_timestamp oldest) ts = Some True")
      case False
      with Some "1.prems" show ?thesis
        by (auto simp: ClearTooOldByTimestamp.simps [of b ts buf r] split: option.splits bool.splits)
    next
      case True
      with Some "1.prems" obtain mid where
        m: "RemoveOldest buf = Some mid" "ClearTooOldByTimestamp b ts mid True = Some (buf', r')"
        by (auto simp: ClearTooOldByTimestamp.simps [of b ts buf r] split: option.splits)
      have "hd buf = Some oldest" using Some by (auto simp: GetOldest_def split: if_splits)
      with "1.IH" [OF Some True _ m(1) m(2)] True RemoveOldest_set [OF m(1)] show ?thesis by auto
    qed
  qed
qed

section \<open>Insertion\<close>

definition stored_item :: "'p media_packet \<Rightarrow> 'p option \<Rightarrow> 'p rb_item" where
  "stored_item packet sharedPacket = fst (FillItem Item_new packet sharedPacket)"

definition insert_ok ::
  "'p retransmission_buffer \<Rightarrow> 'p media_packet \<Rightarrow> 'p option \<Rightarrow> 'p rb_slots \<Rightarrow> 'p rb_slots \<Rightarrow> bool" where
  "insert_ok b packet sharedPacket buf buf' \<longleftrightarrow>
     rb_wf buf' \<and> length buf' \<le> unat (rb_maxItems b) \<and>
     (\<forall>item. Some item \<in> set buf' \<longrightarrow> Some item \<in> set buf \<or> item = stored_item packet sharedPacket)"

lemma stored_item_seq [simp]: "it_sequenceNumber (stored_item p sh) = rp_sequenceNumber p"
  by (simp add: stored_item_def FillItem_def Let_def)

definition shared_after :: "'p media_packet \<Rightarrow> 'p option \<Rightarrow> 'p option" where
  "shared_after packet sharedPacket = (case sharedPacket of None \<Rightarrow> Some (mp_clone packet) | Some sp \<Rightarrow> Some sp)"

lemma FillItem_pair: "FillItem Item_new p sh = (stored_item p sh, shared_after p sh)"
  by (simp add: stored_item_def shared_after_def FillItem_def Let_def)

lemma insert_ok_refl: "rb_wf buf \<Longrightarrow> length buf \<le> unat (rb_maxItems b) \<Longrightarrow> insert_ok b p sh buf buf"
  by (simp add: insert_ok_def)

lemma insert_ok_single: "0 < rb_maxItems b \<Longrightarrow> insert_ok b p sh buf [Some (stored_item p sh)]"
  by (simp add: insert_ok_def rb_wf_single word_less_nat_alt)

lemma insert_ok_mono:
  "insert_ok b p sh (drop n buf) buf' \<Longrightarrow> insert_ok b p sh buf buf'"
  by (auto simp: insert_ok_def dest: in_set_dropD)

lemma single_item_eq: "single_item p sh = ([Some (stored_item p sh)], shared_after p sh)"
  by (simp add: single_item_def FillItem_pair)

lemma numItemsToRemove_exact:
  fixes seq newest :: u16
  assumes "SeqHigherThan 0 seq newest" and "l \<le> m" and "l + unat (seq - newest - 1) + 1 > m"
  shows "unat (of_nat (l + unat (seq - newest - 1) + 1 - m) :: u16) = l + unat (seq - newest - 1) + 1 - m"
proof -
  from assms(1) have "0 < unat (seq - newest)" "unat (seq - newest) \<le> 2 ^ 15"
    by (auto simp: SeqHigherThan_flip SeqLowerThan_full)
  then have "unat (seq - newest - 1) < 2 ^ 15" by (simp add: unat_minus_one)
  with assms(2,3) show ?thesis by (intro unat_of_nat_less) simp
qed

lemma Insert_newest_eq:
  assumes "k = unat (rp_sequenceNumber p - it_sequenceNumber newest - 1)"
    and "m = unat (rb_maxItems b)"
  shows "Insert_newest b p sh buf newest =
    (if SeqLowerThan 0 (rp_timestamp p) (it_timestamp newest) then Some (buf, sh)
     else
       case (if length buf + k + 1 > m
             then if unat (of_nat (length buf + k + 1 - m) :: u16) > length buf - 1 then Some ([], 0)
                  else (case RemoveOldest_items (of_nat (length buf + k + 1 - m)) buf of
                          None \<Rightarrow> None | Some buf' \<Rightarrow> Some (buf', k))
             else Some (buf, k)) of
         None \<Rightarrow> None
       | Some (buf', blanks) \<Rightarrow>
           (if length (buf' @ replicate blanks None @ [Some (stored_item p sh)]) \<le> m
            then Some (buf' @ replicate blanks None @ [Some (stored_item p sh)],
                       shared_after p sh)
            else None))"
  unfolding Insert_newest_def Let_def assms FillItem_pair prod.case by (rule refl)

lemma Insert_newest_ok:
  assumes wf: "rb_wf buf" and ne: "buf \<noteq> []" and len: "length buf \<le> unat (rb_maxItems b)"
    and n: "GetNewest buf = Some newest"
    and hi: "SeqHigherThan 0 (rp_sequenceNumber p) (it_sequenceNumber newest)"
  shows "\<exists>buf' sh'. Insert_newest b p sh buf newest = Some (buf', sh') \<and> insert_ok b p sh buf buf'
    \<and> (\<not> SeqLowerThan 0 (rp_timestamp p) (it_timestamp newest) \<longrightarrow> Some (stored_item p sh) \<in> set buf')"
proof (cases "SeqLowerThan 0 (rp_timestamp p) (it_timestamp newest)")
  case True
  then show ?thesis using wf len by (simp add: Insert_newest_def Let_def insert_ok_refl)
next
  case False
  define m where "m = unat (rb_maxItems b)"
  define k where "k = unat (rp_sequenceNumber p - it_sequenceNumber newest - 1)"
  define r where "r = length buf + k + 1 - m"
  let ?it = "Some (stored_item p sh)"
  note eq = Insert_newest_eq [OF k_def m_def, of sh buf, folded r_def]
  have lm: "length buf \<le> m" using len by (simp add: m_def)
  have m: "0 < m" using lm ne by (cases buf) auto
  obtain oldest newest' where "GetNewest buf = Some newest'"
    and "it_sequenceNumber newest' = first_seq buf + of_nat (length buf - 1)"
    using rb_wf_obtain [OF wf ne] by metis
  with n have sn: "it_sequenceNumber newest = first_seq buf + of_nat (length buf - 1)" by simp
  have "rp_sequenceNumber p = it_sequenceNumber newest + 1 + of_nat k" by (simp add: k_def)
  then have sp: "rp_sequenceNumber p = first_seq buf + of_nat (length buf + k)"
    using ne sn by (cases buf) simp_all
  show ?thesis
  proof (cases "length buf + k + 1 > m")
    case fits: False
    have "insert_ok b p sh buf (buf @ replicate k None @ [?it])"
      unfolding insert_ok_def m_def [symmetric]
      using rb_wf_snoc [OF wf ne, of "stored_item p sh" k] sp fits by auto
    then show ?thesis using False fits by (simp add: eq)
  next
    case over: True
    have ex: "unat (of_nat r :: u16) = r"
      using numItemsToRemove_exact [OF hi lm] over unfolding k_def [symmetric] r_def by blast
    show ?thesis
    proof (cases "r > length buf - 1")
      case True
      have "insert_ok b p sh buf [?it]" using m by (intro insert_ok_single) (simp add: word_less_nat_alt m_def)
      with True over ex False m show ?thesis by (simp add: eq)
    next
      case keep: False
      have "0 < length buf" using ne by simp
      with keep have le: "r \<le> length buf" and pos: "0 < length buf - r" by linarith+
      from RemoveOldest_until_wf [OF wf pos] ne obtain i where
        i: "RemoveOldest_until (length buf - r) buf = Some (drop i buf)" "rb_wf (drop i buf)"
          "length (drop i buf) \<le> length buf - r" "drop i buf \<noteq> []"
        by blast
      have ri: "RemoveOldest_items (of_nat r) buf = Some (drop i buf)"
        using i(1) le ex by (simp add: RemoveOldest_items_def)
      have il: "i < length buf" using i(4) by simp
      have "hd (drop i buf) \<noteq> None" using i(2,4) by (simp add: rb_wf_def)
      then have "first_seq (drop i buf) = first_seq buf + of_nat i"
        using rb_wf_drop(2) [OF wf il] il by (simp add: hd_drop_conv_nth)
      then have "rp_sequenceNumber p = first_seq (drop i buf) + of_nat (length (drop i buf) + k)"
        using sp il by simp
      then have w: "rb_wf (drop i buf @ replicate k None @ [?it])"
        using rb_wf_snoc [OF i(2,4), of "stored_item p sh" k] by simp
      have l: "length (drop i buf @ replicate k None @ [?it]) \<le> m"
        using i(3) over le by (simp add: r_def)
      have "insert_ok b p sh buf (drop i buf @ replicate k None @ [?it])"
        unfolding insert_ok_def m_def [symmetric] using w l by (auto dest: in_set_dropD)
      with False over ex keep ri l show ?thesis by (simp add: eq)
    qed
  qed
qed

lemma Insert_oldest_ok:
  assumes wf: "rb_wf buf" and ne: "buf \<noteq> []" and len: "length buf \<le> unat (rb_maxItems b)"
    and clk: "rb_clockRate b \<noteq> 0" and o: "GetOldest buf = Some oldest"
    and lo: "SeqLowerThan 0 (rp_sequenceNumber p) (it_sequenceNumber oldest)"
  shows "\<exists>buf' sh'. Insert_oldest b p sh buf oldest newest = Some (buf', sh')
    \<and> insert_ok b p sh buf buf'"
proof -
  define m where "m = unat (rb_maxItems b)"
  define k where "k = unat (it_sequenceNumber oldest - rp_sequenceNumber p - 1)"
  let ?it = "Some (stored_item p sh)"
  obtain old where old: "IsTooOldTimestamp b (rp_timestamp p) (it_timestamp newest) = Some old"
    using IsTooOldTimestamp_total [OF clk] by blast
  have same: "insert_ok b p sh buf buf" using wf len by (rule insert_ok_refl)
  have fs: "first_seq buf = it_sequenceNumber oldest"
    using rb_wf_obtain [OF wf ne] o by (metis option.inject)
  have "it_sequenceNumber oldest = rp_sequenceNumber p + of_nat (k + 1)" by (simp add: k_def)
  then have w: "rb_wf (?it # replicate k None @ buf)"
    using rb_wf_cons [OF wf ne, of "stored_item p sh" k] fs by simp
  have eq: "Insert_oldest b p sh buf oldest newest =
    (case Some old of None \<Rightarrow> None
     | Some True \<Rightarrow> Some (buf, sh)
     | Some False \<Rightarrow>
         if SeqHigherThan 0 (rp_timestamp p) (it_timestamp oldest) then Some (buf, sh)
         else if length buf + k + 1 > m then Some (buf, sh)
         else if length (?it # replicate k None @ buf) \<le> m
              then Some (?it # replicate k None @ buf, shared_after p sh) else None)"
    unfolding Insert_oldest_def Let_def old FillItem_pair prod.case k_def m_def by (rule refl)
  show ?thesis
  proof (cases "old \<or> SeqHigherThan 0 (rp_timestamp p) (it_timestamp oldest) \<or> length buf + k + 1 > m")
    case True
    then have "Insert_oldest b p sh buf oldest newest = Some (buf, sh)"
      unfolding eq by (cases old) auto
    with same show ?thesis by blast
  next
    case False
    then have "Insert_oldest b p sh buf oldest newest
        = Some (?it # replicate k None @ buf, shared_after p sh)"
      unfolding eq by simp
    moreover have "insert_ok b p sh buf (?it # replicate k None @ buf)"
      using w False by (auto simp: insert_ok_def m_def)
    ultimately show ?thesis by blast
  qed
qed

lemma Insert_between_ok:
  assumes wf: "rb_wf buf" and ne: "buf \<noteq> []" and len: "length buf \<le> unat (rb_maxItems b)"
    and mx: "unat (rb_maxItems b) \<le> 2 ^ 15" and o: "GetOldest buf = Some oldest" and n: "GetNewest buf = Some newest"
    and hi: "\<not> SeqHigherThan 0 (rp_sequenceNumber p) (it_sequenceNumber newest)"
    and lo: "\<not> SeqLowerThan 0 (rp_sequenceNumber p) (it_sequenceNumber oldest)"
  shows "\<exists>buf' sh'. Insert_between b p sh buf oldest = Some (buf', sh') \<and> insert_ok b p sh buf buf'"
proof -
  define idx where "idx = unat (rp_sequenceNumber p - it_sequenceNumber oldest)"
  let ?it = "Some (stored_item p sh)"
  from wf ne obtain oldest' newest' where on: "GetOldest buf = Some oldest'" "GetNewest buf = Some newest'"
    "hd buf = Some oldest'" "last buf = Some newest'" "it_sequenceNumber oldest' = first_seq buf"
    "it_sequenceNumber newest' = first_seq buf + of_nat (length buf - 1)"
    by (rule rb_wf_obtain)
  with o n have fs: "it_sequenceNumber oldest = first_seq buf"
    and ns: "it_sequenceNumber newest = it_sequenceNumber oldest + of_nat (length buf - 1)" by simp_all
  have "0 < length buf" using ne by simp
  with len mx have "length buf - 1 < 2 ^ 15" by linarith
  from seq16_between [OF this lo hi [unfolded ns]] have "idx \<le> length buf - 1"
    by (simp add: idx_def)
  with \<open>0 < length buf\<close> have idx: "idx < length buf" by linarith
  have same: "insert_ok b p sh buf buf" using wf len by (rule insert_ok_refl)
  have eq: "Insert_between b p sh buf oldest =
    (case RetransmissionBuffer_Get (rp_sequenceNumber p) buf of
       Some item \<Rightarrow> Some (buf, sh)
     | None \<Rightarrow>
         if idx > length buf then None
         else if \<not> fits_older (rp_timestamp p) (rev (take idx buf)) then Some (buf, sh)
         else if \<not> fits_newer (rp_timestamp p) (drop (idx + 1) buf) then Some (buf, sh)
         else if idx = length buf then None
         else if length (buf[idx := ?it]) \<le> unat (rb_maxItems b)
              then Some (buf[idx := ?it], shared_after p sh) else None)"
    unfolding Insert_between_def Let_def FillItem_pair prod.case idx_def by (rule refl)
  have "rp_sequenceNumber p = first_seq buf + of_nat idx" by (simp add: idx_def fs)
  moreover have s: "slots_from (first_seq buf) buf" using wf ne by (simp add: rb_wf_def)
  ultimately have su: "slots_from (first_seq buf) (buf[idx := ?it])"
    using idx by (intro slots_from_update) auto
  have hdu: "hd (buf[idx := ?it]) \<noteq> None"
    using on(3) ne by (cases buf; cases idx) auto
  have fsu: "first_seq (buf[idx := ?it]) = first_seq buf"
  proof (cases idx)
    case 0
    with \<open>rp_sequenceNumber p = first_seq buf + of_nat idx\<close> ne show ?thesis
      by (cases buf) (auto simp: first_seq_def)
  next
    case (Suc j)
    with ne show ?thesis by (cases buf) (auto simp: first_seq_def)
  qed
  have "last (buf[idx := ?it]) \<noteq> None"
    using on(4) ne by (simp add: last_list_update)
  then have "insert_ok b p sh buf (buf[idx := ?it])"
    using su hdu fsu len unfolding insert_ok_def rb_wf_def
    by (auto dest!: set_update_subset_insert [THEN subsetD])
  with same idx len show ?thesis unfolding eq by (auto split: option.split)
qed

lemma Insert_slots_ok:
  assumes clk: "rb_clockRate b \<noteq> 0" and m: "0 < rb_maxItems b" and mx: "unat (rb_maxItems b) \<le> 2 ^ 15"
    and wf: "rb_wf buf" and len: "length buf \<le> unat (rb_maxItems b)"
  shows "\<exists>buf' sh'. Insert_slots b p sh buf = Some (buf', sh') \<and> insert_ok b p sh buf buf'"
proof (cases "buf = []")
  case True
  with m show ?thesis by (auto simp: Insert_slots_def single_item_eq insert_ok_single)
next
  case ne: False
  have single: "insert_ok b p sh buf [Some (stored_item p sh)]" using m by (rule insert_ok_single)
  obtain newest where nw: "GetNewest buf = Some newest"
    using rb_wf_obtain [OF wf ne] by metis
  define ts where "ts = (if SeqHigherThan 0 (rp_timestamp p) (it_timestamp newest)
    then rp_timestamp p else it_timestamp newest)"
  obtain n r where c: "ClearTooOldByTimestamp b ts buf False = Some (drop n buf, r)"
    and wd: "rb_wf (drop n buf)" and nr: "\<not> r \<longrightarrow> drop n buf = buf"
    using ClearTooOld_wf [OF clk wf, of ts False] by blast
  show ?thesis
  proof (cases "SeqLowerThan 0 (rp_sequenceNumber p) (it_sequenceNumber newest) \<and>
      SeqHigherThan 0 (rp_timestamp p) (it_timestamp newest)")
    case True
    with ne nw single show ?thesis by (simp add: Insert_slots_def single_item_eq)
  next
    case special: False
    show ?thesis
    proof (cases "drop n buf = []")
      case True
      with nr ne have r by auto
      with ne nw c special True single show ?thesis
        unfolding ts_def by (simp add: Insert_slots_def single_item_eq del: drop_eq_Nil)
    next
      case dn: False
      from wd dn obtain oldest' newest' where on: "GetOldest (drop n buf) = Some oldest'"
        "GetNewest (drop n buf) = Some newest'" by (rule rb_wf_obtain)
      have ld: "length (drop n buf) \<le> unat (rb_maxItems b)" using len by simp
      have "\<exists>buf' sh'. (if SeqHigherThan 0 (rp_sequenceNumber p) (it_sequenceNumber newest')
             then Insert_newest b p sh (drop n buf) newest'
             else if SeqLowerThan 0 (rp_sequenceNumber p) (it_sequenceNumber oldest')
             then Insert_oldest b p sh (drop n buf) oldest' newest'
             else Insert_between b p sh (drop n buf) oldest') = Some (buf', sh')
           \<and> insert_ok b p sh (drop n buf) buf'"
        using Insert_newest_ok [OF wd dn ld on(2), of p sh] Insert_oldest_ok [OF wd dn ld clk on(1), of p sh newest']
          Insert_between_ok [OF wd dn ld mx on, of p sh] by auto
      with ne nw c special dn on show ?thesis
        unfolding ts_def by (auto simp: Insert_slots_def dest: insert_ok_mono)
    qed
  qed
qed

lemma Insert_slots_newest:
  assumes clk: "rb_clockRate b \<noteq> 0" and m: "0 < rb_maxItems b" and wf: "rb_wf buf"
    and len: "length buf \<le> unat (rb_maxItems b)" and n: "GetNewest buf = Some newest"
    and hi: "SeqHigherThan 0 (rp_sequenceNumber p) (it_sequenceNumber newest)"
    and ts: "\<not> SeqLowerThan 0 (rp_timestamp p) (it_timestamp newest)"
  shows "\<exists>buf' sh'. Insert_slots b p sh buf = Some (buf', sh') \<and> insert_ok b p sh buf buf'
    \<and> Some (stored_item p sh) \<in> set buf'"
proof -
  from n have ne: "buf \<noteq> []" by (auto simp: GetNewest_def)
  define nts where "nts = (if SeqHigherThan 0 (rp_timestamp p) (it_timestamp newest)
    then rp_timestamp p else it_timestamp newest)"
  obtain k r where c: "ClearTooOldByTimestamp b nts buf False = Some (drop k buf, r)"
    and wd: "rb_wf (drop k buf)" and nr: "\<not> r \<longrightarrow> drop k buf = buf"
    using ClearTooOld_wf [OF clk wf, of nts False] by blast
  have low: "\<not> SeqLowerThan 0 (rp_sequenceNumber p) (it_sequenceNumber newest)"
    using hi by (auto simp: SeqHigherThan_flip dest: seq_asym)
  show ?thesis
  proof (cases "drop k buf = []")
    case True
    with nr ne have r by auto
    with ne n c True low m show ?thesis
      unfolding nts_def by (simp add: Insert_slots_def single_item_eq insert_ok_single del: drop_eq_Nil)
  next
    case dn: False
    then have "last (drop k buf) = last buf" by simp
    with n dn ne have nw: "GetNewest (drop k buf) = Some newest" by (simp add: GetNewest_def)
    obtain oldest where od: "GetOldest (drop k buf) = Some oldest"
      using rb_wf_obtain [OF wd dn] by metis
    have ld: "length (drop k buf) \<le> unat (rb_maxItems b)" using len by simp
    from Insert_newest_ok [OF wd dn ld nw hi, of sh] ts obtain buf' sh' where
      "Insert_newest b p sh (drop k buf) newest = Some (buf', sh')"
      "insert_ok b p sh (drop k buf) buf'" "Some (stored_item p sh) \<in> set buf'" by blast
    with ne n c low dn nw od hi show ?thesis
      unfolding nts_def by (auto simp: Insert_slots_def dest: insert_ok_mono)
  qed
qed

lemma Get_nth:
  assumes wf: "rb_wf buf" and ne: "buf \<noteq> []" and len: "length buf \<le> 2 ^ 15"
  shows "RetransmissionBuffer_Get seq buf =
    (if unat (seq - first_seq buf) < length buf then buf ! unat (seq - first_seq buf) else None)"
proof -
  from wf ne obtain oldest newest where o: "GetOldest buf = Some oldest"
    "it_sequenceNumber oldest = first_seq buf" by (rule rb_wf_obtain)
  have "0 < length buf" using ne by simp
  with len have u: "unat (of_nat (length buf - 1) :: u16) = length buf - 1"
    by (intro unat_of_nat_less) simp
  have le: "\<not> (seq - first_seq buf > (of_nat (length buf - 1) :: u16))
      \<longleftrightarrow> unat (seq - first_seq buf) < length buf"
    using \<open>0 < length buf\<close> unfolding word_less_nat_alt u by linarith
  show ?thesis
    using o le len seq16_near_not_lower [of seq "first_seq buf"]
    by (auto simp: RetransmissionBuffer_Get_def Let_def)
qed

lemma Get_iff:
  assumes wf: "rb_wf buf" and len: "length buf \<le> 2 ^ 15"
  shows "RetransmissionBuffer_Get seq buf = Some item
    \<longleftrightarrow> Some item \<in> set buf \<and> it_sequenceNumber item = seq"
proof (cases "buf = []")
  case True
  then show ?thesis by (simp add: RetransmissionBuffer_Get_def GetOldest_def)
next
  case ne: False
  note g = Get_nth [OF wf ne len, of seq]
  from wf ne have s: "slots_from (first_seq buf) buf" by (simp add: rb_wf_def)
  show ?thesis
  proof
    assume "RetransmissionBuffer_Get seq buf = Some item"
    then have i: "unat (seq - first_seq buf) < length buf" "buf ! unat (seq - first_seq buf) = Some item"
      using g by (auto split: if_splits)
    have "it_sequenceNumber item = seq" using slots_from_nth [OF s i] by simp
    moreover have "Some item \<in> set buf" using i by (metis nth_mem)
    ultimately show "Some item \<in> set buf \<and> it_sequenceNumber item = seq" by blast
  next
    assume a: "Some item \<in> set buf \<and> it_sequenceNumber item = seq"
    then obtain i where i: "i < length buf" "buf ! i = Some item" by (auto simp: in_set_conv_nth)
    with s a have "seq = first_seq buf + of_nat i" using slots_from_nth by blast
    moreover have "unat (of_nat i :: u16) = i" using i(1) len by (intro unat_of_nat_less) simp
    ultimately show "RetransmissionBuffer_Get seq buf = Some item" using i g by simp
  qed
qed

lemma wrapped_less:
  fixes t o' :: u32
  assumes "t = o' + of_nat d" and "unat o' + d \<ge> 2 ^ 32" and "d < 2 ^ 31"
  shows "t < o'"
proof -
  have o: "unat o' < 2 ^ 32" using unsigned_less [of o'] by simp
  have "unat t = (unat o' + d) mod 2 ^ 32"
    using assms(3) by (simp add: assms(1) unat_word_ariths unat_of_nat mod_add_right_eq)
  also have "\<dots> = unat o' + d - 2 ^ 32"
    using assms(2,3) o by (simp add: mod_if)
  finally show ?thesis using assms(2,3) o by (simp add: word_less_nat_alt)
qed

lemma fits_older_rev [simp]:
  "fits_older t (replicate k None @ Some older # ys) \<longleftrightarrow> it_timestamp older \<le> t"
  by (induction k) auto

lemma between_slot:
  assumes inv: "rb_inv b" and buf: "rb_buffer b = xs @ Some older # replicate k None @ None # ys"
    and seq: "s = it_sequenceNumber older + of_nat (Suc k)"
    and o: "GetOldest (rb_buffer b) = Some oldest" and n: "GetNewest (rb_buffer b) = Some newest"
  shows "\<not> SeqHigherThan 0 s (it_sequenceNumber newest)" "\<not> SeqLowerThan 0 s (it_sequenceNumber oldest)"
    and "RetransmissionBuffer_Get s (rb_buffer b) = None"
    and "\<not> length (rb_buffer b) < unat (s - it_sequenceNumber oldest)"
    and "fits_older t (rev (take (unat (s - it_sequenceNumber oldest)) (rb_buffer b)))
      \<longleftrightarrow> it_timestamp older \<le> t"
proof -
  let ?buf = "rb_buffer b" and ?i = "length xs + Suc k"
  have ne: "?buf \<noteq> []" and il: "?i < length ?buf" by (simp_all add: buf)
  from inv have wf: "rb_wf ?buf" and len: "length ?buf \<le> 2 ^ 15" by (auto simp: rb_inv_def)
  from wf ne obtain oldest' newest' where on: "GetOldest ?buf = Some oldest'"
    "GetNewest ?buf = Some newest'" "it_sequenceNumber oldest' = first_seq ?buf"
    "it_sequenceNumber newest' = first_seq ?buf + of_nat (length ?buf - 1)"
    by (rule rb_wf_obtain)
  with o n have fo: "it_sequenceNumber oldest = first_seq ?buf"
    and fn: "it_sequenceNumber newest = first_seq ?buf + of_nat (length ?buf - 1)" by simp_all
  have "slots_from (first_seq ?buf) ?buf" using wf ne by (simp add: rb_wf_def)
  then have "it_sequenceNumber older = first_seq ?buf + of_nat (length xs)"
    by (rule slots_from_nth) (simp_all add: buf)
  then have s: "s = first_seq ?buf + of_nat ?i" by (simp add: seq algebra_simps)
  have ui: "unat (s - it_sequenceNumber oldest) = ?i"
    using il len by (simp add: s fo del: of_nat_add of_nat_Suc add_Suc_right) (intro unat_of_nat_less; simp)
  show "\<not> SeqLowerThan 0 s (it_sequenceNumber oldest)"
    using ui il len by (intro seq16_near_not_lower) simp
  define j where "j = length ?buf - 1 - ?i"
  have j: "length ?buf - 1 = ?i + j" "j < 2 ^ 15" using il len by (simp_all add: j_def)
  have "it_sequenceNumber newest - s = of_nat j" unfolding fn s j(1) by simp
  then have "unat (it_sequenceNumber newest - s) < 2 ^ 15"
    using j(2) by (simp add: unat_of_nat_less)
  then show "\<not> SeqHigherThan 0 s (it_sequenceNumber newest)"
    unfolding SeqHigherThan_flip by (rule seq16_near_not_lower)
  show "RetransmissionBuffer_Get s ?buf = None"
  proof -
    have "?buf ! ?i = None" by (simp add: buf nth_append)
    then show ?thesis using ui by (simp add: Get_nth [OF wf ne len] fo)
  qed
  show "\<not> length ?buf < unat (s - it_sequenceNumber oldest)" using ui il by simp
  show "fits_older t (rev (take (unat (s - it_sequenceNumber oldest)) ?buf)) \<longleftrightarrow> it_timestamp older \<le> t"
    unfolding ui by (simp add: buf)
qed

section \<open>Properties\<close>

text \<open>
  C29: Inserting never crashes and keeps the buffer well formed. With a non-zero clock rate and
  at most 32768 items (the worker uses 2500), \<^verbatim>\<open>Insert\<close> on a well-formed buffer returns: no
  null slot is dereferenced, no index is out of range and no assertion fails; the new buffer
  has both ends stored, slot \<open>i\<close> holds sequence number first + \<open>i\<close>, and at most
  \<^verbatim>\<open>maxItems\<close> slots. Only the given packet is added.
\<close>

theorem RetransmissionBuffer_Insert_safe:
  assumes "rb_inv b"
  shows "\<exists>b' sh'. RetransmissionBuffer_Insert b packet sh = Some (b', sh') \<and> rb_inv b'
    \<and> (\<forall>item. Some item \<in> set (rb_buffer b')
         \<longrightarrow> Some item \<in> set (rb_buffer b) \<or> item = stored_item packet sh)"
proof -
  from assms obtain buf' sh' where
    "Insert_slots b packet sh (rb_buffer b) = Some (buf', sh')" "insert_ok b packet sh (rb_buffer b) buf'"
    using Insert_slots_ok [of b "rb_buffer b" packet sh] by (auto simp: rb_inv_def)
  with assms show ?thesis
    by (intro exI [of _ "b\<lparr>rb_buffer := buf'\<rparr>"] exI [of _ sh'])
       (simp add: RetransmissionBuffer_Insert_def rb_inv_def insert_ok_def)
qed

definition example_packet :: "u16 \<Rightarrow> u32 \<Rightarrow> unit media_packet" where
  "example_packet seq ts = \<lparr>rp_ssrc = 1, rp_sequenceNumber = seq, rp_timestamp = ts,
     rp_payloadType = 100, rp_size = 100, rp_isKeyFrame = False, rp_mid = None, rp_rid = None, mp_clone = ()\<rparr>"

definition example_buffer :: "unit retransmission_buffer" where
  "example_buffer = \<lparr>rb_buffer = [Some (stored_item (example_packet 10 4294967040) None), None,
       Some (stored_item (example_packet 12 256) None)],
     rb_maxItems = 2500, rb_maxRetransmissionDelayMs = 2000, rb_clockRate = 90000\<rparr>"

lemma example_buffer_inv: "rb_inv example_buffer"
  by (simp add: rb_inv_def example_buffer_def rb_wf_def first_seq_def example_packet_def)

theorem RetransmissionBuffer_Insert_safe_witness:
  "rb_inv example_buffer \<and>
   (\<exists>b' sh'. RetransmissionBuffer_Insert example_buffer (example_packet 13 300) None = Some (b', sh')
      \<and> rb_inv b')"
  using example_buffer_inv RetransmissionBuffer_Insert_safe [OF example_buffer_inv, of "example_packet 13 300" None]
  by blast

text \<open>
  C30: Lookup is exact. On a well-formed buffer \<^verbatim>\<open>Get(seq)\<close> returns an item exactly when the
  buffer stores one with that sequence number: no stored packet is missed and none with
  another number is returned.
\<close>

theorem RetransmissionBuffer_Get_exact:
  assumes "rb_inv b"
  shows "RetransmissionBuffer_Get seq (rb_buffer b) = Some item
    \<longleftrightarrow> Some item \<in> set (rb_buffer b) \<and> it_sequenceNumber item = seq"
  using assms by (intro Get_iff) (auto simp: rb_inv_def)

theorem RetransmissionBuffer_Get_exact_witness:
  "rb_inv example_buffer \<and>
   RetransmissionBuffer_Get 12 (rb_buffer example_buffer)
     = Some (stored_item (example_packet 12 256) None)"
proof -
  have "Some (stored_item (example_packet 12 256) None) \<in> set (rb_buffer example_buffer)"
    and "it_sequenceNumber (stored_item (example_packet 12 256) None) = 12"
    by (simp_all add: example_buffer_def example_packet_def)
  with RetransmissionBuffer_Get_exact [OF example_buffer_inv, of 12 "stored_item (example_packet 12 256) None"]
    example_buffer_inv show ?thesis by blast
qed

text \<open>
  C31: A packet that arrives in order can be retransmitted. When the inserted packet is newer
  than every stored one, by sequence number and not older by timestamp, the buffer returns it
  afterwards for its sequence number.
\<close>

theorem RetransmissionBuffer_newest_found:
  assumes inv: "rb_inv b" and n: "GetNewest (rb_buffer b) = Some newest"
    and hi: "SeqHigherThan 0 (rp_sequenceNumber packet) (it_sequenceNumber newest)"
    and ts: "\<not> SeqLowerThan 0 (rp_timestamp packet) (it_timestamp newest)"
  shows "\<exists>b' sh'. RetransmissionBuffer_Insert b packet sh = Some (b', sh')
    \<and> RetransmissionBuffer_Get (rp_sequenceNumber packet) (rb_buffer b') = Some (stored_item packet sh)"
proof -
  from inv obtain buf' sh' where
    i: "Insert_slots b packet sh (rb_buffer b) = Some (buf', sh')"
      "insert_ok b packet sh (rb_buffer b) buf'" "Some (stored_item packet sh) \<in> set buf'"
    using Insert_slots_newest [OF _ _ _ _ n hi ts, of b sh] by (auto simp: rb_inv_def)
  then have "RetransmissionBuffer_Get (rp_sequenceNumber packet) buf' = Some (stored_item packet sh)"
    using inv by (subst Get_iff) (auto simp: insert_ok_def rb_inv_def)
  with i show ?thesis by (simp add: RetransmissionBuffer_Insert_def)
qed

theorem RetransmissionBuffer_newest_found_witness:
  "\<exists>b' sh'. RetransmissionBuffer_Insert example_buffer (example_packet 40 300) None = Some (b', sh')
    \<and> RetransmissionBuffer_Get 40 (rb_buffer b') = Some (stored_item (example_packet 40 300) None)"
proof -
  let ?n = "stored_item (example_packet 12 256) None"
  have "GetNewest (rb_buffer example_buffer) = Some ?n"
    by (simp add: GetNewest_def example_buffer_def)
  moreover have "SeqHigherThan 0 (rp_sequenceNumber (example_packet 40 300)) (it_sequenceNumber ?n)"
    by (simp add: example_packet_def SeqHigherThan_def MaxValue_def)
  moreover have "\<not> SeqLowerThan 0 (rp_timestamp (example_packet 40 300)) (it_timestamp ?n)"
    by (simp add: example_packet_def stored_item_def FillItem_def Item_new_def SeqLowerThan_def MaxValue_def Let_def)
  ultimately show ?thesis
    using RetransmissionBuffer_newest_found [OF example_buffer_inv, of ?n "example_packet 40 300" None]
    by (simp add: example_packet_def)
qed

text \<open>
  C32: The clean-up removes exactly what is past the retransmission delay. On a well-formed
  buffer the clean-up by timestamp that every \<^verbatim>\<open>Insert\<close> does returns (the loop ends
  without dereferencing a blank slot) a suffix of the buffer. Call an item late when it is not
  newer than the given timestamp and its distance to it, in milliseconds at the clock
  rate (modulo \<open>2 ^ 32\<close>, since the code converts it to 32 bits), exceeds the maximum delay: the oldest
  item that is kept is not late, and every stored item that was removed was late.
\<close>

theorem ClearTooOldByTimestamp_delay:
  assumes "rb_inv b"
  shows "\<exists>n removed. ClearTooOldByTimestamp b ts (rb_buffer b) False = Some (drop n (rb_buffer b), removed)
    \<and> rb_wf (drop n (rb_buffer b))
    \<and> (\<forall>oldest. GetOldest (drop n (rb_buffer b)) = Some oldest
          \<longrightarrow> SeqHigherThan 0 (it_timestamp oldest) ts
             \<or> unat (ts - it_timestamp oldest) * 1000 div unat (rb_clockRate b) mod 2 ^ 32
                 \<le> unat (rb_maxRetransmissionDelayMs b))
    \<and> (\<forall>item. Some item \<in> set (rb_buffer b) \<and> Some item \<notin> set (drop n (rb_buffer b))
          \<longrightarrow> \<not> SeqHigherThan 0 (it_timestamp item) ts
             \<and> unat (rb_maxRetransmissionDelayMs b)
                 < unat (ts - it_timestamp item) * 1000 div unat (rb_clockRate b) mod 2 ^ 32)"
proof -
  from assms have clk: "rb_clockRate b \<noteq> 0" and wf: "rb_wf (rb_buffer b)"
    by (simp_all add: rb_inv_def)
  from ClearTooOld_wf [OF clk wf, of ts False] obtain n removed where
    c: "ClearTooOldByTimestamp b ts (rb_buffer b) False = Some (drop n (rb_buffer b), removed)"
      "rb_wf (drop n (rb_buffer b))"
      "\<forall>oldest. GetOldest (drop n (rb_buffer b)) = Some oldest
         \<longrightarrow> IsTooOldTimestamp b (it_timestamp oldest) ts = Some False"
    by blast
  with ClearTooOld_removed [OF c(1)] show ?thesis
    unfolding IsTooOldTimestamp_True [OF clk] IsTooOldTimestamp_False [OF clk]
    by (intro exI [of _ n] exI [of _ removed]) blast
qed

theorem ClearTooOldByTimestamp_delay_witness:
  "rb_inv example_buffer \<and>
   (\<exists>n removed. ClearTooOldByTimestamp example_buffer 200000 (rb_buffer example_buffer) False
      = Some (drop n (rb_buffer example_buffer), removed) \<and> rb_wf (drop n (rb_buffer example_buffer)))"
  using example_buffer_inv ClearTooOldByTimestamp_delay [OF example_buffer_inv, of 200000] by blast



end
