(* ===== verification/StateMachine.thy ===== *)
theory StateMachine
  imports Main
begin

text \<open>
  Runs of a component. A component's operation takes its state and an event (a call of one of
  its methods, or a timer that expires) and returns the new state with what the component
  emitted to its listener; \<open>None\<close> is a failed assertion or an invalid memory access. A run
  feeds a list of events, in any order the caller chooses.

  The locale \<open>safe_machine\<close> is the contract a component's step offers its callers: from a
  state of the invariant, an event the environment may send is processed without failure into
  a state of the invariant. Its lemmas lift the contract to whole runs. The locale
  \<open>accounted_machine\<close> adds a relation between the events fed, what was emitted and both states
  that single steps satisfy and that composes.
\<close>

fun run_steps :: "('s \<Rightarrow> 'e \<Rightarrow> ('s \<times> 'o list) option) \<Rightarrow> 's \<Rightarrow> 'e list \<Rightarrow> ('s \<times> 'o list) option" where
  "run_steps step s [] = Some (s, [])"
| "run_steps step s (e # es) =
     (case step s e of
        None \<Rightarrow> None
      | Some (s', out) \<Rightarrow>
          (case run_steps step s' es of
             None \<Rightarrow> None
           | Some (s'', outs) \<Rightarrow> Some (s'', out @ outs)))"

lemma run_steps_append:
  "run_steps step s (es @ fs) =
     (case run_steps step s es of
        None \<Rightarrow> None
      | Some (s', out) \<Rightarrow>
          (case run_steps step s' fs of
             None \<Rightarrow> None
           | Some (s'', outs) \<Rightarrow> Some (s'', out @ outs)))"
proof (induction es arbitrary: s)
  case Nil
  show ?case by (simp split: option.split)
next
  case (Cons e es)
  show ?case
  proof (cases "step s e")
    case None
    then show ?thesis by simp
  next
    case (Some r)
    then show ?thesis using Cons.IH [of "fst r"]
      by (cases r) (auto split: option.splits)
  qed
qed

text \<open>The environment keeps its side of the contract along the run.\<close>

fun ok_run :: "('s \<Rightarrow> 'e \<Rightarrow> ('s \<times> 'o list) option) \<Rightarrow> ('s \<Rightarrow> 'e \<Rightarrow> bool) \<Rightarrow> 's \<Rightarrow> 'e list \<Rightarrow> bool" where
  "ok_run step ok s [] = True"
| "ok_run step ok s (e # es) =
     (ok s e \<and> (case step s e of None \<Rightarrow> True | Some (s', out) \<Rightarrow> ok_run step ok s' es))"

lemma ok_run_True [simp]: "ok_run step (\<lambda>s e. True) s es"
  by (induction es arbitrary: s) (auto split: option.split)

locale safe_machine =
  fixes step :: "'s \<Rightarrow> 'e \<Rightarrow> ('s \<times> 'o list) option"
    and inv :: "'s \<Rightarrow> bool"
    and ok :: "'s \<Rightarrow> 'e \<Rightarrow> bool"
  assumes step_safe: "inv s \<Longrightarrow> ok s e \<Longrightarrow> \<exists>s' out. step s e = Some (s', out) \<and> inv s'"
begin

lemma run_safe:
  assumes "inv s" and "ok_run step ok s es"
  shows "\<exists>s' outs. run_steps step s es = Some (s', outs) \<and> inv s'"
  using assms
proof (induction es arbitrary: s)
  case Nil
  then show ?case by simp
next
  case (Cons e es)
  from Cons.prems obtain s1 o1 where s1: "step s e = Some (s1, o1)" "inv s1"
    using step_safe [of s e] by auto
  with Cons.prems have "ok_run step ok s1 es" by simp
  with Cons.IH [OF s1(2)] s1(1) show ?case by (auto split: option.split)
qed

lemma run_inv:
  assumes "inv s" and "ok_run step ok s es" and "run_steps step s es = Some (s', outs)"
  shows "inv s'"
  using run_safe [OF assms(1,2)] assms(3) by auto

end

locale accounted_machine = safe_machine step inv ok
  for step :: "'s \<Rightarrow> 'e \<Rightarrow> ('s \<times> 'o list) option"
    and inv :: "'s \<Rightarrow> bool" and ok :: "'s \<Rightarrow> 'e \<Rightarrow> bool" +
  fixes account :: "'s \<Rightarrow> 'e list \<Rightarrow> 'o list \<Rightarrow> 's \<Rightarrow> bool"
  assumes account_nil: "account s [] [] s"
    and account_step: "inv s \<Longrightarrow> ok s e \<Longrightarrow> step s e = Some (s', out) \<Longrightarrow> account s [e] out s'"
    and account_trans: "account s es o1 s' \<Longrightarrow> account s' fs o2 s'' \<Longrightarrow> account s (es @ fs) (o1 @ o2) s''"
begin

lemma run_account:
  assumes "inv s" and "ok_run step ok s es" and "run_steps step s es = Some (s', outs)"
  shows "account s es outs s'"
  using assms
proof (induction es arbitrary: s outs)
  case Nil
  then show ?case by (simp add: account_nil)
next
  case (Cons e es)
  from Cons.prems(3) obtain s1 o1 o2 where s1: "step s e = Some (s1, o1)"
    and r: "run_steps step s1 es = Some (s', o2)" and o: "outs = o1 @ o2"
    by (auto split: option.splits prod.splits)
  from Cons.prems(1,2) s1 have i: "inv s1" "ok_run step ok s1 es" using step_safe [of s e] by auto
  from Cons.prems(1,2) s1 have "account s [e] o1 s1" by (auto intro: account_step)
  moreover have "account s1 es o2 s'" using i r by (rule Cons.IH)
  ultimately show ?case unfolding o using account_trans [of s "[e]" o1 s1 es o2 s'] by simp
qed

end

end
