(* ===== verification/NackGenerator.thy ===== *)
theory NackGenerator
  imports RtpTypes StateMachine
begin

text \<open>
  \<^verbatim>\<open>RTC::NackGenerator\<close> (\<^verbatim>\<open>worker/src/RTC/NackGenerator.cpp\<close>): the receiver's list of missing
  packets, the requests (NACK) it sends for them and the key frame requests it falls back to.

  The three ordered containers are lists in the order of \<^verbatim>\<open>SeqLowerThan\<close>. The timer is the flag
  \<open>ng_timerActive\<close>: \<^verbatim>\<open>Start(TimerInterval)\<close> is one shot, so it is inactive again when
  \<^verbatim>\<open>OnTimer\<close> runs. The clock \<^verbatim>\<open>DepLibUV::GetTimeMs()\<close> is read anew by each call, so
  \<^verbatim>\<open>ReceivePacket\<close> takes the reading made for each number it adds and the reading made by
  \<^verbatim>\<open>GetNackBatch\<close>. Calls of the listener are the events an operation returns.
\<close>

section \<open>Definitions\<close>

record nack_info =
  ni_createdAtMs :: u64
  ni_seq :: u16
  ni_sendAtSeq :: u16
  ni_sentAtMs :: u64
  ni_retries :: u8

datatype nack_filter = SEQ | TIME

datatype nack_output =
    NackRequired "u16 list"
  | KeyFrameRequired

type_synonym nack_list = "(u16 \<times> nack_info) list"

record nack_generator =
  ng_sendNackDelayMs :: u32
  ng_timerActive :: bool
  ng_nackList :: nack_list
  ng_keyFrameList :: "u16 list"
  ng_recoveredList :: "u16 list"
  ng_started :: bool
  ng_lastSeq :: u16
  ng_rtt :: u32

definition MaxPacketAge :: nat where "MaxPacketAge = 10000"
definition MaxNackPackets :: nat where "MaxNackPackets = 1000"
definition DefaultRtt :: u32 where "DefaultRtt = 100"
definition MaxNackRetries :: u8 where "MaxNackRetries = 10"

lemmas nack_consts = MaxPacketAge_def MaxNackPackets_def DefaultRtt_def MaxNackRetries_def

definition NackInfo_new :: "u64 \<Rightarrow> u16 \<Rightarrow> u16 \<Rightarrow> nack_info" where
  "NackInfo_new createdAtMs seq sendAtSeq =
     \<lparr>ni_createdAtMs = createdAtMs, ni_seq = seq, ni_sendAtSeq = sendAtSeq, ni_sentAtMs = 0,
      ni_retries = 0\<rparr>"

definition NackGenerator_new :: "u32 \<Rightarrow> nack_generator" where
  "NackGenerator_new sendNackDelayMs =
     \<lparr>ng_sendNackDelayMs = sendNackDelayMs, ng_timerActive = False, ng_nackList = [],
      ng_keyFrameList = [], ng_recoveredList = [], ng_started = False, ng_lastSeq = 0,
      ng_rtt = DefaultRtt\<rparr>"

definition NackGenerator_UpdateRtt :: "u32 \<Rightarrow> nack_generator \<Rightarrow> nack_generator" where
  "NackGenerator_UpdateRtt rtt g = g\<lparr>ng_rtt := rtt\<rparr>"

definition NackGenerator_Reset :: "nack_generator \<Rightarrow> nack_generator" where
  "NackGenerator_Reset g =
     g\<lparr>ng_nackList := [], ng_keyFrameList := [], ng_recoveredList := [], ng_started := False,
       ng_lastSeq := 0\<rparr>"

text \<open>Erases the elements of an ordered container that are lower than \<open>k\<close>.\<close>

definition erase_lower :: "('e \<Rightarrow> u16) \<Rightarrow> u16 \<Rightarrow> 'e list \<Rightarrow> 'e list" where
  "erase_lower kf k xs = os_erase_range 0 (lower_bound (SeqLowerThan 0) kf k xs) xs"

text \<open>The result is the returned flag with both lists.\<close>

fun RemoveNackItemsUntilKeyFrame :: "nack_list \<Rightarrow> u16 list \<Rightarrow> bool \<times> nack_list \<times> u16 list" where
  "RemoveNackItemsUntilKeyFrame nackList [] = (False, nackList, [])"
| "RemoveNackItemsUntilKeyFrame nackList (keyFrame # keyFrameList) =
     (let it = lower_bound (SeqLowerThan 0) fst keyFrame nackList
      in if it \<noteq> 0 then (True, os_erase_range 0 it nackList, keyFrame # keyFrameList)
         else RemoveNackItemsUntilKeyFrame nackList keyFrameList)"

definition nack_list_full :: "u16 \<Rightarrow> nack_list \<Rightarrow> bool" where
  "nack_list_full numNewNacks nackList \<longleftrightarrow>
     unat (of_nat (length nackList) :: u16) + unat numNewNacks > MaxNackPackets"

lemma RemoveNackItems_drop:
  "RemoveNackItemsUntilKeyFrame nackList keyFrameList = (r, nackList', keyFrameList') \<Longrightarrow>
     \<exists>k. nackList' = drop k nackList \<and> (r \<longrightarrow> length nackList' < length nackList)"
proof (induction nackList keyFrameList rule: RemoveNackItemsUntilKeyFrame.induct)
  case (1 nackList)
  then show ?case by (auto intro: exI [of _ 0])
next
  case (2 nackList keyFrame keyFrameList)
  let ?it = "lower_bound (SeqLowerThan 0) fst keyFrame nackList"
  show ?case
  proof (cases "?it = 0")
    case True
    with 2 show ?thesis by (auto simp: Let_def)
  next
    case False
    have "?it \<le> length nackList" by simp
    with False have "length nackList - ?it < length nackList" by linarith
    with False 2(2) have "nackList' = drop ?it nackList \<and> (r \<longrightarrow> length nackList' < length nackList)"
      by (auto simp: os_erase_range_def Let_def)
    then show ?thesis by blast
  qed
qed

text \<open>The loop that drops items until the list is short enough or no key frame helps.\<close>

function RemoveNackItems_loop :: "u16 \<Rightarrow> nack_list \<Rightarrow> u16 list \<Rightarrow> nack_list \<times> u16 list" where
  "RemoveNackItems_loop numNewNacks nackList keyFrameList =
     (case RemoveNackItemsUntilKeyFrame nackList keyFrameList of
        (removed, nackList', keyFrameList') \<Rightarrow>
          if removed \<and> nack_list_full numNewNacks nackList'
          then RemoveNackItems_loop numNewNacks nackList' keyFrameList'
          else (nackList', keyFrameList'))"
  by pat_completeness auto
termination
  by (relation "measure (\<lambda>(n, nackList, kf). length nackList)")
     (auto dest!: RemoveNackItems_drop [OF sym])

declare RemoveNackItems_loop.simps [simp del]

text \<open>The loop that adds \<open>n\<close> numbers from \<open>seq\<close> on; \<open>None\<close> is the failed assertion.\<close>

fun add_nacks :: "(u16 \<Rightarrow> u64) \<Rightarrow> u16 list \<Rightarrow> nat \<Rightarrow> u16 \<Rightarrow> nack_list \<Rightarrow> nack_list option" where
  "add_nacks clock recovered 0 seq nackList = Some nackList"
| "add_nacks clock recovered (Suc n) seq nackList =
     (if os_find (SeqLowerThan 0) fst seq nackList \<noteq> None then None
      else if os_find (SeqLowerThan 0) id seq recovered \<noteq> None
      then add_nacks clock recovered n (seq + 1) nackList
      else add_nacks clock recovered n (seq + 1)
             (os_insert (SeqLowerThan 0) fst (seq, NackInfo_new (clock seq) seq seq) nackList))"

definition AddPacketsToNackList ::
  "(u16 \<Rightarrow> u64) \<Rightarrow> u16 \<Rightarrow> u16 \<Rightarrow> nack_generator \<Rightarrow> (nack_generator \<times> nack_output list) option" where
  "AddPacketsToNackList clock seqStart seqEnd g =
     (let nackList = erase_lower fst (seqEnd - of_nat MaxPacketAge) (ng_nackList g);
          numNewNacks = seqEnd - seqStart;
          (nackList', keyFrameList') =
            (if nack_list_full numNewNacks nackList
             then RemoveNackItems_loop numNewNacks nackList (ng_keyFrameList g)
             else (nackList, ng_keyFrameList g));
          g' = g\<lparr>ng_keyFrameList := keyFrameList'\<rparr>
      in if nack_list_full numNewNacks nackList'
         then Some (g'\<lparr>ng_nackList := []\<rparr>, [KeyFrameRequired])
         else (case add_nacks clock (ng_recoveredList g) (unat numNewNacks) seqStart nackList' of
                 None \<Rightarrow> None
               | Some nackList'' \<Rightarrow> Some (g'\<lparr>ng_nackList := nackList''\<rparr>, [])))"

text \<open>What \<^verbatim>\<open>GetNackBatch\<close> does to one item: whether it is requested, and the item that stays.\<close>

definition nack_due :: "nack_generator \<Rightarrow> nack_filter \<Rightarrow> u64 \<Rightarrow> nack_info \<Rightarrow> bool" where
  "nack_due g filt nowMs info \<longleftrightarrow>
     \<not> (ng_sendNackDelayMs g > 0 \<and> nowMs - ni_createdAtMs info < ucast (ng_sendNackDelayMs g)) \<and>
     (case filt of
        SEQ \<Rightarrow> ni_sentAtMs info = 0 \<and>
               (ni_sendAtSeq info = ng_lastSeq g \<or> SeqHigherThan 0 (ng_lastSeq g) (ni_sendAtSeq info))
      | TIME \<Rightarrow> ni_sentAtMs info = 0 \<or> nowMs - ni_sentAtMs info \<ge> ucast (ng_rtt g))"

definition nack_sent :: "u64 \<Rightarrow> nack_info \<Rightarrow> nack_info" where
  "nack_sent nowMs info = info\<lparr>ni_retries := ni_retries info + 1, ni_sentAtMs := nowMs\<rparr>"

fun GetNackBatch_items ::
  "nack_generator \<Rightarrow> nack_filter \<Rightarrow> u64 \<Rightarrow> nack_list \<Rightarrow> u16 list \<times> nack_list" where
  "GetNackBatch_items g filt nowMs [] = ([], [])"
| "GetNackBatch_items g filt nowMs ((seq, info) # items) =
     (case GetNackBatch_items g filt nowMs items of
        (batch, items') \<Rightarrow>
          if nack_due g filt nowMs info
          then (ni_seq info # batch,
                if ni_retries (nack_sent nowMs info) \<ge> MaxNackRetries then items'
                else (seq, nack_sent nowMs info) # items')
          else (batch, (seq, info) # items'))"

definition GetNackBatch ::
  "nack_filter \<Rightarrow> u64 \<Rightarrow> nack_generator \<Rightarrow> u16 list \<times> nack_generator" where
  "GetNackBatch filt nowMs g =
     (case GetNackBatch_items g filt nowMs (ng_nackList g) of
        (batch, items) \<Rightarrow> (batch, g\<lparr>ng_nackList := items\<rparr>))"

definition nack_request :: "u16 list \<Rightarrow> nack_output list" where
  "nack_request batch = (if batch \<noteq> [] then [NackRequired batch] else [])"

definition MayRunTimer :: "nack_generator \<Rightarrow> nack_generator" where
  "MayRunTimer g = (if ng_nackList g \<noteq> [] then g\<lparr>ng_timerActive := True\<rparr> else g)"

definition NackGenerator_OnTimer :: "u64 \<Rightarrow> nack_generator \<Rightarrow> nack_generator \<times> nack_output list" where
  "NackGenerator_OnTimer nowMs g =
     (case GetNackBatch TIME nowMs (g\<lparr>ng_timerActive := False\<rparr>) of
        (batch, g') \<Rightarrow> (MayRunTimer g', nack_request batch))"

text \<open>The branch for a packet that is older than the last one.\<close>

definition ReceivePacket_older :: "u16 \<Rightarrow> nack_generator \<Rightarrow> bool \<times> nack_generator" where
  "ReceivePacket_older seq g =
     (case os_find (SeqLowerThan 0) fst seq (ng_nackList g) of
        Some it \<Rightarrow> (ni_retries (snd (ng_nackList g ! it)) \<noteq> 0,
                    g\<lparr>ng_nackList := os_erase it (ng_nackList g)\<rparr>)
      | None \<Rightarrow> (False, g))"

text \<open>The branch for a packet that is newer than the last one.\<close>

definition ReceivePacket_newer ::
  "(u16 \<Rightarrow> u64) \<Rightarrow> u64 \<Rightarrow> u16 \<Rightarrow> bool \<Rightarrow> bool \<Rightarrow> nack_generator
     \<Rightarrow> (nack_generator \<times> nack_output list) option" where
  "ReceivePacket_newer clock nowMs seq isKeyFrame isRecovered g =
     (let keyFrameList = (if isKeyFrame then os_insert (SeqLowerThan 0) id seq (ng_keyFrameList g)
                          else ng_keyFrameList g);
          g1 = g\<lparr>ng_keyFrameList := erase_lower id (seq - of_nat MaxPacketAge) keyFrameList\<rparr>
      in if isRecovered
         then Some (g1\<lparr>ng_recoveredList :=
                         erase_lower id (seq - of_nat MaxPacketAge)
                           (os_insert (SeqLowerThan 0) id seq (ng_recoveredList g1))\<rparr>, [])
         else (case AddPacketsToNackList clock (ng_lastSeq g1 + 1) seq g1 of
                 None \<Rightarrow> None
               | Some (g2, out) \<Rightarrow>
                   (case GetNackBatch SEQ nowMs (g2\<lparr>ng_lastSeq := seq\<rparr>) of
                      (batch, g3) \<Rightarrow>
                        Some (if ng_timerActive g3 then g3 else MayRunTimer g3,
                              out @ nack_request batch))))"

definition NackGenerator_ReceivePacket ::
  "(u16 \<Rightarrow> u64) \<Rightarrow> u64 \<Rightarrow> rtp_packet \<Rightarrow> bool \<Rightarrow> nack_generator
     \<Rightarrow> (bool \<times> nack_generator \<times> nack_output list) option" where
  "NackGenerator_ReceivePacket clock nowMs packet isRecovered g =
     (let seq = rp_sequenceNumber packet; isKeyFrame = rp_isKeyFrame packet in
      if \<not> ng_started g
      then Some (False,
                 g\<lparr>ng_started := True, ng_lastSeq := seq,
                   ng_keyFrameList := (if isKeyFrame
                                       then os_insert (SeqLowerThan 0) id seq (ng_keyFrameList g)
                                       else ng_keyFrameList g)\<rparr>, [])
      else if seq = ng_lastSeq g then Some (False, g, [])
      else if SeqLowerThan 0 seq (ng_lastSeq g)
      then (case ReceivePacket_older seq g of (r, g') \<Rightarrow> Some (r, g', []))
      else (case ReceivePacket_newer clock nowMs seq isKeyFrame isRecovered g of
              None \<Rightarrow> None
            | Some (g', out) \<Rightarrow> Some (False, g', out)))"

section \<open>The list invariant\<close>

text \<open>
  Items ordered by number, each between 1 and 10000 behind \<open>e\<close> (and more than \<open>n\<close> behind it),
  with its own number in the record and fewer than the maximum of retries.
\<close>

definition nack_item_ok :: "u16 \<Rightarrow> nat \<Rightarrow> u16 \<times> nack_info \<Rightarrow> bool" where
  "nack_item_ok e n = (\<lambda>(k, info). n < unat (e - k) \<and> unat (e - k) \<le> MaxPacketAge
     \<and> ni_seq info = k \<and> ni_sendAtSeq info = k \<and> ni_retries info < MaxNackRetries)"

definition nack_items :: "u16 \<Rightarrow> nat \<Rightarrow> nack_list \<Rightarrow> bool" where
  "nack_items e n items \<longleftrightarrow>
     sorted_wrt (\<lambda>x y. SeqLowerThan 0 (fst x) (fst y)) items \<and> list_all (nack_item_ok e n) items"

definition ng_inv :: "nack_generator \<Rightarrow> bool" where
  "ng_inv g \<longleftrightarrow>
     nack_items (ng_lastSeq g) 0 (ng_nackList g) \<and>
     length (ng_nackList g) \<le> MaxNackPackets \<and>
     (\<not> ng_started g \<longrightarrow> ng_nackList g = []) \<and>
     (ng_nackList g \<noteq> [] \<longrightarrow> ng_timerActive g)"

lemma window_age:
  fixes e x :: u16
  shows "x \<in> seq_window 0 (e - 32767) \<longleftrightarrow> unat (e - x) \<le> 32767"
proof -
  have "x - (e - 32767) = 32767 - (e - x)" by simp
  then have "seq_off 0 (e - 32767) x = unat (32767 - (e - x))"
    by (simp only: seq_off_def MaxValue_def if_True refl) simp
  also have "\<dots> = (if unat (e - x) \<le> 32767 then 32767 - unat (e - x) else 32767 + 65536 - unat (e - x))"
    by (subst unat_sub_wrap) simp
  finally show ?thesis
    using unsigned_less [of "e - x", where 'a = nat]
    by (auto simp: seq_window_def seq_half_def seq_bits_def split: if_splits)
qed

lemma lower_age:
  fixes e x y :: u16
  assumes "unat (e - x) \<le> 32767" and "unat (e - y) \<le> 32767"
  shows "SeqLowerThan 0 x y \<longleftrightarrow> unat (e - y) < unat (e - x)"
proof -
  have eq: "unat (e - y) + unat (y - x) = unat (e - x) \<or> unat (e - y) + unat (y - x) = unat (e - x) + 65536"
    using unsigned_less [of "e - y", where 'a = nat] unsigned_less [of "y - x", where 'a = nat]
      unsigned_less [of "e - x", where 'a = nat] unat_add_wrap [of "e - y" "y - x"]
    by (auto simp: mod_if split: if_splits)
  have "seq_off 0 x y = unat (y - x)" by (simp add: seq_off_def MaxValue_def)
  then have "SeqLowerThan 0 x y \<longleftrightarrow> 0 < unat (y - x) \<and> (unat (y - x) < 32768 \<or> unat (y - x) = 32768 \<and> y < x)"
    using SeqLowerThan_off [of 0 x y] by (simp add: seq_half_def seq_bits_def)
  moreover have "unat (y - x) < 65536" using unsigned_less [of "y - x", where 'a = nat] by simp
  ultimately show ?thesis using eq assms by auto
qed

lemma nack_items_Nil [simp]: "nack_items e n []"
  by (simp add: nack_items_def)

lemma nack_items_window:
  "nack_items e n items \<Longrightarrow> fst ` set items \<subseteq> seq_window 0 (e - 32767)"
  by (force simp: nack_items_def nack_item_ok_def list_all_iff window_age MaxPacketAge_def)

lemma nack_items_sub:
  assumes "nack_items e n items" and "sorted_wrt (\<lambda>x y. SeqLowerThan 0 (fst x) (fst y)) items'"
    and "set items' \<subseteq> set items"
  shows "nack_items e n items'"
  using assms by (auto simp: nack_items_def list_all_iff)

lemma nack_items_drop: "nack_items e n items \<Longrightarrow> nack_items e n (drop k items)"
  by (rule nack_items_sub) (auto simp: nack_items_def sorted_wrt_drop dest: in_set_dropD)

lemma nack_items_less: "nack_items e m items \<Longrightarrow> n \<le> m \<Longrightarrow> nack_items e n items"
  by (auto simp: nack_items_def list_all_iff nack_item_ok_def)

lemma erase_lower_items:
  assumes it: "nack_items l 0 items" and n: "unat (e - l) = Suc n" "n \<le> MaxNackPackets"
  shows "nack_items e n (erase_lower fst (e - of_nat MaxPacketAge) items)"
proof -
  let ?B = "e - of_nat MaxPacketAge"
  have age: "unat (e - k) = unat (l - k) + Suc n" if "unat (l - k) \<le> MaxPacketAge" for k
    using that n unat_add_wrap [of "l - k" "e - l"] by (simp add: nack_consts)
  have B: "unat (e - ?B) = 10000" by (simp add: MaxPacketAge_def)
  then have "?B \<in> seq_window 0 (e - 32767)" by (subst window_age) simp
  note B_win = this
  have win: "fst ` set items \<subseteq> seq_window 0 (e - 32767)"
    using it n age by (force simp: nack_items_def list_all_iff nack_item_ok_def window_age nack_consts)
  have s: "sorted_wrt (\<lambda>x y. SeqLowerThan 0 (fst x) (fst y)) items"
    using it by (simp add: nack_items_def)
  have eq: "erase_lower fst ?B items = filter (\<lambda>x. \<not> SeqLowerThan 0 (fst x) ?B) items"
    using seq_order.lower_bound_split [OF s win B_win]
    by (simp add: erase_lower_def os_erase_range_def)
  have ok: "nack_item_ok e n x" if "nack_item_ok l 0 x" "\<not> SeqLowerThan 0 (fst x) ?B" for x
  proof -
    obtain k info where x: "x = (k, info)" by (cases x)
    have a: "unat (e - k) = unat (l - k) + Suc n" using that x by (intro age) (simp add: nack_item_ok_def)
    with that x n have "unat (e - k) \<le> 32767" by (simp add: nack_item_ok_def nack_consts)
    with lower_age [of e k ?B] B that(2) x have "unat (e - k) \<le> MaxPacketAge"
      by (simp add: MaxPacketAge_def)
    with a that(1) x show ?thesis by (simp add: nack_item_ok_def)
  qed
  show ?thesis
    unfolding eq using it s ok by (auto simp: nack_items_def list_all_iff sorted_wrt_filter)
qed

text \<open>The \<open>n\<close> numbers before \<open>e\<close> are listed, unless they were recovered.\<close>

definition lost_listed ::
  "(u16 \<Rightarrow> u64) \<Rightarrow> u16 list \<Rightarrow> u16 \<Rightarrow> nat \<Rightarrow> nack_list \<Rightarrow> bool" where
  "lost_listed clock recovered e n items \<longleftrightarrow>
     (\<forall>s. 0 < unat (e - s) \<and> unat (e - s) \<le> n \<and> os_find (SeqLowerThan 0) id s recovered = None
         \<longrightarrow> (s, NackInfo_new (clock s) s s) \<in> set items)"

lemma add_nacks_ok:
  assumes "nack_items e n items" and "unat (e - seq) = n" and "n \<le> MaxNackPackets"
  shows "\<exists>items'. add_nacks clock recovered n seq items = Some items' \<and> nack_items e 0 items'
    \<and> length items' \<le> length items + n \<and> set items \<subseteq> set items'
    \<and> lost_listed clock recovered e n items'"
  using assms
proof (induction n arbitrary: seq items)
  case 0
  then show ?case by (auto simp: lost_listed_def)
next
  case (Suc n)
  let ?new = "(seq, NackInfo_new (clock seq) seq seq)"
  have next_seq: "unat (e - (seq + 1)) = n"
    using Suc.prems(2) unat_sub_wrap [of "e - seq" 1] unfolding diff_diff_eq by simp
  have last: "unat (e - s) \<le> n" if "unat (e - s) \<le> Suc n" "s \<noteq> seq" for s
  proof -
    from that(2) have "e - s \<noteq> e - seq" by simp
    then have "unat (e - s) \<noteq> unat (e - seq)" by (simp only: word_unat_eq_iff) simp
    with that(1) Suc.prems(2) show ?thesis by simp
  qed
  have srt: "sorted_wrt (\<lambda>x y. SeqLowerThan 0 (fst x) (fst y)) items"
    using Suc.prems(1) by (simp add: nack_items_def)
  have win: "fst ` set items \<subseteq> seq_window 0 (e - 32767)" "seq \<in> seq_window 0 (e - 32767)"
    using Suc.prems nack_items_window [OF Suc.prems(1)] by (simp_all add: window_age nack_consts)
  have new: "seq \<notin> fst ` set items"
    using Suc.prems by (force simp: nack_items_def list_all_iff nack_item_ok_def)
  then have f: "os_find (SeqLowerThan 0) fst seq items = None"
    using seq_order.find_iff [OF srt win] by simp
  show ?case
  proof (cases "os_find (SeqLowerThan 0) id seq recovered")
    case None
    let ?items = "os_insert (SeqLowerThan 0) fst ?new items"
    have ins: "sorted_wrt (\<lambda>x y. SeqLowerThan 0 (fst x) (fst y)) ?items"
      "set ?items = insert ?new (set items)" "length ?items = Suc (length items)"
      using seq_order.insert_spec [OF srt win(1), of ?new] win(2) new by auto
    have "nack_items e n ?items"
      using Suc.prems ins by (auto simp: nack_items_def list_all_iff nack_item_ok_def NackInfo_new_def nack_consts)
    from Suc.IH [OF this next_seq] Suc.prems(3) obtain items' where
      r: "add_nacks clock recovered n (seq + 1) ?items = Some items'" "nack_items e 0 items'"
        "length items' \<le> Suc (length items) + n" "insert ?new (set items) \<subseteq> set items'"
        "lost_listed clock recovered e n items'"
      unfolding ins by auto
    from r(4,5) last have "lost_listed clock recovered e (Suc n) items'"
      unfolding lost_listed_def by blast
    with f None r show ?thesis by (intro exI [of _ items']) simp
  next
    case (Some i)
    have "nack_items e n items" using Suc.prems(1) by (rule nack_items_less) simp
    from Suc.IH [OF this next_seq] Suc.prems(3) obtain items' where
      r: "add_nacks clock recovered n (seq + 1) items = Some items'" "nack_items e 0 items'"
        "length items' \<le> length items + n" "set items \<subseteq> set items'"
        "lost_listed clock recovered e n items'"
      by auto
    from r(5) last Some have "lost_listed clock recovered e (Suc n) items'"
      unfolding lost_listed_def by (metis option.distinct(1))
    with f Some r show ?thesis by (intro exI [of _ items']) simp
  qed
qed

text \<open>No recovered number is added to a list.\<close>

definition recovered_not_added :: "u16 list \<Rightarrow> nack_list \<Rightarrow> nack_list \<Rightarrow> bool" where
  "recovered_not_added recovered items items' \<longleftrightarrow>
     (\<forall>s. os_find (SeqLowerThan 0) id s recovered \<noteq> None \<longrightarrow> s \<in> fst ` set items' \<longrightarrow> s \<in> fst ` set items)"

lemma add_nacks_recovered:
  "add_nacks clock recovered n seq items = Some items' \<Longrightarrow> recovered_not_added recovered items items'"
proof (induction n arbitrary: seq items)
  case 0
  then show ?case by (simp add: recovered_not_added_def)
next
  case (Suc n)
  let ?new = "(seq, NackInfo_new (clock seq) seq seq)"
  show ?case
  proof (cases "os_find (SeqLowerThan 0) id seq recovered")
    case None
    with Suc.prems have "add_nacks clock recovered n (seq + 1) (os_insert (SeqLowerThan 0) fst ?new items) = Some items'"
      by (simp split: if_splits)
    note ih = Suc.IH [OF this]
    have sub: "fst ` set (os_insert (SeqLowerThan 0) fst ?new items) \<subseteq> insert seq (fst ` set items)"
      using image_mono [OF set_os_insert_subset [of "SeqLowerThan 0" fst ?new items], of fst] by simp
    show ?thesis
      unfolding recovered_not_added_def
    proof (intro allI impI)
      fix t
      assume t: "os_find (SeqLowerThan 0) id t recovered \<noteq> None" "t \<in> fst ` set items'"
      with ih have "t \<in> fst ` set (os_insert (SeqLowerThan 0) fst ?new items)"
        unfolding recovered_not_added_def by blast
      with sub t(1) None show "t \<in> fst ` set items" by auto
    qed
  qed (use Suc in \<open>auto split: if_splits\<close>)
qed

lemma recovered_not_added_subset:
  "recovered_not_added recovered ys zs \<Longrightarrow> set ys \<subseteq> set xs \<Longrightarrow> recovered_not_added recovered xs zs"
  unfolding recovered_not_added_def by (meson image_mono subsetD)

lemma RemoveNackItems_loop_Nil: "RemoveNackItems_loop n xs [] = (xs, [])"
  by (simp add: RemoveNackItems_loop.simps)

lemma RemoveNackItems_loop_drop:
  "\<exists>k. fst (RemoveNackItems_loop n nackList keyFrameList) = drop k nackList"
proof (induction n nackList keyFrameList rule: RemoveNackItems_loop.induct)
  case (1 n nackList keyFrameList)
  obtain r nackList' keyFrameList' where
    s: "RemoveNackItemsUntilKeyFrame nackList keyFrameList = (r, nackList', keyFrameList')"
    by (metis prod_cases3)
  obtain k where k: "nackList' = drop k nackList" using RemoveNackItems_drop [OF s] by blast
  show ?case
  proof (cases "r \<and> nack_list_full n nackList'")
    case True
    with 1 s obtain j where "fst (RemoveNackItems_loop n nackList' keyFrameList') = drop j nackList'"
      by metis
    with True s k show ?thesis
      by (subst RemoveNackItems_loop.simps) auto
  next
    case False
    with s k show ?thesis by (subst RemoveNackItems_loop.simps) auto
  qed
qed

lemma not_full_length:
  assumes "\<not> nack_list_full n items" and "length items \<le> MaxNackPackets"
  shows "length items + unat n \<le> MaxNackPackets"
proof -
  have "unat (of_nat (length items) :: u16) = length items"
    using assms(2) by (intro unat_of_nat_less) (simp add: nack_consts)
  with assms(1) show ?thesis by (simp add: nack_list_full_def)
qed

lemma AddPacketsToNackList_ok:
  fixes seqEnd :: u16
  assumes it: "nack_items (ng_lastSeq g) 0 (ng_nackList g)" and len: "length (ng_nackList g) \<le> MaxNackPackets"
    and ne: "seqEnd \<noteq> ng_lastSeq g"
  shows "\<exists>g' out items kfs. AddPacketsToNackList clock (ng_lastSeq g + 1) seqEnd g = Some (g', out)
    \<and> g' = g\<lparr>ng_keyFrameList := kfs, ng_nackList := items\<rparr>
    \<and> nack_items seqEnd 0 items \<and> length items \<le> MaxNackPackets
    \<and> recovered_not_added (ng_recoveredList g) (ng_nackList g) items
    \<and> (out = [KeyFrameRequired] \<and> items = []
         \<and> MaxNackPackets < length (ng_nackList g) + (unat (seqEnd - ng_lastSeq g) - 1)
       \<or> out = [] \<and> unat (seqEnd - ng_lastSeq g) - 1 \<le> MaxNackPackets
         \<and> lost_listed clock (ng_recoveredList g) seqEnd (unat (seqEnd - ng_lastSeq g) - 1) items)"
proof -
  define n where "n = seqEnd - (ng_lastSeq g + 1)"
  have "seqEnd - ng_lastSeq g \<noteq> 0" using ne by simp
  then have "0 < unat (seqEnd - ng_lastSeq g)" by (simp add: unat_gt_0)
  moreover have "n = (seqEnd - ng_lastSeq g) - 1" by (simp add: n_def)
  ultimately have n: "unat (seqEnd - ng_lastSeq g) = Suc (unat n)"
    using unat_sub_wrap [of "seqEnd - ng_lastSeq g" 1] by simp
  define xs where "xs = erase_lower fst (seqEnd - of_nat MaxPacketAge) (ng_nackList g)"
  obtain ys kfs where st: "(if nack_list_full n xs then RemoveNackItems_loop n xs (ng_keyFrameList g)
      else (xs, ng_keyFrameList g)) = (ys, kfs)" by (metis surj_pair)
  then have "\<exists>j. ys = drop j xs"
    using RemoveNackItems_loop_drop [of n xs "ng_keyFrameList g"] by (auto split: if_splits intro: exI [of _ 0])
  then obtain j where j: "ys = drop j xs" ..
  have xl: "length xs \<le> length (ng_nackList g)" by (simp add: xs_def erase_lower_def os_erase_range_def)
  have def: "AddPacketsToNackList clock (ng_lastSeq g + 1) seqEnd g =
      (if nack_list_full n ys
       then Some (g\<lparr>ng_keyFrameList := kfs, ng_nackList := []\<rparr>, [KeyFrameRequired])
       else (case add_nacks clock (ng_recoveredList g) (unat n) (ng_lastSeq g + 1) ys of
               None \<Rightarrow> None
             | Some zs \<Rightarrow> Some (g\<lparr>ng_keyFrameList := kfs, ng_nackList := zs\<rparr>, [])))"
    unfolding AddPacketsToNackList_def Let_def n_def [symmetric] xs_def [symmetric] st by simp
  have yl: "length ys \<le> MaxNackPackets" using j xl len by simp
  show ?thesis
  proof (cases "nack_list_full n ys")
    case True
    have "unat (of_nat (length ys) :: u16) \<le> length ys" by (simp add: unat_of_nat)
    with True j xl have "MaxNackPackets < length (ng_nackList g) + unat n"
      by (simp add: nack_list_full_def)
    with True def n show ?thesis by (auto simp: recovered_not_added_def)
  next
    case False
    from not_full_length [OF False yl] have ly: "length ys + unat n \<le> MaxNackPackets" .
    then have "nack_items seqEnd (unat n) xs"
      unfolding xs_def using it n by (intro erase_lower_items) auto
    then have ys: "nack_items seqEnd (unat n) ys" unfolding j by (rule nack_items_drop)
    have "unat (seqEnd - (ng_lastSeq g + 1)) = unat n" by (simp only: n_def)
    from add_nacks_ok [OF ys this, of clock "ng_recoveredList g"] ly obtain zs where
      zs: "add_nacks clock (ng_recoveredList g) (unat n) (ng_lastSeq g + 1) ys = Some zs"
      "nack_items seqEnd 0 zs" "length zs \<le> length ys + unat n"
      "lost_listed clock (ng_recoveredList g) seqEnd (unat n) zs" by auto
    moreover have "set ys \<subseteq> set (ng_nackList g)"
      unfolding j xs_def erase_lower_def using set_os_erase_range by (fastforce dest: in_set_dropD)
    with add_nacks_recovered [OF zs(1)] have "recovered_not_added (ng_recoveredList g) (ng_nackList g) zs"
      by (rule recovered_not_added_subset)
    ultimately show ?thesis using def False ly n by auto
  qed
qed

lemma GetNackBatch_items_ok:
  assumes "nack_items e n items"
  shows "nack_items e n (snd (GetNackBatch_items g filt nowMs items))
    \<and> fst ` set (snd (GetNackBatch_items g filt nowMs items)) \<subseteq> fst ` set items
    \<and> length (snd (GetNackBatch_items g filt nowMs items)) \<le> length items"
  using assms
proof (induction items)
  case Nil
  then show ?case by simp
next
  case (Cons x items)
  obtain k info where x: "x = (k, info)" by (cases x)
  let ?r = "GetNackBatch_items g filt nowMs items"
  from Cons.prems have xi: "nack_item_ok e n x" "nack_items e n items"
    "\<forall>k' \<in> fst ` set items. SeqLowerThan 0 k k'"
    by (auto simp: nack_items_def x)
  with Cons.IH have r: "nack_items e n (snd ?r)" "fst ` set (snd ?r) \<subseteq> fst ` set items"
    "length (snd ?r) \<le> length items" by auto
  then have "\<forall>k' \<in> fst ` set (snd ?r). SeqLowerThan 0 k k'" using xi(3) by blast
  then have c: "nack_items e n ((k, info') # snd ?r)" if "nack_item_ok e n (k, info')" for info'
    using that r(1) by (auto simp: nack_items_def)
  moreover have "nack_item_ok e n (k, nack_sent nowMs info)"
    if "\<not> MaxNackRetries \<le> ni_retries (nack_sent nowMs info)"
    using xi(1) that unfolding x nack_item_ok_def nack_sent_def by simp
  moreover have "nack_items e n ((k, info) # snd ?r)" using c xi(1) x by simp
  ultimately show ?case
    using r(1) subset_insertI2 [OF r(2)] insert_mono [OF r(2), of k] r(3) x
    by (cases ?r) (simp add: le_SucI)
qed

lemma GetNackBatch_items_fst:
  "fst (GetNackBatch_items g filt nowMs items) =
     map (\<lambda>(k, info). ni_seq info) (filter (\<lambda>(k, info). nack_due g filt nowMs info) items)"
  by (induction items) (auto split: prod.split)

lemma GetNackBatch_keeps:
  assumes "(k, info) \<in> set items" and "\<not> nack_due g filt nowMs info"
  shows "(k, info) \<in> set (snd (GetNackBatch_items g filt nowMs items))"
  using assms by (induction items) (auto split: prod.split)

lemma GetNackBatch_resent:
  assumes "(k, info) \<in> set items" and "nack_due g filt nowMs info"
    and "ni_retries info + 1 < MaxNackRetries"
  shows "(k, nack_sent nowMs info) \<in> set (snd (GetNackBatch_items g filt nowMs items))"
  using assms
proof (induction items)
  case Nil
  then show ?case by simp
next
  case (Cons x items)
  from Cons.prems(3) have "\<not> MaxNackRetries \<le> ni_retries (nack_sent nowMs info)"
    by (simp add: nack_sent_def not_le)
  with Cons show ?case by (cases x) (auto split: prod.split)
qed

lemma GetNackBatch_keys:
  "x \<in> set (snd (GetNackBatch_items g filt nowMs items)) \<Longrightarrow> fst x \<in> fst ` set items"
proof (induction items)
  case Nil
  then show ?case by simp
next
  case (Cons y items)
  then show ?case
    by (cases y; cases "GetNackBatch_items g filt nowMs items") (auto split: if_splits)
qed

lemma GetNackBatch_dropped:
  assumes "k \<in> fst ` set (snd (GetNackBatch_items g filt nowMs items))"
    and "distinct (map fst items)" and "(k, info) \<in> set items" and "nack_due g filt nowMs info"
  shows "ni_retries info + 1 < MaxNackRetries"
  using assms
proof (induction items)
  case Nil
  then show ?case by simp
next
  case (Cons x items)
  show ?case
  proof (cases "x = (k, info)")
    case True
    with Cons.prems(2) have "k \<notin> fst ` set (snd (GetNackBatch_items g filt nowMs items))"
      using GetNackBatch_keys [of _ g filt nowMs items] by fastforce
    with True Cons.prems(1,4) show ?thesis
      by (cases "GetNackBatch_items g filt nowMs items") (auto simp: nack_sent_def not_le split: if_splits)
  next
    case False
    with Cons.prems(3) have mem: "(k, info) \<in> set items" by auto
    then have "k \<in> fst ` set items" by force
    with Cons.prems(2) have "fst x \<noteq> k" by auto
    then have "k \<in> fst ` set (snd (GetNackBatch_items g filt nowMs items))"
      using Cons.prems(1)
      by (cases x; cases "GetNackBatch_items g filt nowMs items") (auto split: if_splits)
    with mem Cons show ?thesis by simp
  qed
qed

lemma GetNackBatch_inv:
  assumes "nack_items (ng_lastSeq g) 0 (ng_nackList g)" and "length (ng_nackList g) \<le> MaxNackPackets"
  shows "\<exists>items. snd (GetNackBatch filt nowMs g) = g\<lparr>ng_nackList := items\<rparr>
    \<and> items = snd (GetNackBatch_items g filt nowMs (ng_nackList g))
    \<and> nack_items (ng_lastSeq g) 0 items \<and> length items \<le> MaxNackPackets"
  using GetNackBatch_items_ok [OF assms(1), of g filt nowMs] assms(2)
  by (auto simp: GetNackBatch_def split: prod.split)

lemma OnTimer_inv:
  assumes "ng_inv g"
  shows "ng_inv (fst (NackGenerator_OnTimer nowMs g))"
proof -
  let ?g = "g\<lparr>ng_timerActive := False\<rparr>"
  from assms have "nack_items (ng_lastSeq ?g) 0 (ng_nackList ?g)" "length (ng_nackList ?g) \<le> MaxNackPackets"
    by (simp_all add: ng_inv_def)
  from GetNackBatch_inv [OF this, of TIME nowMs] obtain items where
    r: "snd (GetNackBatch TIME nowMs ?g) = ?g\<lparr>ng_nackList := items\<rparr>"
      "items = snd (GetNackBatch_items ?g TIME nowMs (ng_nackList ?g))"
      "nack_items (ng_lastSeq ?g) 0 items" "length items \<le> MaxNackPackets" by blast
  have "ng_nackList g = [] \<Longrightarrow> items = []" using r(2) by simp
  with r assms show ?thesis
    by (auto simp: NackGenerator_OnTimer_def MayRunTimer_def ng_inv_def split: prod.splits)
qed

lemma older_inv:
  assumes "ng_inv g"
  shows "ng_inv (snd (ReceivePacket_older seq g))"
proof (cases "os_find (SeqLowerThan 0) fst seq (ng_nackList g)")
  case None
  with assms show ?thesis by (simp add: ReceivePacket_older_def)
next
  case (Some i)
  then have "i < length (ng_nackList g)" by (auto dest: os_find_SomeD)
  moreover have "nack_items (ng_lastSeq g) 0 (os_erase i (ng_nackList g))"
    using assms by (intro nack_items_sub [OF _ sorted_wrt_os_erase set_os_erase])
      (auto simp: ng_inv_def nack_items_def)
  ultimately show ?thesis using assms Some
    by (auto simp: ReceivePacket_older_def ng_inv_def length_os_erase)
qed

lemma newer_result:
  assumes inv: "ng_inv g" and st: "ng_started g" and ne: "seq \<noteq> ng_lastSeq g"
  obtains g3 g5 out items where
    "ReceivePacket_newer clock nowMs seq isKeyFrame False g =
       Some (g5, out @ nack_request (fst (GetNackBatch_items g3 SEQ nowMs items)))"
    "ng_lastSeq g3 = seq" "ng_sendNackDelayMs g3 = ng_sendNackDelayMs g"
    "ng_nackList g5 = snd (GetNackBatch_items g3 SEQ nowMs items)" "ng_inv g5" "nack_items seq 0 items"
    "ng_sendNackDelayMs g5 = ng_sendNackDelayMs g"
    "recovered_not_added (ng_recoveredList g) (ng_nackList g) items"
    "out = [KeyFrameRequired] \<and> items = []
         \<and> MaxNackPackets < length (ng_nackList g) + (unat (seq - ng_lastSeq g) - 1)
       \<or> out = [] \<and> unat (seq - ng_lastSeq g) - 1 \<le> MaxNackPackets
         \<and> lost_listed clock (ng_recoveredList g) seq (unat (seq - ng_lastSeq g) - 1) items"
proof -
  define kfs where "kfs = erase_lower id (seq - of_nat MaxPacketAge)
    (if isKeyFrame then os_insert (SeqLowerThan 0) id seq (ng_keyFrameList g) else ng_keyFrameList g)"
  define g1 where "g1 = g\<lparr>ng_keyFrameList := kfs\<rparr>"
  have same: "ng_nackList g1 = ng_nackList g" "ng_lastSeq g1 = ng_lastSeq g"
    "ng_recoveredList g1 = ng_recoveredList g" "ng_sendNackDelayMs g1 = ng_sendNackDelayMs g"
    "ng_started g1" using st by (simp_all add: g1_def)
  have pre: "nack_items (ng_lastSeq g1) 0 (ng_nackList g1)" "length (ng_nackList g1) \<le> MaxNackPackets"
    "seq \<noteq> ng_lastSeq g1" using inv ne same by (simp_all add: ng_inv_def)
  obtain g2 out items kfs2 where
    a: "AddPacketsToNackList clock (ng_lastSeq g1 + 1) seq g1 = Some (g2, out)"
    "g2 = g1\<lparr>ng_keyFrameList := kfs2, ng_nackList := items\<rparr>"
    "nack_items seq 0 items" "length items \<le> MaxNackPackets"
    "recovered_not_added (ng_recoveredList g1) (ng_nackList g1) items"
    and o: "out = [KeyFrameRequired] \<and> items = []
       \<and> MaxNackPackets < length (ng_nackList g1) + (unat (seq - ng_lastSeq g1) - 1)
     \<or> out = [] \<and> unat (seq - ng_lastSeq g1) - 1 \<le> MaxNackPackets
       \<and> lost_listed clock (ng_recoveredList g1) seq (unat (seq - ng_lastSeq g1) - 1) items"
    using AddPacketsToNackList_ok [OF pre, of clock] by blast
  let ?g3 = "g2\<lparr>ng_lastSeq := seq\<rparr>"
  have n3: "ng_nackList ?g3 = items" using a(2) by simp
  have pre3: "nack_items (ng_lastSeq ?g3) 0 (ng_nackList ?g3)" "length (ng_nackList ?g3) \<le> MaxNackPackets"
    using a(2,3,4) by simp_all
  obtain items3 where b: "snd (GetNackBatch SEQ nowMs ?g3) = ?g3\<lparr>ng_nackList := items3\<rparr>"
    "items3 = snd (GetNackBatch_items ?g3 SEQ nowMs items)"
    "nack_items seq 0 items3" "length items3 \<le> MaxNackPackets"
    using GetNackBatch_inv [OF pre3, of SEQ nowMs] unfolding n3 by auto
  have fb: "fst (GetNackBatch SEQ nowMs ?g3) = fst (GetNackBatch_items ?g3 SEQ nowMs items)"
    unfolding GetNackBatch_def n3 by (simp split: prod.split)
  let ?g4 = "?g3\<lparr>ng_nackList := items3\<rparr>"
  have gb: "GetNackBatch SEQ nowMs ?g3 = (fst (GetNackBatch_items ?g3 SEQ nowMs items), ?g4)"
    by (simp only: prod_eq_iff fst_conv snd_conv b(1) fb simp_thms)
  let ?g5 = "if ng_timerActive ?g4 then ?g4 else MayRunTimer ?g4"
  show thesis
  proof
    show "ReceivePacket_newer clock nowMs seq isKeyFrame False g =
        Some (?g5, out @ nack_request (fst (GetNackBatch_items ?g3 SEQ nowMs items)))"
      using a(1)
      unfolding ReceivePacket_newer_def Let_def kfs_def [symmetric] g1_def [symmetric]
      by (simp add: gb)
    show "ng_nackList ?g5 = snd (GetNackBatch_items ?g3 SEQ nowMs items)"
      using b(2) by (simp add: MayRunTimer_def)
    have "ng_started g2" using a(2) same(5) by simp
    then show "ng_inv ?g5" using b(3,4) by (auto simp: ng_inv_def MayRunTimer_def)
    show "ng_sendNackDelayMs ?g3 = ng_sendNackDelayMs g" using a(2) same by simp
    then show "ng_sendNackDelayMs ?g5 = ng_sendNackDelayMs g" by (simp add: MayRunTimer_def)
  qed (use a(3,5) o same in simp_all)
qed

lemma newer_inv:
  assumes inv: "ng_inv g" and st: "ng_started g" and ne: "seq \<noteq> ng_lastSeq g"
  shows "\<exists>g' out. ReceivePacket_newer clock nowMs seq isKeyFrame isRecovered g = Some (g', out) \<and> ng_inv g'"
proof (cases isRecovered)
  case True
  with inv st show ?thesis
    by (simp add: ReceivePacket_newer_def Let_def ng_inv_def)
next
  case False
  obtain g' out where "ReceivePacket_newer clock nowMs seq isKeyFrame False g = Some (g', out)" "ng_inv g'"
    by (rule newer_result [OF assms, of clock nowMs isKeyFrame]) (rule that; assumption)
  with False show ?thesis by simp
qed

section \<open>Runs\<close>

text \<open>The calls the owning stream makes, and the timer.\<close>

datatype nack_event =
    NackReceivePacket "u16 \<Rightarrow> u64" u64 rtp_packet bool
  | NackTimer u64
  | NackUpdateRtt u32
  | NackReset

fun nack_step :: "nack_generator \<Rightarrow> nack_event \<Rightarrow> (nack_generator \<times> nack_output list) option" where
  "nack_step g (NackReceivePacket clock nowMs packet isRecovered) =
     (case NackGenerator_ReceivePacket clock nowMs packet isRecovered g of
        None \<Rightarrow> None
      | Some (nacked, g', out) \<Rightarrow> Some (g', out))"
| "nack_step g (NackTimer nowMs) = Some (NackGenerator_OnTimer nowMs g)"
| "nack_step g (NackUpdateRtt rtt) = Some (NackGenerator_UpdateRtt rtt g, [])"
| "nack_step g NackReset = Some (NackGenerator_Reset g, [])"

lemma ReceivePacket_ok:
  assumes "ng_inv g"
  shows "\<exists>r g' out. NackGenerator_ReceivePacket clock nowMs packet isRecovered g = Some (r, g', out) \<and> ng_inv g'"
proof -
  let ?seq = "rp_sequenceNumber packet"
  consider "\<not> ng_started g" | "ng_started g" "?seq = ng_lastSeq g"
    | "ng_started g" "?seq \<noteq> ng_lastSeq g" "SeqLowerThan 0 ?seq (ng_lastSeq g)"
    | "ng_started g" "?seq \<noteq> ng_lastSeq g" "\<not> SeqLowerThan 0 ?seq (ng_lastSeq g)" by blast
  then show ?thesis
  proof cases
    case 1
    with assms show ?thesis by (auto simp: NackGenerator_ReceivePacket_def Let_def ng_inv_def)
  next
    case 2
    with assms show ?thesis by (auto simp: NackGenerator_ReceivePacket_def Let_def)
  next
    case 3
    with older_inv [OF assms, of ?seq] show ?thesis
      by (auto simp: NackGenerator_ReceivePacket_def Let_def split: prod.splits)
  next
    case 4
    with newer_inv [OF assms 4(1,2), of clock nowMs "rp_isKeyFrame packet" isRecovered] show ?thesis
      by (auto simp: NackGenerator_ReceivePacket_def Let_def)
  qed
qed

interpretation nack_machine: safe_machine nack_step ng_inv "\<lambda>g e. True"
proof
  fix g e
  assume inv: "ng_inv g"
  show "\<exists>g' out. nack_step g e = Some (g', out) \<and> ng_inv g'"
  proof (cases e)
    case (NackReceivePacket clock nowMs packet isRecovered)
    with ReceivePacket_ok [OF inv, of clock nowMs packet isRecovered] show ?thesis by auto
  next
    case (NackTimer nowMs)
    with OnTimer_inv [OF inv, of nowMs] show ?thesis by (cases "NackGenerator_OnTimer nowMs g") auto
  next
    case (NackUpdateRtt rtt)
    with inv show ?thesis by (simp add: NackGenerator_UpdateRtt_def ng_inv_def)
  next
    case NackReset
    with inv show ?thesis by (simp add: NackGenerator_Reset_def ng_inv_def)
  qed
qed

lemma os_erase_filter:
  assumes "distinct (map f xs)" and "i < length xs"
  shows "os_erase i xs = filter (\<lambda>x. f x \<noteq> f (xs ! i)) xs"
proof -
  have "xs = take i xs @ xs ! i # drop (Suc i) xs" using assms(2) by (rule id_take_nth_drop)
  then have "distinct (map f (take i xs @ xs ! i # drop (Suc i) xs))" using assms(1) by simp
  then have "\<forall>x \<in> set (take i xs @ drop (Suc i) xs). f x \<noteq> f (xs ! i)"
    by (simp add: image_iff) (metis Un_iff)
  then have "filter (\<lambda>x. f x \<noteq> f (xs ! i)) (take i xs @ xs ! i # drop (Suc i) xs)
      = take i xs @ drop (Suc i) xs" by simp
  then show ?thesis unfolding os_erase_def using id_take_nth_drop [OF assms(2)] by simp
qed

lemma nack_items_distinct:
  assumes "nack_items e n items"
  shows "distinct (map fst items)"
proof -
  have "sorted_wrt (\<lambda>x y. SeqLowerThan 0 (fst x) (fst y)) items" using assms by (simp add: nack_items_def)
  then show ?thesis by (induction items) auto
qed

lemma nack_find:
  assumes inv: "nack_items l 0 items" and low: "SeqLowerThan 0 seq l"
  shows "case os_find (SeqLowerThan 0) fst seq items of
      None \<Rightarrow> seq \<notin> fst ` set items
    | Some i \<Rightarrow> i < length items \<and> fst (items ! i) = seq"
proof -
  have "0 < unat (l - seq)" and "unat (l - seq) \<le> 32768"
    using low SeqLowerThan_off [of 0 seq l]
    by (auto simp: seq_half_def seq_bits_def seq_off_def MaxValue_def)
  then have "unat ((l - 1) - seq) \<le> 32767"
    using unat_sub_wrap [of "l - seq" 1] by (simp add: diff_right_commute)
  then have w: "seq \<in> seq_window 0 ((l - 1) - 32767)" by (subst window_age)
  have "unat ((l - 1) - k) \<le> 32767" if "k \<in> fst ` set items" for k
    using inv that unat_sub_wrap [of "l - k" 1]
    by (force simp: nack_items_def list_all_iff nack_item_ok_def nack_consts diff_right_commute)
  then have ws: "fst ` set items \<subseteq> seq_window 0 ((l - 1) - 32767)"
    by (simp only: subset_iff window_age) simp
  have s: "sorted_wrt (\<lambda>x y. SeqLowerThan 0 (fst x) (fst y)) items" using inv by (simp add: nack_items_def)
  show ?thesis
    using seq_order.find_iff [OF s ws w] seq_order.find_nth [OF _ ws w] by (auto split: option.split)
qed

lemma OnTimer_repeats:
  assumes inv: "ng_inv g" and mem: "(k, info) \<in> set (ng_nackList g)"
    and delay: "ng_sendNackDelayMs g = 0 \<or> ucast (ng_sendNackDelayMs g) \<le> nowMs - ni_createdAtMs info"
    and due: "ni_sentAtMs info = 0 \<or> ucast (ng_rtt g) \<le> nowMs - ni_sentAtMs info"
  shows "ng_timerActive g \<and>
    (\<exists>g' batch. NackGenerator_OnTimer nowMs g = (g', [NackRequired batch]) \<and> k \<in> set batch
      \<and> (k \<in> fst ` set (ng_nackList g') \<longleftrightarrow> ni_retries info + 1 < MaxNackRetries))"
proof -
  let ?g = "g\<lparr>ng_timerActive := False\<rparr>"
  let ?r = "GetNackBatch_items ?g TIME nowMs (ng_nackList g)"
  have items: "nack_items (ng_lastSeq g) 0 (ng_nackList g)" using inv by (simp add: ng_inv_def)
  then have key: "ni_seq info = k" using mem by (auto simp: nack_items_def list_all_iff nack_item_ok_def)
  have d: "nack_due ?g TIME nowMs info" using delay due by (auto simp: nack_due_def)
  then have "(k, info) \<in> set (filter (\<lambda>(k, info). nack_due ?g TIME nowMs info) (ng_nackList g))"
    using mem by simp
  then have k: "k \<in> set (fst ?r)" unfolding GetNackBatch_items_fst using key by force
  then have ne: "fst ?r \<noteq> []" by auto
  have stays: "k \<in> fst ` set (snd ?r) \<longleftrightarrow> ni_retries info + 1 < MaxNackRetries"
  proof
    assume "ni_retries info + 1 < MaxNackRetries"
    from GetNackBatch_resent [OF mem d this] show "k \<in> fst ` set (snd ?r)" by force
  next
    assume "k \<in> fst ` set (snd ?r)"
    then show "ni_retries info + 1 < MaxNackRetries"
      using nack_items_distinct [OF items] mem d by (rule GetNackBatch_dropped)
  qed
  have "NackGenerator_OnTimer nowMs g = (MayRunTimer (?g\<lparr>ng_nackList := snd ?r\<rparr>), [NackRequired (fst ?r)])"
    using ne
    by (cases ?r) (simp add: NackGenerator_OnTimer_def GetNackBatch_def nack_request_def)
  moreover have "ng_nackList (MayRunTimer (?g\<lparr>ng_nackList := snd ?r\<rparr>)) = snd ?r" by (simp add: MayRunTimer_def)
  moreover have "ng_timerActive g" using inv mem by (auto simp: ng_inv_def)
  ultimately show ?thesis using k stays by auto
qed

text \<open>A listed item that is not due is not in the batch.\<close>

lemma not_due_not_requested:
  assumes items: "nack_items e 0 items" and mem: "(k, info) \<in> set items" and d: "\<not> nack_due g filt nowMs info"
  shows "k \<notin> set (fst (GetNackBatch_items g filt nowMs items))"
proof
  assume "k \<in> set (fst (GetNackBatch_items g filt nowMs items))"
  then obtain k' info' where x: "(k', info') \<in> set items" "nack_due g filt nowMs info'" "k = ni_seq info'"
    unfolding GetNackBatch_items_fst by auto
  with items have "k' = k" by (auto simp: nack_items_def list_all_iff nack_item_ok_def)
  with x mem eq_key_imp_eq_value [OF nack_items_distinct [OF items]] have "info' = info" by blast
  with x d show False by simp
qed

lemma newer_than_last:
  assumes "SeqHigherThan 0 seq (ng_lastSeq g)"
  shows "seq \<noteq> ng_lastSeq g" and "\<not> SeqLowerThan 0 seq (ng_lastSeq g)"
  using assms seq_trichotomy [of 0 seq "ng_lastSeq g"]
  by (cases "seq = ng_lastSeq g"; simp add: SeqHigherThan_flip)+

section \<open>Properties\<close>

text \<open>
  C3: The NACK generator never trips its assertion and stays bounded. Over any sequence of
  packets (any order, any numbers, recovered or not), timer events, RTT updates and resets, every
  call returns; the list of missing packets is ordered, holds at most 1000 numbers, all between
  1 and 10000 behind the last packet, each requested fewer than 10 times; and as long as it is
  not empty its timer runs.
\<close>

theorem NackGenerator_run_safe:
  "\<exists>g outs. run_steps nack_step (NackGenerator_new sendNackDelayMs) events = Some (g, outs) \<and> ng_inv g"
proof (rule nack_machine.run_safe)
  show "ng_inv (NackGenerator_new sendNackDelayMs)"
    by (simp add: ng_inv_def NackGenerator_new_def)
qed simp

text \<open>
  C10: Every lost packet is requested. Let a new packet arrive after a gap that fits the list, and
  take a number of the gap that was not recovered meanwhile. If no delay is configured, or it is over
  already, one NACK message is sent that names the number, and it stays listed with one request
  counted. Otherwise the number is listed, no message names it yet and the timer runs; if it fires
  in this state when the delay is over, a NACK message is sent that names it.
\<close>

theorem NackGenerator_requests_lost:
  assumes inv: "ng_inv g" and st: "ng_started g"
    and new: "SeqHigherThan 0 (rp_sequenceNumber packet) (ng_lastSeq g)"
    and fits: "length (ng_nackList g) + unat (rp_sequenceNumber packet - ng_lastSeq g) \<le> MaxNackPackets"
    and s: "0 < unat (rp_sequenceNumber packet - s)"
      "unat (rp_sequenceNumber packet - s) < unat (rp_sequenceNumber packet - ng_lastSeq g)"
    and nr: "os_find (SeqLowerThan 0) id s (ng_recoveredList g) = None"
  shows "\<exists>g' out. NackGenerator_ReceivePacket clock nowMs packet False g = Some (False, g', out) \<and>
    (if ng_sendNackDelayMs g = 0 \<or> ucast (ng_sendNackDelayMs g) \<le> nowMs - clock s
     then \<exists>batch. out = [NackRequired batch] \<and> s \<in> set batch \<and>
            (s, nack_sent nowMs (NackInfo_new (clock s) s s)) \<in> set (ng_nackList g')
     else (s, NackInfo_new (clock s) s s) \<in> set (ng_nackList g') \<and>
            (\<forall>batch. NackRequired batch \<in> set out \<longrightarrow> s \<notin> set batch) \<and> ng_timerActive g' \<and>
            (\<forall>laterMs. ucast (ng_sendNackDelayMs g) \<le> laterMs - clock s \<longrightarrow>
               (\<exists>g'' batch. NackGenerator_OnTimer laterMs g' = (g'', [NackRequired batch]) \<and> s \<in> set batch)))"
proof -
  let ?seq = "rp_sequenceNumber packet"
  let ?info = "NackInfo_new (clock s) s s"
  note ne = newer_than_last [OF new]
  obtain g3 g5 out items where
    r: "ReceivePacket_newer clock nowMs ?seq (rp_isKeyFrame packet) False g =
       Some (g5, out @ nack_request (fst (GetNackBatch_items g3 SEQ nowMs items)))"
    "ng_lastSeq g3 = ?seq" "ng_sendNackDelayMs g3 = ng_sendNackDelayMs g"
    "ng_nackList g5 = snd (GetNackBatch_items g3 SEQ nowMs items)" "ng_inv g5" "nack_items ?seq 0 items"
    "ng_sendNackDelayMs g5 = ng_sendNackDelayMs g"
    and o: "out = [KeyFrameRequired] \<and> items = []
         \<and> MaxNackPackets < length (ng_nackList g) + (unat (?seq - ng_lastSeq g) - 1)
       \<or> out = [] \<and> unat (?seq - ng_lastSeq g) - 1 \<le> MaxNackPackets
         \<and> lost_listed clock (ng_recoveredList g) ?seq (unat (?seq - ng_lastSeq g) - 1) items"
    by (rule newer_result [OF inv st ne(1), of clock nowMs "rp_isKeyFrame packet"]) (rule that; assumption)
  from o fits have out: "out = []"
    and "lost_listed clock (ng_recoveredList g) ?seq (unat (?seq - ng_lastSeq g) - 1) items" by auto
  with s nr have mem: "(s, ?info) \<in> set items" by (auto simp: lost_listed_def)
  have rec: "NackGenerator_ReceivePacket clock nowMs packet False g =
      Some (False, g5, nack_request (fst (GetNackBatch_items g3 SEQ nowMs items)))"
    using r(1) out st ne by (simp add: NackGenerator_ReceivePacket_def Let_def)
  have "SeqLowerThan 0 s ?seq" using s fits lower_age [of ?seq s ?seq] by (auto simp: nack_consts)
  then have due: "nack_due g3 SEQ nowMs ?info \<longleftrightarrow>
      ng_sendNackDelayMs g = 0 \<or> ucast (ng_sendNackDelayMs g) \<le> nowMs - clock s"
    using r(2,3) by (auto simp: nack_due_def NackInfo_new_def SeqHigherThan_flip word_gt_0)
  show ?thesis
  proof (cases "nack_due g3 SEQ nowMs ?info")
    case True
    with mem have b: "s \<in> set (fst (GetNackBatch_items g3 SEQ nowMs items))"
      unfolding GetNackBatch_items_fst by (force simp: NackInfo_new_def)
    have "(s, nack_sent nowMs ?info) \<in> set (ng_nackList g5)"
      unfolding r(4) using mem True by (rule GetNackBatch_resent) (simp add: NackInfo_new_def nack_consts)
    with rec True due b show ?thesis by (auto simp: nack_request_def)
  next
    case False
    have l: "(s, ?info) \<in> set (ng_nackList g5)" unfolding r(4) using mem False by (rule GetNackBatch_keeps)
    moreover have "s \<notin> set (fst (GetNackBatch_items g3 SEQ nowMs items))"
      by (rule not_due_not_requested [OF r(6) mem False])
    then have "\<forall>batch. NackRequired batch \<in> set (nack_request (fst (GetNackBatch_items g3 SEQ nowMs items))) \<longrightarrow> s \<notin> set batch"
      by (simp add: nack_request_def)
    moreover have "ng_timerActive g5" using r(5) l by (auto simp: ng_inv_def)
    moreover have "\<exists>g'' batch. NackGenerator_OnTimer laterMs g5 = (g'', [NackRequired batch]) \<and> s \<in> set batch"
      if "ucast (ng_sendNackDelayMs g) \<le> laterMs - clock s" for laterMs
      using OnTimer_repeats [OF r(5) l, of laterMs] that r(7) by (auto simp: NackInfo_new_def)
    ultimately show ?thesis using rec False due by auto
  qed
qed

definition nack_packet :: "u16 \<Rightarrow> rtp_packet" where
  "nack_packet seq = \<lparr>rp_ssrc = 1, rp_sequenceNumber = seq, rp_timestamp = 0, rp_payloadType = 100,
     rp_size = 100, rp_isKeyFrame = False, rp_mid = None, rp_rid = None\<rparr>"

definition example_generator :: nack_generator where
  "example_generator = (NackGenerator_new 0)\<lparr>ng_timerActive := True, ng_started := True, ng_lastSeq := 65534,
     ng_nackList := [(65530, (NackInfo_new 7 65530 65530)\<lparr>ni_retries := 2, ni_sentAtMs := 50\<rparr>)]\<rparr>"

lemma example_generator_inv: "ng_inv example_generator"
  by (simp add: ng_inv_def nack_items_def nack_item_ok_def example_generator_def NackGenerator_new_def
      NackInfo_new_def nack_consts)

theorem NackGenerator_requests_lost_witness:
  "(\<exists>g' batch. NackGenerator_ReceivePacket (\<lambda>_. 60) 60 (nack_packet 2) False example_generator
      = Some (False, g', [NackRequired batch]) \<and> 1 \<in> set batch) \<and>
   (\<exists>g' out g'' batch. NackGenerator_ReceivePacket (\<lambda>_. 60) 60 (nack_packet 2) False
        (example_generator\<lparr>ng_sendNackDelayMs := 10\<rparr>) = Some (False, g', out) \<and>
      NackGenerator_OnTimer 100 g' = (g'', [NackRequired batch]) \<and> 1 \<in> set batch)"
proof -
  have *: "ng_started (example_generator\<lparr>ng_sendNackDelayMs := d\<rparr>)"
    "SeqHigherThan 0 (rp_sequenceNumber (nack_packet 2)) (ng_lastSeq (example_generator\<lparr>ng_sendNackDelayMs := d\<rparr>))"
    "length (ng_nackList (example_generator\<lparr>ng_sendNackDelayMs := d\<rparr>))
       + unat (rp_sequenceNumber (nack_packet 2) - ng_lastSeq (example_generator\<lparr>ng_sendNackDelayMs := d\<rparr>)) \<le> MaxNackPackets"
    "0 < unat (rp_sequenceNumber (nack_packet 2) - 1)"
    "unat (rp_sequenceNumber (nack_packet 2) - 1)
       < unat (rp_sequenceNumber (nack_packet 2) - ng_lastSeq (example_generator\<lparr>ng_sendNackDelayMs := d\<rparr>))"
    "os_find (SeqLowerThan 0) id 1 (ng_recoveredList (example_generator\<lparr>ng_sendNackDelayMs := d\<rparr>)) = None" for d
    by (simp_all add: example_generator_def NackGenerator_new_def nack_packet_def SeqHigherThan_def
        MaxValue_def nack_consts os_find_def lower_bound_def)
  have inv: "ng_inv (example_generator\<lparr>ng_sendNackDelayMs := d\<rparr>)" for d
    using example_generator_inv by (simp add: ng_inv_def)
  have g: "example_generator = example_generator\<lparr>ng_sendNackDelayMs := 0\<rparr>"
    by (simp add: example_generator_def NackGenerator_new_def)
  from NackGenerator_requests_lost [OF inv *, of "\<lambda>_. 60" 60 0] NackGenerator_requests_lost [OF inv *, of "\<lambda>_. 60" 60 10]
  show ?thesis by (subst g) (fastforce simp: less_le)
qed

text \<open>
  C18: What the generator answers for an older packet. \<^verbatim>\<open>ReceivePacket\<close> returns true exactly when
  the packet was listed as missing and had been requested; in every case its number is no longer
  listed afterwards and nothing else changes.
\<close>

theorem NackGenerator_older_packet:
  assumes inv: "ng_inv g" and st: "ng_started g" and low: "SeqLowerThan 0 (rp_sequenceNumber packet) (ng_lastSeq g)"
  shows "NackGenerator_ReceivePacket clock nowMs packet isRecovered g =
    Some (\<exists>(k, info) \<in> set (ng_nackList g). k = rp_sequenceNumber packet \<and> ni_retries info \<noteq> 0,
          g\<lparr>ng_nackList := filter (\<lambda>(k, info). k \<noteq> rp_sequenceNumber packet) (ng_nackList g)\<rparr>, [])"
proof -
  let ?seq = "rp_sequenceNumber packet" and ?xs = "ng_nackList g"
  have items: "nack_items (ng_lastSeq g) 0 ?xs" using inv by (simp add: ng_inv_def)
  from low have ne: "?seq \<noteq> ng_lastSeq g" by auto
  have f: "filter (\<lambda>(k, info). k \<noteq> ?seq) ?xs = filter (\<lambda>x. fst x \<noteq> ?seq) ?xs"
    by (simp add: case_prod_beta')
  have "ReceivePacket_older ?seq g =
      (\<exists>(k, info) \<in> set ?xs. k = ?seq \<and> ni_retries info \<noteq> 0,
       g\<lparr>ng_nackList := filter (\<lambda>(k, info). k \<noteq> ?seq) ?xs\<rparr>)"
  proof (cases "os_find (SeqLowerThan 0) fst ?seq ?xs")
    case None
    with nack_find [OF items low] have out: "?seq \<notin> fst ` set ?xs" by simp
    then have "filter (\<lambda>x. fst x \<noteq> ?seq) ?xs = ?xs" by (force simp: filter_id_conv)
    moreover have "\<not> (\<exists>(k, info) \<in> set ?xs. k = ?seq \<and> ni_retries info \<noteq> 0)" using out by force
    ultimately show ?thesis using None unfolding f by (simp add: ReceivePacket_older_def)
  next
    case (Some i)
    with nack_find [OF items low] have i: "i < length ?xs" "fst (?xs ! i) = ?seq" by simp_all
    have "os_erase i ?xs = filter (\<lambda>x. fst x \<noteq> ?seq) ?xs"
      using os_erase_filter [OF nack_items_distinct [OF items] i(1)] i(2) by simp
    moreover have "(\<exists>(k, info) \<in> set ?xs. k = ?seq \<and> ni_retries info \<noteq> 0) \<longleftrightarrow> ni_retries (snd (?xs ! i)) \<noteq> 0"
    proof -
      have "x = ?xs ! i" if "x \<in> set ?xs" "fst x = ?seq" for x
        using eq_key_imp_eq_value [OF nack_items_distinct [OF items]] that i nth_mem [OF i(1)]
        by (metis prod.collapse)
      then show ?thesis unfolding case_prod_beta using i(2) nth_mem [OF i(1)] by metis
    qed
    ultimately show ?thesis using Some unfolding f by (simp add: ReceivePacket_older_def)
  qed
  with st ne low show ?thesis by (simp add: NackGenerator_ReceivePacket_def Let_def)
qed

theorem NackGenerator_older_packet_witness:
  "\<exists>g'. NackGenerator_ReceivePacket (\<lambda>_. 60) 60 (nack_packet 65530) True example_generator = Some (True, g', [])"
proof -
  have "ng_started example_generator"
    "SeqLowerThan 0 (rp_sequenceNumber (nack_packet 65530)) (ng_lastSeq example_generator)"
    by (simp_all add: example_generator_def nack_packet_def SeqLowerThan_def MaxValue_def)
  from NackGenerator_older_packet [OF example_generator_inv this, of "\<lambda>_. 60" 60 True]
  show ?thesis by (simp add: example_generator_def nack_packet_def)
qed

text \<open>
  C34: A gap that exceeds the list asks for a key frame. When more than 1000 packets are missing
  before the new one, the list ends up empty and exactly a key frame request is sent.
\<close>

theorem NackGenerator_overflow:
  assumes inv: "ng_inv g" and st: "ng_started g"
    and new: "SeqHigherThan 0 (rp_sequenceNumber packet) (ng_lastSeq g)"
    and gap: "MaxNackPackets + 1 < unat (rp_sequenceNumber packet - ng_lastSeq g)"
  shows "\<exists>g'. NackGenerator_ReceivePacket clock nowMs packet False g = Some (False, g', [KeyFrameRequired])
    \<and> ng_nackList g' = [] \<and> ng_inv g'"
proof -
  let ?seq = "rp_sequenceNumber packet"
  from new have ne: "?seq \<noteq> ng_lastSeq g" and low: "\<not> SeqLowerThan 0 ?seq (ng_lastSeq g)"
    using seq_trichotomy [of 0 ?seq "ng_lastSeq g"]
    by (cases "?seq = ng_lastSeq g"; simp add: SeqHigherThan_flip)+
  obtain g3 g5 out items where
    r: "ReceivePacket_newer clock nowMs ?seq (rp_isKeyFrame packet) False g =
       Some (g5, out @ nack_request (fst (GetNackBatch_items g3 SEQ nowMs items)))"
    "ng_nackList g5 = snd (GetNackBatch_items g3 SEQ nowMs items)" "ng_inv g5"
    and o: "out = [KeyFrameRequired] \<and> items = []
         \<and> MaxNackPackets < length (ng_nackList g) + (unat (?seq - ng_lastSeq g) - 1)
       \<or> out = [] \<and> unat (?seq - ng_lastSeq g) - 1 \<le> MaxNackPackets
         \<and> lost_listed clock (ng_recoveredList g) ?seq (unat (?seq - ng_lastSeq g) - 1) items"
    by (rule newer_result [OF inv st ne, of clock nowMs "rp_isKeyFrame packet"]) (rule that; assumption)
  from o gap have "out = [KeyFrameRequired]" "items = []" by auto
  with r st ne low show ?thesis
    by (simp add: NackGenerator_ReceivePacket_def nack_request_def Let_def)
qed

theorem NackGenerator_overflow_witness:
  "\<exists>g'. NackGenerator_ReceivePacket (\<lambda>_. 60) 60 (nack_packet 2000) False example_generator
     = Some (False, g', [KeyFrameRequired]) \<and> ng_nackList g' = []"
proof -
  have "ng_started example_generator"
    "SeqHigherThan 0 (rp_sequenceNumber (nack_packet 2000)) (ng_lastSeq example_generator)"
    "MaxNackPackets + 1 < unat (rp_sequenceNumber (nack_packet 2000) - ng_lastSeq example_generator)"
    by (simp_all add: example_generator_def nack_packet_def SeqHigherThan_def MaxValue_def nack_consts)
  from NackGenerator_overflow [OF example_generator_inv this, of "\<lambda>_. 60" 60] show ?thesis by blast
qed

text \<open>
  C19: Pending requests are repeated. While packets are missing the timer is running, and when
  it fires every listed number whose delay is over and whose last request is at least one round
  trip old is requested again; it is given up exactly when this was its tenth request.
\<close>

theorem NackGenerator_timer_repeats:
  assumes inv: "ng_inv g" and mem: "(k, info) \<in> set (ng_nackList g)"
    and delay: "ng_sendNackDelayMs g = 0 \<or> ucast (ng_sendNackDelayMs g) \<le> nowMs - ni_createdAtMs info"
    and due: "ni_sentAtMs info = 0 \<or> ucast (ng_rtt g) \<le> nowMs - ni_sentAtMs info"
  shows "ng_timerActive g \<and>
    (\<exists>g' batch. NackGenerator_OnTimer nowMs g = (g', [NackRequired batch]) \<and> k \<in> set batch
      \<and> (k \<in> fst ` set (ng_nackList g') \<longleftrightarrow> ni_retries info + 1 < MaxNackRetries))"
  using assms by (rule OnTimer_repeats)

theorem NackGenerator_timer_repeats_witness:
  "ng_timerActive example_generator \<and>
    (\<exists>g' batch. NackGenerator_OnTimer 500 example_generator = (g', [NackRequired batch]) \<and> 65530 \<in> set batch)"
proof -
  let ?i = "(NackInfo_new 7 65530 65530)\<lparr>ni_retries := 2, ni_sentAtMs := 50\<rparr>"
  have "(65530, ?i) \<in> set (ng_nackList example_generator)"
    "ng_sendNackDelayMs example_generator = 0
       \<or> ucast (ng_sendNackDelayMs example_generator) \<le> 500 - ni_createdAtMs ?i"
    "ni_sentAtMs ?i = 0 \<or> ucast (ng_rtt example_generator) \<le> 500 - ni_sentAtMs ?i"
    by (simp_all add: example_generator_def NackGenerator_new_def NackInfo_new_def nack_consts)
  from NackGenerator_timer_repeats [OF example_generator_inv this] show ?thesis by blast
qed

section \<open>Recovered numbers\<close>

text \<open>The events that neither bring a recovered packet nor reset the generator.\<close>

fun keeps_recovered :: "nack_event \<Rightarrow> bool" where
  "keeps_recovered (NackReceivePacket clock nowMs packet isRecovered) = (\<not> isRecovered)"
| "keeps_recovered NackReset = False"
| "keeps_recovered e = True"

lemma newer_keeps_recovered:
  "ReceivePacket_newer clock nowMs seq isKeyFrame False g = Some (g', out) \<Longrightarrow>
     ng_recoveredList g' = ng_recoveredList g"
  by (auto simp: ReceivePacket_newer_def AddPacketsToNackList_def GetNackBatch_def MayRunTimer_def Let_def
      split: option.splits prod.splits if_splits)

lemma step_keeps_recovered:
  assumes "nack_step g e = Some (g', out)" and "keeps_recovered e"
  shows "ng_recoveredList g' = ng_recoveredList g"
proof (cases e)
  case (NackReceivePacket clock nowMs packet isRecovered)
  with assms show ?thesis
    by (auto simp: NackGenerator_ReceivePacket_def ReceivePacket_older_def Let_def
        split: option.splits prod.splits if_splits dest: newer_keeps_recovered)
qed (use assms in \<open>auto simp: NackGenerator_OnTimer_def GetNackBatch_def MayRunTimer_def
      NackGenerator_UpdateRtt_def split: prod.splits\<close>)

lemma run_keeps_recovered:
  "run_steps nack_step g es = Some (g', outs) \<Longrightarrow> list_all keeps_recovered es \<Longrightarrow>
     ng_recoveredList g' = ng_recoveredList g"
proof (induction es arbitrary: g outs)
  case Nil
  then show ?case by simp
next
  case (Cons e es)
  from Cons.prems(1) obtain a b ba where a: "nack_step g e = Some (a, b)" "run_steps nack_step a es = Some (g', ba)"
    by (auto split: option.splits)
  with Cons.prems(2) Cons.IH [OF a(2)] step_keeps_recovered [OF a(1)] show ?case by simp
qed

lemma in_gap_not_listed:
  fixes seq :: u16
  assumes items: "nack_items l 0 items" and new: "SeqHigherThan 0 seq l"
    and s: "0 < unat (seq - s)" "unat (seq - s) < unat (seq - l)"
  shows "s \<notin> fst ` set items"
proof
  assume "s \<in> fst ` set items"
  with items have a: "unat (l - s) \<le> 10000"
    by (auto simp: nack_items_def list_all_iff nack_item_ok_def MaxPacketAge_def)
  have "unat (seq - l) \<le> 32768"
    using new SeqLowerThan_off [of 0 l seq]
    by (auto simp: SeqHigherThan_flip seq_half_def seq_bits_def seq_off_def MaxValue_def)
  with a have "unat (seq - s) = unat (seq - l) + unat (l - s)"
    using unat_add_wrap [of "seq - l" "l - s"] by simp
  with s show False by simp
qed

text \<open>
  C39: A recovered number suppresses the NACK for a later loss of the same number. The list of
  recovered numbers changes only with another recovered packet or a reset; whatever packets, timers
  and RTT updates come in between, and also when the numbers have wrapped around, a packet after a gap
  that contains a number of the list makes no NACK message that names it, and it is not listed.
\<close>

theorem NackGenerator_stale_recovered:
  assumes inv: "ng_inv g" and found: "os_find (SeqLowerThan 0) id s (ng_recoveredList g) \<noteq> None"
    and run: "run_steps nack_step g es = Some (g1, outs)" and es: "list_all keeps_recovered es"
    and st: "ng_started g1" and new: "SeqHigherThan 0 (rp_sequenceNumber packet) (ng_lastSeq g1)"
    and s: "0 < unat (rp_sequenceNumber packet - s)"
      "unat (rp_sequenceNumber packet - s) < unat (rp_sequenceNumber packet - ng_lastSeq g1)"
  shows "\<exists>g2 out. NackGenerator_ReceivePacket clock nowMs packet False g1 = Some (False, g2, out) \<and>
    s \<notin> fst ` set (ng_nackList g2) \<and> (\<forall>batch. NackRequired batch \<in> set out \<longrightarrow> s \<notin> set batch)"
proof -
  let ?seq = "rp_sequenceNumber packet"
  note ne = newer_than_last [OF new]
  have inv1: "ng_inv g1" using nack_machine.run_safe [OF inv, of es] run by simp
  then have "nack_items (ng_lastSeq g1) 0 (ng_nackList g1)" by (simp add: ng_inv_def)
  then have not: "s \<notin> fst ` set (ng_nackList g1)" by (rule in_gap_not_listed [OF _ new s])
  obtain g3 g5 out items where
    r: "ReceivePacket_newer clock nowMs ?seq (rp_isKeyFrame packet) False g1 =
       Some (g5, out @ nack_request (fst (GetNackBatch_items g3 SEQ nowMs items)))"
    "ng_nackList g5 = snd (GetNackBatch_items g3 SEQ nowMs items)" "nack_items ?seq 0 items"
    "recovered_not_added (ng_recoveredList g1) (ng_nackList g1) items"
    and o: "out = [KeyFrameRequired] \<and> items = []
         \<and> MaxNackPackets < length (ng_nackList g1) + (unat (?seq - ng_lastSeq g1) - 1)
       \<or> out = [] \<and> unat (?seq - ng_lastSeq g1) - 1 \<le> MaxNackPackets
         \<and> lost_listed clock (ng_recoveredList g1) ?seq (unat (?seq - ng_lastSeq g1) - 1) items"
    by (rule newer_result [OF inv1 st ne(1), of clock nowMs "rp_isKeyFrame packet"]) (rule that; assumption)
  from r(4) not found run_keeps_recovered [OF run es] have no: "s \<notin> fst ` set items"
    by (auto simp: recovered_not_added_def)
  then have "s \<notin> set (fst (GetNackBatch_items g3 SEQ nowMs items))"
    unfolding GetNackBatch_items_fst using r(3) by (force simp: nack_items_def list_all_iff nack_item_ok_def)
  moreover have "s \<notin> fst ` set (ng_nackList g5)"
    unfolding r(2) using no GetNackBatch_keys [of _ g3 SEQ nowMs items] by auto
  ultimately show ?thesis using r(1) o st ne
    by (auto simp: NackGenerator_ReceivePacket_def Let_def nack_request_def)
qed

text \<open>Number 5 comes through RTX, the numbers wrap around, and the new number 5 is lost.\<close>

definition receive_event :: "u16 \<Rightarrow> nack_event" where
  "receive_event seq = NackReceivePacket (\<lambda>_. 0) 0 (nack_packet seq) False"

definition recovered_generator :: nack_generator where
  "recovered_generator = (NackGenerator_new 0)\<lparr>ng_started := True, ng_recoveredList := [5]\<rparr>"

theorem NackGenerator_stale_recovered_witness:
  "\<exists>g1 outs g2 out. run_steps nack_step recovered_generator (map receive_event [30000, 60000, 4]) = Some (g1, outs) \<and>
    NackGenerator_ReceivePacket (\<lambda>_. 0) 0 (nack_packet 6) False g1 = Some (False, g2, out) \<and>
    5 \<notin> fst ` set (ng_nackList g2)"
proof -
  have inv: "ng_inv recovered_generator" by (simp add: recovered_generator_def ng_inv_def NackGenerator_new_def)
  have found: "os_find (SeqLowerThan 0) id 5 (ng_recoveredList recovered_generator) \<noteq> None"
    by (simp add: recovered_generator_def os_find_def lower_bound_def)
  obtain g1 outs where run: "run_steps nack_step recovered_generator (map receive_event [30000, 60000, 4]) = Some (g1, outs)"
    using nack_machine.run_safe [OF inv, of "map receive_event [30000, 60000, 4]"] by auto
  then have g1: "ng_started g1" "ng_lastSeq g1 = 4"
    by (auto simp: receive_event_def NackGenerator_ReceivePacket_def NackGenerator_new_def nack_packet_def
      recovered_generator_def ReceivePacket_newer_def AddPacketsToNackList_def GetNackBatch_def erase_lower_def
      os_erase_range_def RemoveNackItems_loop_Nil nack_list_full_def nack_consts lower_bound_def
      MayRunTimer_def nack_request_def SeqLowerThan_def SeqHigherThan_def MaxValue_def Let_def)
  have "list_all keeps_recovered (map receive_event [30000, 60000, 4])" by (simp add: receive_event_def)
  from NackGenerator_stale_recovered [OF inv found run this g1(1), of "nack_packet 6" "\<lambda>_. 0" 0] run g1(2)
  show ?thesis by (auto simp: nack_packet_def SeqHigherThan_def MaxValue_def)
qed

end
