(* ===== verification/KeyFrameRequestManager.thy ===== *)
theory KeyFrameRequestManager
  imports Prelude StateMachine
begin

text \<open>
  \<^verbatim>\<open>RTC::KeyFrameRequestManager\<close> (\<^verbatim>\<open>worker/src/RTC/KeyFrameRequestManager.cpp\<close>) with its two
  timer-driven helper classes. It turns key frame wishes of consumers into requests to the
  producing endpoint, one at a time per SSRC, with one retry.

  The helper objects live in a heap: an address holds a live object, and \<^verbatim>\<open>delete\<close> removes it.
  The two hash maps hold addresses. Each object owns a
  one-shot \<^verbatim>\<open>Timer\<close> (\<^verbatim>\<open>worker/src/handles/Timer.cpp\<close>), started in the constructor and by \<^verbatim>\<open>Restart()\<close>;
  of the libuv handle behind it the model keeps whether it is active. A timer event names the
  address of the object whose timer expires; libuv makes a one-shot timer inactive before it calls
  back. Using a dead object, the expiry of a timer that does not run, and a failed assertion are
  \<open>None\<close>. When a running timer expires is left to the event order.
\<close>

section \<open>Definitions\<close>

type_synonym address = nat

text \<open>
  A \<^verbatim>\<open>Timer\<close> as both classes use it: started without a repeat (the default argument 0), closed only by
  the destructor of its owner. Starting and restarting cannot fail then.
\<close>

record timer =
  tm_timeout :: u64
  tm_active :: bool

definition Timer_Start :: "u64 \<Rightarrow> timer" where
  "Timer_Start timeout = \<lparr>tm_timeout = timeout, tm_active = True\<rparr>"

definition Timer_Restart :: "timer \<Rightarrow> timer" where
  "Timer_Restart t = t\<lparr>tm_active := True\<rparr>"

definition KeyFrameRetransmissionWaitTime :: u32 where
  "KeyFrameRetransmissionWaitTime = 1000"

record pending_info =
  pk_ssrc :: u32
  pk_timer :: timer
  pk_retryOnTimeout :: bool

record request_delayer =
  kd_ssrc :: u32
  kd_timer :: timer
  kd_keyFrameRequested :: bool

datatype kf_output = OnKeyFrameNeeded u32

record kf_manager =
  kf_keyFrameRequestDelay :: u32
  kf_pendingMap :: "u32 \<rightharpoonup> address"
  kf_delayerMap :: "u32 \<rightharpoonup> address"
  kf_pendings :: "address \<rightharpoonup> pending_info"
  kf_delayers :: "address \<rightharpoonup> request_delayer"
  kf_next :: address

definition KeyFrameRequestManager_new :: "u32 \<Rightarrow> kf_manager" where
  "KeyFrameRequestManager_new keyFrameRequestDelay =
     \<lparr>kf_keyFrameRequestDelay = keyFrameRequestDelay, kf_pendingMap = Map.empty,
      kf_delayerMap = Map.empty, kf_pendings = Map.empty, kf_delayers = Map.empty, kf_next = 0\<rparr>"

definition PendingKeyFrameInfo_new :: "u32 \<Rightarrow> pending_info" where
  "PendingKeyFrameInfo_new ssrc = \<lparr>pk_ssrc = ssrc,
     pk_timer = Timer_Start (ucast KeyFrameRetransmissionWaitTime), pk_retryOnTimeout = True\<rparr>"

definition KeyFrameRequestDelayer_new :: "u32 \<Rightarrow> u32 \<Rightarrow> request_delayer" where
  "KeyFrameRequestDelayer_new ssrc delay =
     \<lparr>kd_ssrc = ssrc, kd_timer = Timer_Start (ucast delay), kd_keyFrameRequested = False\<rparr>"

text \<open>\<^verbatim>\<open>map[ssrc] = new \<dots>\<close>: the object at a fresh address, the address in the map.\<close>

definition store_pending :: "u32 \<Rightarrow> kf_manager \<Rightarrow> kf_manager" where
  "store_pending ssrc m =
     m\<lparr>kf_pendings := (kf_pendings m)(kf_next m \<mapsto> PendingKeyFrameInfo_new ssrc),
       kf_pendingMap := (kf_pendingMap m)(ssrc \<mapsto> kf_next m),
       kf_next := Suc (kf_next m)\<rparr>"

definition store_delayer :: "u32 \<Rightarrow> kf_manager \<Rightarrow> kf_manager" where
  "store_delayer ssrc m =
     m\<lparr>kf_delayers := (kf_delayers m)(kf_next m \<mapsto> KeyFrameRequestDelayer_new ssrc (kf_keyFrameRequestDelay m)),
       kf_delayerMap := (kf_delayerMap m)(ssrc \<mapsto> kf_next m),
       kf_next := Suc (kf_next m)\<rparr>"

definition SetRetryOnTimeout :: "address \<Rightarrow> bool \<Rightarrow> kf_manager \<Rightarrow> kf_manager option" where
  "SetRetryOnTimeout a notify m =
     (case kf_pendings m a of
        None \<Rightarrow> None
      | Some info \<Rightarrow>
          Some (m\<lparr>kf_pendings := (kf_pendings m)(a \<mapsto> info\<lparr>pk_retryOnTimeout := notify\<rparr>)\<rparr>))"

definition Restart_pending :: "address \<Rightarrow> kf_manager \<Rightarrow> kf_manager option" where
  "Restart_pending a m =
     (case kf_pendings m a of
        None \<Rightarrow> None
      | Some info \<Rightarrow>
          Some (m\<lparr>kf_pendings := (kf_pendings m)(a \<mapsto> info\<lparr>pk_timer := Timer_Restart (pk_timer info)\<rparr>)\<rparr>))"

definition SetKeyFrameRequested :: "address \<Rightarrow> bool \<Rightarrow> kf_manager \<Rightarrow> kf_manager option" where
  "SetKeyFrameRequested a flag m =
     (case kf_delayers m a of
        None \<Rightarrow> None
      | Some d \<Rightarrow>
          Some (m\<lparr>kf_delayers := (kf_delayers m)(a \<mapsto> d\<lparr>kd_keyFrameRequested := flag\<rparr>)\<rparr>))"

definition delete_pending :: "address \<Rightarrow> kf_manager \<Rightarrow> kf_manager option" where
  "delete_pending a m =
     (if kf_pendings m a = None then None
      else Some (m\<lparr>kf_pendings := (kf_pendings m)(a := None)\<rparr>))"

definition delete_delayer :: "address \<Rightarrow> kf_manager \<Rightarrow> kf_manager option" where
  "delete_delayer a m =
     (if kf_delayers m a = None then None
      else Some (m\<lparr>kf_delayers := (kf_delayers m)(a := None)\<rparr>))"

text \<open>\<^verbatim>\<open>KeyFrameNeeded\<close> after its delayer part.\<close>

definition KeyFrameNeeded_pending :: "u32 \<Rightarrow> kf_manager \<Rightarrow> (kf_manager \<times> kf_output list) option" where
  "KeyFrameNeeded_pending ssrc m =
     (case kf_pendingMap m ssrc of
        Some a \<Rightarrow> map_option (\<lambda>m'. (m', [])) (SetRetryOnTimeout a True m)
      | None \<Rightarrow> Some (store_pending ssrc m, [OnKeyFrameNeeded ssrc]))"

definition KeyFrameNeeded :: "u32 \<Rightarrow> kf_manager \<Rightarrow> (kf_manager \<times> kf_output list) option" where
  "KeyFrameNeeded ssrc m =
     (if kf_keyFrameRequestDelay m > 0
      then (case kf_delayerMap m ssrc of
              Some a \<Rightarrow> map_option (\<lambda>m'. (m', [])) (SetKeyFrameRequested a True m)
            | None \<Rightarrow> KeyFrameNeeded_pending ssrc (store_delayer ssrc m))
      else KeyFrameNeeded_pending ssrc m)"

definition ForceKeyFrameNeeded :: "u32 \<Rightarrow> kf_manager \<Rightarrow> (kf_manager \<times> kf_output list) option" where
  "ForceKeyFrameNeeded ssrc m =
     (let delayed = (if kf_keyFrameRequestDelay m > 0
                     then map_option (store_delayer ssrc)
                            (case kf_delayerMap m ssrc of
                               Some a \<Rightarrow> delete_delayer a m
                             | None \<Rightarrow> Some m)
                     else Some m)
      in case delayed of
           None \<Rightarrow> None
         | Some m1 \<Rightarrow>
             map_option (\<lambda>m2. (m2, [OnKeyFrameNeeded ssrc]))
               (case kf_pendingMap m1 ssrc of
                  Some a \<Rightarrow> Option.bind (SetRetryOnTimeout a True m1) (Restart_pending a)
                | None \<Rightarrow> Some (store_pending ssrc m1)))"

definition KeyFrameReceived :: "u32 \<Rightarrow> kf_manager \<Rightarrow> kf_manager option" where
  "KeyFrameReceived ssrc m =
     (case kf_pendingMap m ssrc of
        None \<Rightarrow> Some m
      | Some a \<Rightarrow>
          map_option (\<lambda>m'. m'\<lparr>kf_pendingMap := (kf_pendingMap m')(ssrc := None)\<rparr>) (delete_pending a m))"

definition OnKeyFrameRequestTimeout :: "address \<Rightarrow> kf_manager \<Rightarrow> (kf_manager \<times> kf_output list) option" where
  "OnKeyFrameRequestTimeout a m =
     (case kf_pendings m a of
        None \<Rightarrow> None
      | Some info \<Rightarrow>
          if kf_pendingMap m (pk_ssrc info) = None then None
          else if \<not> pk_retryOnTimeout info
          then map_option
                 (\<lambda>m'. (m'\<lparr>kf_pendingMap := (kf_pendingMap m')(pk_ssrc info := None)\<rparr>, []))
                 (delete_pending a m)
          else map_option (\<lambda>m'. (m', [OnKeyFrameNeeded (pk_ssrc info)]))
                 (Option.bind (SetRetryOnTimeout a False m) (Restart_pending a)))"

definition OnKeyFrameDelayTimeout :: "address \<Rightarrow> kf_manager \<Rightarrow> (kf_manager \<times> kf_output list) option" where
  "OnKeyFrameDelayTimeout a m =
     (case kf_delayers m a of
        None \<Rightarrow> None
      | Some d \<Rightarrow>
          if kf_delayerMap m (kd_ssrc d) = None then None
          else (case delete_delayer a m of
                  None \<Rightarrow> None
                | Some m1 \<Rightarrow>
                    let m2 = m1\<lparr>kf_delayerMap := (kf_delayerMap m1)(kd_ssrc d := None)\<rparr>
                    in if kd_keyFrameRequested d then KeyFrameNeeded (kd_ssrc d) m2
                       else Some (m2, [])))"

text \<open>The expiry of a timer: libuv stops the one-shot timer and calls back.\<close>

definition pending_OnTimer :: "address \<Rightarrow> kf_manager \<Rightarrow> (kf_manager \<times> kf_output list) option" where
  "pending_OnTimer a m =
     (case kf_pendings m a of
        None \<Rightarrow> None
      | Some info \<Rightarrow>
          if \<not> tm_active (pk_timer info) then None
          else OnKeyFrameRequestTimeout a
            (m\<lparr>kf_pendings := (kf_pendings m)(a \<mapsto> info\<lparr>pk_timer := (pk_timer info)\<lparr>tm_active := False\<rparr>\<rparr>)\<rparr>))"

definition delayer_OnTimer :: "address \<Rightarrow> kf_manager \<Rightarrow> (kf_manager \<times> kf_output list) option" where
  "delayer_OnTimer a m =
     (case kf_delayers m a of
        None \<Rightarrow> None
      | Some d \<Rightarrow>
          if \<not> tm_active (kd_timer d) then None
          else OnKeyFrameDelayTimeout a
            (m\<lparr>kf_delayers := (kf_delayers m)(a \<mapsto> d\<lparr>kd_timer := (kd_timer d)\<lparr>tm_active := False\<rparr>\<rparr>)\<rparr>))"

text \<open>The calls of the owner and the two kinds of timers.\<close>

datatype kf_event =
    NeedKeyFrame u32
  | ForceKeyFrame u32
  | ReceiveKeyFrame u32
  | PendingTimer address
  | DelayTimer address

fun kf_step :: "kf_manager \<Rightarrow> kf_event \<Rightarrow> (kf_manager \<times> kf_output list) option" where
  "kf_step m (NeedKeyFrame ssrc) = KeyFrameNeeded ssrc m"
| "kf_step m (ForceKeyFrame ssrc) = ForceKeyFrameNeeded ssrc m"
| "kf_step m (ReceiveKeyFrame ssrc) = map_option (\<lambda>m'. (m', [])) (KeyFrameReceived ssrc m)"
| "kf_step m (PendingTimer a) = pending_OnTimer a m"
| "kf_step m (DelayTimer a) = delayer_OnTimer a m"

section \<open>The heap invariant\<close>

text \<open>
  The maps and the live objects correspond one to one, and every live object has its timer
  running with the time of its class.
\<close>

definition kf_inv :: "kf_manager \<Rightarrow> bool" where
  "kf_inv m \<longleftrightarrow>
     (\<forall>ssrc a. kf_pendingMap m ssrc = Some a \<longleftrightarrow> (\<exists>i. kf_pendings m a = Some i \<and> pk_ssrc i = ssrc)) \<and>
     (\<forall>ssrc a. kf_delayerMap m ssrc = Some a \<longleftrightarrow> (\<exists>d. kf_delayers m a = Some d \<and> kd_ssrc d = ssrc)) \<and>
     (\<forall>a. a \<ge> kf_next m \<longrightarrow> kf_pendings m a = None \<and> kf_delayers m a = None) \<and>
     (\<forall>a i. kf_pendings m a = Some i \<longrightarrow> pk_timer i = Timer_Start (ucast KeyFrameRetransmissionWaitTime)) \<and>
     (\<forall>a d. kf_delayers m a = Some d \<longrightarrow> kd_timer d = Timer_Start (ucast (kf_keyFrameRequestDelay m)))"

text \<open>A timer fires only for an object that is alive.\<close>

fun kf_timer_ok :: "kf_manager \<Rightarrow> kf_event \<Rightarrow> bool" where
  "kf_timer_ok m (PendingTimer a) = (kf_pendings m a \<noteq> None)"
| "kf_timer_ok m (DelayTimer a) = (kf_delayers m a \<noteq> None)"
| "kf_timer_ok m e = True"

lemma kf_pendingE:
  assumes "kf_inv m" and "kf_pendingMap m ssrc = Some a"
  obtains i where "kf_pendings m a = Some i" and "pk_ssrc i = ssrc" and "a < kf_next m"
  using assms unfolding kf_inv_def by (metis linorder_not_less option.distinct(1))

lemma kf_delayerE:
  assumes "kf_inv m" and "kf_delayerMap m ssrc = Some a"
  obtains d where "kf_delayers m a = Some d" and "kd_ssrc d = ssrc" and "a < kf_next m"
  using assms unfolding kf_inv_def by (metis linorder_not_less option.distinct(1))

lemma Restart_pending_running:
  assumes "kf_inv m" and "kf_pendings m a = Some i"
  shows "Restart_pending a m = Some m"
proof -
  from assms have "pk_timer i = Timer_Start (ucast KeyFrameRetransmissionWaitTime)"
    by (simp add: kf_inv_def)
  then have "i\<lparr>pk_timer := Timer_Restart (pk_timer i)\<rparr> = i"
    by (simp add: Timer_Restart_def Timer_Start_def)
  with assms(2) show ?thesis by (simp add: Restart_pending_def map_upd_triv)
qed

text \<open>With all timers running, an expiry acts on the objects as before it.\<close>

lemma pending_OnTimer_running:
  assumes inv: "kf_inv m" and i: "kf_pendings m a = Some i"
  shows "pending_OnTimer a m =
    (if pk_retryOnTimeout i
     then map_option (\<lambda>m'. (m', [OnKeyFrameNeeded (pk_ssrc i)])) (SetRetryOnTimeout a False m)
     else map_option (\<lambda>m'. (m'\<lparr>kf_pendingMap := (kf_pendingMap m')(pk_ssrc i := None)\<rparr>, [])) (delete_pending a m))"
proof -
  from inv i have "kf_pendingMap m (pk_ssrc i) = Some a" "pk_timer i = Timer_Start (ucast KeyFrameRetransmissionWaitTime)"
    by (auto simp: kf_inv_def)
  with i show ?thesis
    by (cases i) (simp add: pending_OnTimer_def OnKeyFrameRequestTimeout_def SetRetryOnTimeout_def
      Restart_pending_def delete_pending_def Timer_Start_def Timer_Restart_def)
qed

lemma delayer_OnTimer_running:
  assumes "kf_inv m" and "kf_delayers m a = Some d"
  shows "delayer_OnTimer a m = OnKeyFrameDelayTimeout a m"
proof -
  from assms have "tm_active (kd_timer d)" by (auto simp: kf_inv_def Timer_Start_def)
  with assms(2) show ?thesis
    by (simp add: delayer_OnTimer_def OnKeyFrameDelayTimeout_def delete_delayer_def Let_def)
qed

section \<open>The contract: one entry per SSRC\<close>

text \<open>
  What the manager promises, without objects and addresses: per SSRC, whether a request is
  pending (and will be retried), and whether new wishes are being delayed (and one came in).
\<close>

record kf_spec =
  ks_delayed :: bool
  ks_pending :: "u32 \<rightharpoonup> bool"
  ks_delayer :: "u32 \<rightharpoonup> bool"

definition kf_abs :: "kf_manager \<Rightarrow> kf_spec" where
  "kf_abs m =
     \<lparr>ks_delayed = (kf_keyFrameRequestDelay m > 0),
      ks_pending = (\<lambda>ssrc. Option.bind (kf_pendingMap m ssrc)
                      (\<lambda>a. map_option pk_retryOnTimeout (kf_pendings m a))),
      ks_delayer = (\<lambda>ssrc. Option.bind (kf_delayerMap m ssrc)
                      (\<lambda>a. map_option kd_keyFrameRequested (kf_delayers m a)))\<rparr>"

definition spec_pending :: "u32 \<Rightarrow> kf_spec \<Rightarrow> kf_spec \<times> kf_output list" where
  "spec_pending ssrc s =
     (s\<lparr>ks_pending := (ks_pending s)(ssrc \<mapsto> True)\<rparr>,
      if ks_pending s ssrc = None then [OnKeyFrameNeeded ssrc] else [])"

definition spec_needed :: "u32 \<Rightarrow> kf_spec \<Rightarrow> kf_spec \<times> kf_output list" where
  "spec_needed ssrc s =
     (if ks_delayed s
      then if ks_delayer s ssrc \<noteq> None
           then (s\<lparr>ks_delayer := (ks_delayer s)(ssrc \<mapsto> True)\<rparr>, [])
           else spec_pending ssrc (s\<lparr>ks_delayer := (ks_delayer s)(ssrc \<mapsto> False)\<rparr>)
      else spec_pending ssrc s)"

definition spec_force :: "u32 \<Rightarrow> kf_spec \<Rightarrow> kf_spec \<times> kf_output list" where
  "spec_force ssrc s =
     (s\<lparr>ks_delayer := (if ks_delayed s then (ks_delayer s)(ssrc \<mapsto> False) else ks_delayer s),
        ks_pending := (ks_pending s)(ssrc \<mapsto> True)\<rparr>,
      [OnKeyFrameNeeded ssrc])"

definition spec_received :: "u32 \<Rightarrow> kf_spec \<Rightarrow> kf_spec" where
  "spec_received ssrc s = s\<lparr>ks_pending := (ks_pending s)(ssrc := None)\<rparr>"

definition spec_timeout :: "u32 \<Rightarrow> kf_spec \<Rightarrow> kf_spec \<times> kf_output list" where
  "spec_timeout ssrc s =
     (if ks_pending s ssrc = Some True
      then (s\<lparr>ks_pending := (ks_pending s)(ssrc \<mapsto> False)\<rparr>, [OnKeyFrameNeeded ssrc])
      else (s\<lparr>ks_pending := (ks_pending s)(ssrc := None)\<rparr>, []))"

definition spec_delay_over :: "u32 \<Rightarrow> kf_spec \<Rightarrow> kf_spec \<times> kf_output list" where
  "spec_delay_over ssrc s =
     (let s' = s\<lparr>ks_delayer := (ks_delayer s)(ssrc := None)\<rparr>
      in if ks_delayer s ssrc = Some True then spec_needed ssrc s' else (s', []))"

lemmas spec_defs [op_defs] = spec_pending_def spec_needed_def spec_force_def spec_received_def
  spec_timeout_def spec_delay_over_def

fun kf_spec_step :: "kf_manager \<Rightarrow> kf_event \<Rightarrow> kf_spec \<times> kf_output list" where
  "kf_spec_step m (NeedKeyFrame ssrc) = spec_needed ssrc (kf_abs m)"
| "kf_spec_step m (ForceKeyFrame ssrc) = spec_force ssrc (kf_abs m)"
| "kf_spec_step m (ReceiveKeyFrame ssrc) = (spec_received ssrc (kf_abs m), [])"
| "kf_spec_step m (PendingTimer a) = spec_timeout (pk_ssrc (the (kf_pendings m a))) (kf_abs m)"
| "kf_spec_step m (DelayTimer a) = spec_delay_over (kd_ssrc (the (kf_delayers m a))) (kf_abs m)"

lemma kf_abs_simps:
  "ks_delayed (kf_abs m) = (kf_keyFrameRequestDelay m > 0)"
  "kf_inv m \<Longrightarrow> ks_pending (kf_abs m) ssrc = None \<longleftrightarrow> kf_pendingMap m ssrc = None"
  "kf_inv m \<Longrightarrow> ks_delayer (kf_abs m) ssrc = None \<longleftrightarrow> kf_delayerMap m ssrc = None"
  "kf_inv m \<Longrightarrow> kf_pendings m a = Some i \<Longrightarrow> ks_pending (kf_abs m) (pk_ssrc i) = Some (pk_retryOnTimeout i)"
  "kf_inv m \<Longrightarrow> kf_delayers m a = Some d \<Longrightarrow> ks_delayer (kf_abs m) (kd_ssrc d) = Some (kd_keyFrameRequested d)"
proof -
  show "ks_delayed (kf_abs m) = (kf_keyFrameRequestDelay m > 0)" by (simp add: kf_abs_def)
  show "ks_pending (kf_abs m) ssrc = None \<longleftrightarrow> kf_pendingMap m ssrc = None" if "kf_inv m"
    using that by (cases "kf_pendingMap m ssrc") (auto simp: kf_abs_def elim: kf_pendingE)
  show "ks_delayer (kf_abs m) ssrc = None \<longleftrightarrow> kf_delayerMap m ssrc = None" if "kf_inv m"
    using that by (cases "kf_delayerMap m ssrc") (auto simp: kf_abs_def elim: kf_delayerE)
  show "ks_pending (kf_abs m) (pk_ssrc i) = Some (pk_retryOnTimeout i)" if "kf_inv m" "kf_pendings m a = Some i"
  proof -
    have "kf_pendingMap m (pk_ssrc i) = Some a" using that by (auto simp: kf_inv_def)
    with that show ?thesis by (simp add: kf_abs_def)
  qed
  show "ks_delayer (kf_abs m) (kd_ssrc d) = Some (kd_keyFrameRequested d)"
    if "kf_inv m" "kf_delayers m a = Some d"
  proof -
    have "kf_delayerMap m (kd_ssrc d) = Some a" using that by (auto simp: kf_inv_def)
    with that show ?thesis by (simp add: kf_abs_def)
  qed
qed

lemma kf_pendingMap_iff:
  "kf_inv m \<Longrightarrow> kf_pendings m a = Some i \<Longrightarrow> kf_pendingMap m ssrc = Some a \<longleftrightarrow> ssrc = pk_ssrc i"
  by (auto simp: kf_inv_def)

lemma kf_delayerMap_iff:
  "kf_inv m \<Longrightarrow> kf_delayers m a = Some d \<Longrightarrow> kf_delayerMap m ssrc = Some a \<longleftrightarrow> ssrc = kd_ssrc d"
  by (auto simp: kf_inv_def)

lemma kf_spec_eqI:
  "ks_delayed s = ks_delayed t \<Longrightarrow> (\<And>k. ks_pending s k = ks_pending t k) \<Longrightarrow>
     (\<And>k. ks_delayer s k = ks_delayer t k) \<Longrightarrow> s = (t :: kf_spec)"
  by (cases s; cases t) auto

lemma SetRetryOnTimeout_ok:
  assumes inv: "kf_inv m" and i: "kf_pendings m a = Some i"
  shows "\<exists>m'. SetRetryOnTimeout a b m = Some m' \<and> kf_inv m'
    \<and> kf_abs m' = (kf_abs m)\<lparr>ks_pending := (ks_pending (kf_abs m))(pk_ssrc i \<mapsto> b)\<rparr>"
proof -
  let ?m = "m\<lparr>kf_pendings := (kf_pendings m)(a \<mapsto> i\<lparr>pk_retryOnTimeout := b\<rparr>)\<rparr>"
  have "kf_inv ?m" using inv i unfolding kf_inv_def by auto
  moreover have "kf_abs ?m = (kf_abs m)\<lparr>ks_pending := (ks_pending (kf_abs m))(pk_ssrc i \<mapsto> b)\<rparr>"
    using kf_pendingMap_iff [OF inv i, THEN iffD2, OF refl]
    by (intro kf_spec_eqI)
       (auto simp: kf_abs_def split: Option.bind_split dest: kf_pendingMap_iff [OF inv i, THEN iffD1])
  ultimately show ?thesis using i by (simp add: SetRetryOnTimeout_def)
qed

lemma SetKeyFrameRequested_ok:
  assumes inv: "kf_inv m" and d: "kf_delayers m a = Some d"
  shows "\<exists>m'. SetKeyFrameRequested a b m = Some m' \<and> kf_inv m'
    \<and> kf_abs m' = (kf_abs m)\<lparr>ks_delayer := (ks_delayer (kf_abs m))(kd_ssrc d \<mapsto> b)\<rparr>"
proof -
  let ?m = "m\<lparr>kf_delayers := (kf_delayers m)(a \<mapsto> d\<lparr>kd_keyFrameRequested := b\<rparr>)\<rparr>"
  have "kf_inv ?m" using inv d unfolding kf_inv_def by auto
  moreover have "kf_abs ?m = (kf_abs m)\<lparr>ks_delayer := (ks_delayer (kf_abs m))(kd_ssrc d \<mapsto> b)\<rparr>"
    using kf_delayerMap_iff [OF inv d, THEN iffD2, OF refl]
    by (intro kf_spec_eqI)
       (auto simp: kf_abs_def split: Option.bind_split dest: kf_delayerMap_iff [OF inv d, THEN iffD1])
  ultimately show ?thesis using d by (simp add: SetKeyFrameRequested_def)
qed

lemma store_pending_ok:
  assumes inv: "kf_inv m" and n: "kf_pendingMap m ssrc = None"
  shows "kf_inv (store_pending ssrc m)
    \<and> kf_abs (store_pending ssrc m) = (kf_abs m)\<lparr>ks_pending := (ks_pending (kf_abs m))(ssrc \<mapsto> True)\<rparr>"
proof
  have fresh: "kf_pendingMap m s \<noteq> Some (kf_next m)" for s
    using inv by (auto elim!: kf_pendingE)
  have none: "kf_pendings m a = Some i \<Longrightarrow> pk_ssrc i \<noteq> ssrc" for a i
    using inv n unfolding kf_inv_def by (metis option.distinct(1))
  show "kf_inv (store_pending ssrc m)"
    using inv fresh none n unfolding kf_inv_def store_pending_def PendingKeyFrameInfo_new_def by auto
  show "kf_abs (store_pending ssrc m) = (kf_abs m)\<lparr>ks_pending := (ks_pending (kf_abs m))(ssrc \<mapsto> True)\<rparr>"
    using fresh
    by (intro kf_spec_eqI)
       (auto simp: kf_abs_def store_pending_def PendingKeyFrameInfo_new_def split: Option.bind_split)
qed

text \<open>A new delayer replaces the one of its SSRC, if there is one, whose object is deleted before.\<close>

lemma store_delayer_ok:
  assumes inv: "kf_inv m"
    and ds: "ds = (case kf_delayerMap m ssrc of Some a \<Rightarrow> (kf_delayers m)(a := None) | None \<Rightarrow> kf_delayers m)"
  shows "kf_inv (store_delayer ssrc (m\<lparr>kf_delayers := ds\<rparr>))
    \<and> kf_abs (store_delayer ssrc (m\<lparr>kf_delayers := ds\<rparr>))
        = (kf_abs m)\<lparr>ks_delayer := (ks_delayer (kf_abs m))(ssrc \<mapsto> False)\<rparr>"
proof
  let ?m = "store_delayer ssrc (m\<lparr>kf_delayers := ds\<rparr>)"
  have fresh: "kf_delayerMap m s \<noteq> Some (kf_next m)" for s
    using inv by (auto elim!: kf_delayerE)
  have ds_iff: "ds a = Some d \<longleftrightarrow> kf_delayers m a = Some d \<and> kd_ssrc d \<noteq> ssrc" for a d
  proof (cases "kf_delayerMap m ssrc")
    case None
    then show ?thesis using inv ds unfolding kf_inv_def by (auto, metis option.distinct(1))
  next
    case (Some b)
    then obtain e where "kf_delayers m b = Some e" "kd_ssrc e = ssrc" using inv by (auto elim: kf_delayerE)
    then show ?thesis using inv ds Some unfolding kf_inv_def by (auto, metis option.inject)
  qed
  have d: "kf_delayers ?m a = (if a = kf_next m then Some (KeyFrameRequestDelayer_new ssrc (kf_keyFrameRequestDelay m)) else ds a)"
    "kf_delayerMap ?m s = (if s = ssrc then Some (kf_next m) else kf_delayerMap m s)" for a s
    by (simp_all add: store_delayer_def)
  have dsn: "ds (kf_next m) = None" using inv ds_iff unfolding kf_inv_def by (metis le_refl not_Some_eq)
  have map_iff: "kf_delayerMap m s = Some a \<longleftrightarrow> (\<exists>d. kf_delayers m a = Some d \<and> kd_ssrc d = s)" for s a
    using inv by (simp add: kf_inv_def)
  have "kf_delayerMap ?m s = Some a \<longleftrightarrow> (\<exists>d. kf_delayers ?m a = Some d \<and> kd_ssrc d = s)" for s a
    unfolding d using fresh ds_iff dsn map_iff
    by (cases "s = ssrc"; cases "a = kf_next m") (auto simp: KeyFrameRequestDelayer_new_def)
  moreover have "kf_pendingMap ?m = kf_pendingMap m" "kf_pendings ?m = kf_pendings m" "kf_next ?m = Suc (kf_next m)"
    "kf_keyFrameRequestDelay ?m = kf_keyFrameRequestDelay m"
    by (simp_all add: store_delayer_def)
  moreover have "kd_timer x = Timer_Start (ucast (kf_keyFrameRequestDelay m))" if "ds a = Some x" for a x
    using that inv ds_iff unfolding kf_inv_def by blast
  moreover have "ds a = None" if "kf_next m < a" for a
    using that inv ds_iff [of a] unfolding kf_inv_def by (metis less_imp_le not_Some_eq)
  ultimately show "kf_inv ?m" using inv unfolding kf_inv_def d by (auto simp: KeyFrameRequestDelayer_new_def)
  have "kf_delayerMap m k = Some a \<Longrightarrow> k \<noteq> ssrc \<Longrightarrow> ds a = kf_delayers m a" for k a
    using map_iff ds_iff by (metis not_Some_eq)
  then show "kf_abs ?m = (kf_abs m)\<lparr>ks_delayer := (ks_delayer (kf_abs m))(ssrc \<mapsto> False)\<rparr>"
    using fresh
    by (intro kf_spec_eqI)
       (auto simp: kf_abs_def store_delayer_def KeyFrameRequestDelayer_new_def split: Option.bind_split)
qed

lemma delete_pending_ok:
  assumes inv: "kf_inv m" and i: "kf_pendings m a = Some i"
  shows "\<exists>m'. delete_pending a m = Some m'
    \<and> kf_inv (m'\<lparr>kf_pendingMap := (kf_pendingMap m')(pk_ssrc i := None)\<rparr>)
    \<and> kf_abs (m'\<lparr>kf_pendingMap := (kf_pendingMap m')(pk_ssrc i := None)\<rparr>)
        = (kf_abs m)\<lparr>ks_pending := (ks_pending (kf_abs m))(pk_ssrc i := None)\<rparr>"
proof -
  let ?m = "m\<lparr>kf_pendings := (kf_pendings m)(a := None), kf_pendingMap := (kf_pendingMap m)(pk_ssrc i := None)\<rparr>"
  have one: "kf_pendingMap m s = Some a \<longleftrightarrow> s = pk_ssrc i" for s using kf_pendingMap_iff [OF inv i] .
  have map_iff: "kf_pendingMap m s = Some b \<longleftrightarrow> (\<exists>j. kf_pendings m b = Some j \<and> pk_ssrc j = s)" for s b
    using inv by (simp add: kf_inv_def)
  have "kf_pendingMap ?m s = Some b \<longleftrightarrow> (\<exists>j. kf_pendings ?m b = Some j \<and> pk_ssrc j = s)" for s b
    using one map_iff by (cases "b = a"; cases "s = pk_ssrc i") (auto, metis option.inject)
  then have "kf_inv ?m" using inv unfolding kf_inv_def by auto
  moreover have "kf_abs ?m = (kf_abs m)\<lparr>ks_pending := (ks_pending (kf_abs m))(pk_ssrc i := None)\<rparr>"
    using one by (intro kf_spec_eqI) (auto simp: kf_abs_def split: Option.bind_split)
  ultimately show ?thesis using i by (simp add: delete_pending_def)
qed

lemma delete_delayer_ok:
  assumes inv: "kf_inv m" and d: "kf_delayers m a = Some d"
  shows "\<exists>m'. delete_delayer a m = Some m'
    \<and> kf_inv (m'\<lparr>kf_delayerMap := (kf_delayerMap m')(kd_ssrc d := None)\<rparr>)
    \<and> kf_abs (m'\<lparr>kf_delayerMap := (kf_delayerMap m')(kd_ssrc d := None)\<rparr>)
        = (kf_abs m)\<lparr>ks_delayer := (ks_delayer (kf_abs m))(kd_ssrc d := None)\<rparr>"
proof -
  let ?m = "m\<lparr>kf_delayers := (kf_delayers m)(a := None), kf_delayerMap := (kf_delayerMap m)(kd_ssrc d := None)\<rparr>"
  have one: "kf_delayerMap m s = Some a \<longleftrightarrow> s = kd_ssrc d" for s using kf_delayerMap_iff [OF inv d] .
  have map_iff: "kf_delayerMap m s = Some b \<longleftrightarrow> (\<exists>j. kf_delayers m b = Some j \<and> kd_ssrc j = s)" for s b
    using inv by (simp add: kf_inv_def)
  have "kf_delayerMap ?m s = Some b \<longleftrightarrow> (\<exists>j. kf_delayers ?m b = Some j \<and> kd_ssrc j = s)" for s b
    using one map_iff by (cases "b = a"; cases "s = kd_ssrc d") (auto, metis option.inject)
  then have "kf_inv ?m" using inv unfolding kf_inv_def by auto
  moreover have "kf_abs ?m = (kf_abs m)\<lparr>ks_delayer := (ks_delayer (kf_abs m))(kd_ssrc d := None)\<rparr>"
    using one by (intro kf_spec_eqI) (auto simp: kf_abs_def split: Option.bind_split)
  ultimately show ?thesis using d by (simp add: delete_delayer_def)
qed

lemma KeyFrameNeeded_pending_ok:
  assumes inv: "kf_inv m"
  shows "\<exists>m'. KeyFrameNeeded_pending ssrc m = Some (m', snd (spec_pending ssrc (kf_abs m)))
    \<and> kf_inv m' \<and> kf_abs m' = fst (spec_pending ssrc (kf_abs m))"
proof (cases "kf_pendingMap m ssrc")
  case None
  with store_pending_ok [OF inv None] kf_abs_simps(2) [OF inv, of ssrc] show ?thesis
    by (auto simp: KeyFrameNeeded_pending_def spec_pending_def)
next
  case (Some a)
  with inv obtain i where i: "kf_pendings m a = Some i" "pk_ssrc i = ssrc" by (auto elim: kf_pendingE)
  with SetRetryOnTimeout_ok [OF inv i(1), of True] Some kf_abs_simps(2) [OF inv, of ssrc] show ?thesis
    by (auto simp: KeyFrameNeeded_pending_def spec_pending_def)
qed

lemma KeyFrameNeeded_ok:
  assumes inv: "kf_inv m"
  shows "\<exists>m'. KeyFrameNeeded ssrc m = Some (m', snd (spec_needed ssrc (kf_abs m)))
    \<and> kf_inv m' \<and> kf_abs m' = fst (spec_needed ssrc (kf_abs m))"
proof (cases "kf_keyFrameRequestDelay m > 0")
  case False
  with KeyFrameNeeded_pending_ok [OF inv, of ssrc] show ?thesis
    by (auto simp: KeyFrameNeeded_def spec_needed_def kf_abs_simps(1))
next
  case True
  show ?thesis
  proof (cases "kf_delayerMap m ssrc")
    case None
    have "kf_delayers m = (case kf_delayerMap m ssrc of Some a \<Rightarrow> (kf_delayers m)(a := None) | None \<Rightarrow> kf_delayers m)"
      using None by simp
    from store_delayer_ok [OF inv this] have s: "kf_inv (store_delayer ssrc m)"
      "kf_abs (store_delayer ssrc m) = (kf_abs m)\<lparr>ks_delayer := (ks_delayer (kf_abs m))(ssrc \<mapsto> False)\<rparr>"
      by simp_all
    with KeyFrameNeeded_pending_ok [OF s(1), of ssrc] True None kf_abs_simps(3) [OF inv, of ssrc] show ?thesis
      by (simp add: KeyFrameNeeded_def spec_needed_def kf_abs_simps(1))
  next
    case (Some a)
    with inv obtain d where d: "kf_delayers m a = Some d" "kd_ssrc d = ssrc" by (auto elim: kf_delayerE)
    with SetKeyFrameRequested_ok [OF inv d(1), of True] True Some kf_abs_simps(3) [OF inv, of ssrc] show ?thesis
      by (auto simp: KeyFrameNeeded_def spec_needed_def kf_abs_simps(1))
  qed
qed

lemma ForceKeyFrameNeeded_ok:
  assumes inv: "kf_inv m"
  shows "\<exists>m'. ForceKeyFrameNeeded ssrc m = Some (m', snd (spec_force ssrc (kf_abs m)))
    \<and> kf_inv m' \<and> kf_abs m' = fst (spec_force ssrc (kf_abs m))"
proof -
  obtain m1 where m1: "(if kf_keyFrameRequestDelay m > 0
        then map_option (store_delayer ssrc)
               (case kf_delayerMap m ssrc of Some a \<Rightarrow> delete_delayer a m | None \<Rightarrow> Some m)
        else Some m) = Some m1" "kf_inv m1"
      "kf_abs m1 = (kf_abs m)\<lparr>ks_delayer := (if ks_delayed (kf_abs m)
         then (ks_delayer (kf_abs m))(ssrc \<mapsto> False) else ks_delayer (kf_abs m))\<rparr>"
  proof (cases "kf_keyFrameRequestDelay m > 0")
    case False
    with inv that [of m] show thesis by (simp add: kf_abs_simps(1))
  next
    case True
    let ?ds = "case kf_delayerMap m ssrc of Some a \<Rightarrow> (kf_delayers m)(a := None) | None \<Rightarrow> kf_delayers m"
    have "(case kf_delayerMap m ssrc of Some a \<Rightarrow> delete_delayer a m | None \<Rightarrow> Some m)
        = Some (m\<lparr>kf_delayers := ?ds\<rparr>)"
      using inv by (auto simp: delete_delayer_def split: option.split elim: kf_delayerE)
    with True store_delayer_ok [OF inv refl, of ssrc] that [of "store_delayer ssrc (m\<lparr>kf_delayers := ?ds\<rparr>)"]
    show thesis by (simp add: kf_abs_simps(1))
  qed
  show ?thesis
  proof (cases "kf_pendingMap m1 ssrc")
    case None
    with m1 store_pending_ok [OF m1(2) None] show ?thesis
      by (simp add: ForceKeyFrameNeeded_def spec_force_def)
  next
    case (Some a)
    with m1(2) obtain i where i: "kf_pendings m1 a = Some i" "pk_ssrc i = ssrc" by (auto elim: kf_pendingE)
    from SetRetryOnTimeout_ok [OF m1(2) i(1), of True] obtain m2 where m2: "SetRetryOnTimeout a True m1 = Some m2"
      "kf_inv m2" "kf_abs m2 = (kf_abs m1)\<lparr>ks_pending := (ks_pending (kf_abs m1))(pk_ssrc i \<mapsto> True)\<rparr>" by blast
    moreover have "Restart_pending a m2 = Some m2"
      using m2(1,2) i by (auto intro: Restart_pending_running simp: SetRetryOnTimeout_def)
    ultimately show ?thesis using m1 i(2) Some by (simp add: ForceKeyFrameNeeded_def spec_force_def)
  qed
qed

lemma kf_step_refines:
  assumes inv: "kf_inv m" and ok: "kf_timer_ok m e"
  shows "\<exists>m'. kf_step m e = Some (m', snd (kf_spec_step m e))
    \<and> kf_inv m' \<and> kf_abs m' = fst (kf_spec_step m e)"
proof (cases e)
  case (NeedKeyFrame ssrc)
  with KeyFrameNeeded_ok [OF inv, of ssrc] show ?thesis by simp
next
  case (ForceKeyFrame ssrc)
  with ForceKeyFrameNeeded_ok [OF inv, of ssrc] show ?thesis by simp
next
  case (ReceiveKeyFrame ssrc)
  show ?thesis
  proof (cases "kf_pendingMap m ssrc")
    case None
    with kf_abs_simps(2) [OF inv, of ssrc] have "spec_received ssrc (kf_abs m) = kf_abs m"
      by (simp add: spec_received_def fun_upd_idem)
    with None ReceiveKeyFrame inv show ?thesis by (simp add: KeyFrameReceived_def)
  next
    case (Some a)
    with inv obtain i where i: "kf_pendings m a = Some i" "pk_ssrc i = ssrc" by (auto elim: kf_pendingE)
    with delete_pending_ok [OF inv i(1)] Some ReceiveKeyFrame show ?thesis
      by (auto simp: KeyFrameReceived_def spec_received_def)
  qed
next
  case (PendingTimer a)
  with ok obtain i where i: "kf_pendings m a = Some i" by auto
  from i PendingTimer delete_pending_ok [OF inv i] SetRetryOnTimeout_ok [OF inv i, of False]
    kf_abs_simps(4) [OF inv i] show ?thesis
    by (cases "pk_retryOnTimeout i") (auto simp: pending_OnTimer_running [OF inv i] spec_timeout_def)
next
  case (DelayTimer a)
  with ok obtain d where d: "kf_delayers m a = Some d" by auto
  with inv have map: "kf_delayerMap m (kd_ssrc d) = Some a" by (simp add: kf_delayerMap_iff)
  obtain m1 where m1: "delete_delayer a m = Some m1"
    "kf_inv (m1\<lparr>kf_delayerMap := (kf_delayerMap m1)(kd_ssrc d := None)\<rparr>)"
    "kf_abs (m1\<lparr>kf_delayerMap := (kf_delayerMap m1)(kd_ssrc d := None)\<rparr>)
       = (kf_abs m)\<lparr>ks_delayer := (ks_delayer (kf_abs m))(kd_ssrc d := None)\<rparr>"
    using delete_delayer_ok [OF inv d] by blast
  show ?thesis
  proof (cases "kd_keyFrameRequested d")
    case True
    with KeyFrameNeeded_ok [OF m1(2), of "kd_ssrc d"] DelayTimer d map m1 kf_abs_simps(5) [OF inv d]
    show ?thesis
      by (simp add: delayer_OnTimer_running [OF inv d] OnKeyFrameDelayTimeout_def spec_delay_over_def Let_def)
  next
    case False
    with DelayTimer d map m1 kf_abs_simps(5) [OF inv d]
    show ?thesis
      by (simp add: delayer_OnTimer_running [OF inv d] OnKeyFrameDelayTimeout_def spec_delay_over_def Let_def)
  qed
qed

section \<open>Requests are paid for\<close>

text \<open>
  The requests a state may still cause for an SSRC without a new wish, the wishes in a list of
  events, and the balance over a run.
\<close>

definition kf_credit :: "u32 \<Rightarrow> kf_spec \<Rightarrow> nat" where
  "kf_credit ssrc s = (if ks_pending s ssrc = Some True then 1 else 0)
     + (if ks_delayer s ssrc = Some True then 2 else 0)"

definition kf_wishes :: "u32 \<Rightarrow> kf_event list \<Rightarrow> nat" where
  "kf_wishes ssrc es = length (filter (\<lambda>e. e = NeedKeyFrame ssrc \<or> e = ForceKeyFrame ssrc) es)"

definition kf_requests :: "u32 \<Rightarrow> kf_output list \<Rightarrow> nat" where
  "kf_requests ssrc outs = length (filter (\<lambda>out. out = OnKeyFrameNeeded ssrc) outs)"

definition kf_account :: "u32 \<Rightarrow> kf_manager \<Rightarrow> kf_event list \<Rightarrow> kf_output list \<Rightarrow> kf_manager \<Rightarrow> bool" where
  "kf_account ssrc m es outs m' \<longleftrightarrow>
     kf_requests ssrc outs + kf_credit ssrc (kf_abs m') \<le> kf_credit ssrc (kf_abs m) + 2 * kf_wishes ssrc es"

lemma kf_spec_step_credit:
  assumes inv: "kf_inv m" and ok: "kf_timer_ok m e"
  shows "kf_requests ssrc (snd (kf_spec_step m e)) + kf_credit ssrc (fst (kf_spec_step m e))
    \<le> kf_credit ssrc (kf_abs m) + 2 * kf_wishes ssrc [e]"
  by (cases e) (auto simp: kf_requests_def kf_credit_def kf_wishes_def spec_defs Let_def)

interpretation kf_machine: accounted_machine kf_step kf_inv kf_timer_ok "kf_account ssrc" for ssrc
proof
  show "\<exists>m' out. kf_step m e = Some (m', out) \<and> kf_inv m'" if "kf_inv m" "kf_timer_ok m e" for m e
    using kf_step_refines [OF that] by blast
  show "kf_account ssrc m [] [] m" for m
    by (simp add: kf_account_def kf_requests_def kf_wishes_def)
  show "kf_account ssrc m [e] out m'"
    if "kf_inv m" "kf_timer_ok m e" "kf_step m e = Some (m', out)" for m e m' out
    using kf_step_refines [OF that(1,2)] kf_spec_step_credit [OF that(1,2), of ssrc] that(3)
    by (auto simp: kf_account_def)
  show "kf_account ssrc m (es @ fs) (o1 @ o2) m''"
    if "kf_account ssrc m es o1 m'" "kf_account ssrc m' fs o2 m''" for m es o1 m' fs o2 m''
    using that by (simp add: kf_account_def kf_requests_def kf_wishes_def)
qed

section \<open>Properties\<close>

text \<open>
  C11: The manager with its timer objects implements the per-SSRC contract. From a state in which
  the maps and the live objects correspond, every call and every timer of a live object is
  processed without touching a deleted object or failing an assertion, emits what the contract
  emits, and leads to a corresponding state of the contract in which the maps and the objects
  correspond again.
\<close>

theorem KeyFrameRequestManager_refinement:
  assumes "kf_inv m" and "kf_timer_ok m e"
  shows "\<exists>m'. kf_step m e = Some (m', snd (kf_spec_step m e))
    \<and> kf_inv m' \<and> kf_abs m' = fst (kf_spec_step m e)"
  using assms by (rule kf_step_refines)

lemma kf_inv_new: "kf_inv (KeyFrameRequestManager_new delay)"
  by (simp add: kf_inv_def KeyFrameRequestManager_new_def)

theorem KeyFrameRequestManager_refinement_witness:
  "\<exists>m'. kf_step (KeyFrameRequestManager_new 500) (NeedKeyFrame 7)
      = Some (m', [OnKeyFrameNeeded 7]) \<and> kf_inv m' \<and> ks_delayer (kf_abs m') 7 = Some False"
proof -
  have "kf_abs (KeyFrameRequestManager_new 500)
      = \<lparr>ks_delayed = True, ks_pending = Map.empty, ks_delayer = Map.empty\<rparr>"
    by (simp add: kf_abs_def KeyFrameRequestManager_new_def)
  with KeyFrameRequestManager_refinement [OF kf_inv_new [of 500], of "NeedKeyFrame 7"] show ?thesis
    by (auto simp: spec_defs)
qed

text \<open>
  C20: Key frame requests are bounded by the wishes. In any run of a new manager, with timers
  firing in any order as long as their objects live, every call succeeds and the number of
  requests sent for an SSRC is at most twice the number of times a key frame was asked for it.
\<close>

theorem KeyFrameRequestManager_requests_bounded:
  assumes "ok_run kf_step kf_timer_ok (KeyFrameRequestManager_new delay) events"
  shows "\<exists>m outs. run_steps kf_step (KeyFrameRequestManager_new delay) events = Some (m, outs)
    \<and> kf_inv m \<and> (\<forall>ssrc. kf_requests ssrc outs \<le> 2 * kf_wishes ssrc events)"
proof -
  obtain m outs where r: "run_steps kf_step (KeyFrameRequestManager_new delay) events = Some (m, outs)" "kf_inv m"
    using kf_machine.run_safe [OF kf_inv_new assms] by blast
  have "kf_requests ssrc outs \<le> 2 * kf_wishes ssrc events" for ssrc
    using kf_machine.run_account [OF kf_inv_new assms r(1), of ssrc]
    by (simp add: kf_account_def kf_credit_def kf_abs_def KeyFrameRequestManager_new_def split: if_splits)
  with r show ?thesis by blast
qed

theorem KeyFrameRequestManager_requests_bounded_witness:
  "let events = [NeedKeyFrame 7, NeedKeyFrame 7, PendingTimer 1, PendingTimer 1, DelayTimer 0] in
   ok_run kf_step kf_timer_ok (KeyFrameRequestManager_new 500) events \<and>
   (\<exists>m outs. run_steps kf_step (KeyFrameRequestManager_new 500) events = Some (m, outs)
      \<and> kf_requests 7 outs \<le> 2 * kf_wishes 7 events)"
proof -
  let ?events = "[NeedKeyFrame 7, NeedKeyFrame 7, PendingTimer 1, PendingTimer 1, DelayTimer 0]"
  have ok: "ok_run kf_step kf_timer_ok (KeyFrameRequestManager_new 500) ?events"
    by (simp add: KeyFrameRequestManager_new_def KeyFrameNeeded_def KeyFrameNeeded_pending_def
        store_delayer_def store_pending_def SetKeyFrameRequested_def SetRetryOnTimeout_def
        KeyFrameRequestDelayer_new_def PendingKeyFrameInfo_new_def OnKeyFrameRequestTimeout_def
        delete_pending_def OnKeyFrameDelayTimeout_def delete_delayer_def Let_def pending_OnTimer_def
        delayer_OnTimer_def Restart_pending_def Timer_Start_def Timer_Restart_def)
  with KeyFrameRequestManager_requests_bounded [OF ok] show ?thesis by auto
qed

section \<open>Wishes are not lost\<close>

text \<open>A wish that is not sent yet.\<close>

definition kf_owed :: "u32 \<Rightarrow> kf_spec \<Rightarrow> bool" where
  "kf_owed ssrc s \<longleftrightarrow> ks_pending s ssrc = Some True \<or> ks_delayer s ssrc = Some True"

lemma kf_spec_step_owed:
  assumes "kf_owed ssrc (kf_abs m)" and "e \<noteq> ReceiveKeyFrame ssrc"
  shows "OnKeyFrameNeeded ssrc \<in> set (snd (kf_spec_step m e)) \<or> kf_owed ssrc (fst (kf_spec_step m e))"
  using assms by (cases e) (auto simp: kf_owed_def spec_defs Let_def)

lemma run_owed:
  assumes "kf_inv m" and "kf_owed ssrc (kf_abs m)" and "ok_run kf_step kf_timer_ok m es"
    and "ReceiveKeyFrame ssrc \<notin> set es"
  shows "\<exists>m' outs. run_steps kf_step m es = Some (m', outs) \<and> kf_inv m' \<and>
    (OnKeyFrameNeeded ssrc \<in> set outs \<or> kf_owed ssrc (kf_abs m'))"
  using assms
proof (induction es arbitrary: m)
  case Nil
  then show ?case by simp
next
  case (Cons e es)
  from Cons.prems(3) have ok: "kf_timer_ok m e" by simp
  obtain m1 where m1: "kf_step m e = Some (m1, snd (kf_spec_step m e))" "kf_inv m1"
    "kf_abs m1 = fst (kf_spec_step m e)" using kf_step_refines [OF Cons.prems(1) ok] by blast
  with Cons.prems(3) have ok1: "ok_run kf_step kf_timer_ok m1 es" by simp
  show ?case
  proof (cases "OnKeyFrameNeeded ssrc \<in> set (snd (kf_spec_step m e))")
    case True
    with kf_machine.run_safe [OF m1(2) ok1] m1(1) show ?thesis by auto
  next
    case False
    with kf_spec_step_owed [OF Cons.prems(2), of e] Cons.prems(4) m1(3) have "kf_owed ssrc (kf_abs m1)" by auto
    with Cons.IH [OF m1(2) _ ok1] Cons.prems(4) m1(1) show ?thesis by auto
  qed
qed

text \<open>
  A running timer whose expiry sends the request: of a pending request, or of a delayer, where
  the expiry may hand the wish over to a pending request.
\<close>

definition sends_on_timeout :: "u32 \<Rightarrow> kf_manager \<Rightarrow> bool" where
  "sends_on_timeout ssrc m \<longleftrightarrow> (\<exists>a i m'. kf_pendings m a = Some i \<and> tm_active (pk_timer i) \<and>
     kf_step m (PendingTimer a) = Some (m', [OnKeyFrameNeeded ssrc]))"

definition sends_after_delay :: "u32 \<Rightarrow> kf_manager \<Rightarrow> bool" where
  "sends_after_delay ssrc m \<longleftrightarrow> (\<exists>a d m' out. kf_delayers m a = Some d \<and> tm_active (kd_timer d) \<and>
     kf_step m (DelayTimer a) = Some (m', out) \<and> (out = [OnKeyFrameNeeded ssrc] \<or> sends_on_timeout ssrc m'))"

lemma owed_pending_sends:
  assumes inv: "kf_inv m" and owed: "ks_pending (kf_abs m) ssrc = Some True"
  shows "sends_on_timeout ssrc m"
proof -
  from owed obtain a i where i: "kf_pendingMap m ssrc = Some a" "kf_pendings m a = Some i" "pk_retryOnTimeout i"
    by (auto simp: kf_abs_def bind_eq_Some_conv)
  from inv i have t: "tm_active (pk_timer i)" "pk_ssrc i = ssrc"
    by (auto simp: kf_inv_def Timer_Start_def)
  obtain m' where "kf_step m (PendingTimer a) = Some (m', snd (kf_spec_step m (PendingTimer a)))"
    using kf_step_refines [OF inv, of "PendingTimer a"] i(2) by auto
  with i(2) t owed show ?thesis by (auto simp: sends_on_timeout_def spec_timeout_def)
qed

lemma owed_delayer_sends:
  assumes inv: "kf_inv m" and owed: "ks_delayer (kf_abs m) ssrc = Some True"
  shows "sends_after_delay ssrc m"
proof -
  from owed obtain a d where d: "kf_delayerMap m ssrc = Some a" "kf_delayers m a = Some d"
    by (auto simp: kf_abs_def bind_eq_Some_conv)
  from inv d have t: "tm_active (kd_timer d)" "kd_ssrc d = ssrc"
    by (auto simp: kf_inv_def Timer_Start_def)
  obtain m' where m': "kf_step m (DelayTimer a) = Some (m', snd (kf_spec_step m (DelayTimer a)))" "kf_inv m'"
    "kf_abs m' = fst (kf_spec_step m (DelayTimer a))"
    using kf_step_refines [OF inv, of "DelayTimer a"] d(2) by auto
  from m'(3) d(2) t owed have "ks_pending (kf_abs m') ssrc = Some True"
    by (simp add: spec_delay_over_def spec_needed_def spec_pending_def Let_def)
  from owed_pending_sends [OF m'(2) this] m'(1) d(2) t show ?thesis by (auto simp: sends_after_delay_def)
qed

text \<open>
  C35: No wish is lost. After \<^verbatim>\<open>KeyFrameNeeded\<close>, and any calls and timers that follow it as long as no key
  frame arrives for that SSRC, the request has been sent, or a timer is running whose expiry sends it:
  the timer of a pending request marked for retry, or the timer of a delayer, whose expiry sends the
  request or leaves such a pending request with its timer running.
\<close>

theorem KeyFrameNeeded_not_lost:
  assumes "kf_inv m" and "KeyFrameNeeded ssrc m = Some (m1, out)"
    and "ok_run kf_step kf_timer_ok m1 es" and "ReceiveKeyFrame ssrc \<notin> set es"
  shows "\<exists>m2 outs. run_steps kf_step m1 es = Some (m2, outs) \<and>
    (OnKeyFrameNeeded ssrc \<in> set (out @ outs) \<or> sends_on_timeout ssrc m2 \<or> sends_after_delay ssrc m2)"
proof -
  from KeyFrameNeeded_ok [OF assms(1), of ssrc] assms(2) have m1: "kf_inv m1"
    "kf_abs m1 = fst (spec_needed ssrc (kf_abs m))" by auto
  then have "kf_owed ssrc (kf_abs m1)" by (simp add: kf_owed_def spec_defs)
  from run_owed [OF m1(1) this assms(3,4)] obtain m2 outs where
    m2: "run_steps kf_step m1 es = Some (m2, outs)" "kf_inv m2"
      "OnKeyFrameNeeded ssrc \<in> set outs \<or> kf_owed ssrc (kf_abs m2)" by blast
  with owed_pending_sends [OF m2(2)] owed_delayer_sends [OF m2(2)] show ?thesis
    by (auto simp: kf_owed_def)
qed

text \<open>The second wish for SSRC 7 is delayed.\<close>

definition example_delayed :: kf_manager where
  "example_delayed = fst (the (KeyFrameNeeded 7 (KeyFrameRequestManager_new 500)))"

definition example_wished :: kf_manager where
  "example_wished = fst (the (KeyFrameNeeded 7 example_delayed))"

lemma example_delayed_inv: "kf_inv example_delayed"
  using KeyFrameNeeded_ok [OF kf_inv_new [of 500], of 7] by (auto simp: example_delayed_def)

lemmas kf_eval = KeyFrameRequestManager_new_def KeyFrameNeeded_def KeyFrameNeeded_pending_def
  store_delayer_def store_pending_def SetKeyFrameRequested_def SetRetryOnTimeout_def
  KeyFrameRequestDelayer_new_def PendingKeyFrameInfo_new_def OnKeyFrameRequestTimeout_def
  delete_pending_def pending_OnTimer_def Restart_pending_def Timer_Start_def Timer_Restart_def
  example_delayed_def example_wished_def

theorem KeyFrameNeeded_not_lost_witness:
  "\<exists>m2. run_steps kf_step example_wished [NeedKeyFrame 8] = Some (m2, [OnKeyFrameNeeded 8]) \<and>
    (sends_on_timeout 7 m2 \<or> sends_after_delay 7 m2)"
proof -
  have k: "KeyFrameNeeded 7 example_delayed = Some (example_wished, [])"
    by (simp add: kf_eval)
  have "ok_run kf_step kf_timer_ok example_wished [NeedKeyFrame 8]"
    by (simp add: kf_eval)
  from KeyFrameNeeded_not_lost [OF example_delayed_inv k this] obtain m2 outs where
    m2: "run_steps kf_step example_wished [NeedKeyFrame 8] = Some (m2, outs)"
      "OnKeyFrameNeeded 7 \<in> set outs \<or> sends_on_timeout 7 m2 \<or> sends_after_delay 7 m2" by auto
  moreover from m2(1) have "outs = [OnKeyFrameNeeded 8]" by (auto simp: kf_eval)
  ultimately show ?thesis by simp
qed

end
