(* ===== verification/Utils.thy ===== *)
theory Utils
  imports SeqManager "HOL-Library.Monad_Syntax"
begin

unbundle bit_operations_syntax

text \<open>
  \<^verbatim>\<open>Utils\<close> (\<^verbatim>\<open>worker/include/Utils.hpp\<close>, \<^verbatim>\<open>worker/src/Utils/Crypto.cpp\<close>): access to integers in
  network byte order, padding, the CRC32 of STUN, pseudo random numbers, NTP time and the
  comparison of RTP timestamps.

  A buffer is a byte list; an access outside it is \<open>None\<close>, so that a parser that returns shows
  that it read only bytes it was given. The two conversions through \<^verbatim>\<open>double\<close> are written with
  integers: their operands stay below \<open>2^53\<close>, the product or quotient by a power of two is
  exact, and the single rounding of \<^verbatim>\<open>ms % 1000 / 1000\<close> is far smaller than the distance to the
  next integer after scaling.
\<close>

section \<open>Definitions\<close>

subsection \<open>Bytes\<close>

definition Get1Byte :: "bytes \<Rightarrow> nat \<Rightarrow> u8 option" where
  "Get1Byte data i = (if i < length data then Some (data ! i) else None)"

definition Get2Bytes :: "bytes \<Rightarrow> nat \<Rightarrow> u16 option" where
  "Get2Bytes data i = do {
     b1 \<leftarrow> Get1Byte data (i + 1);
     b0 \<leftarrow> Get1Byte data i;
     Some (ucast b1 OR push_bit 8 (ucast b0)) }"

definition Get3Bytes :: "bytes \<Rightarrow> nat \<Rightarrow> u32 option" where
  "Get3Bytes data i = do {
     b2 \<leftarrow> Get1Byte data (i + 2);
     b1 \<leftarrow> Get1Byte data (i + 1);
     b0 \<leftarrow> Get1Byte data i;
     Some (ucast b2 OR push_bit 8 (ucast b1) OR push_bit 16 (ucast b0)) }"

definition Get4Bytes :: "bytes \<Rightarrow> nat \<Rightarrow> u32 option" where
  "Get4Bytes data i = do {
     b3 \<leftarrow> Get1Byte data (i + 3);
     b2 \<leftarrow> Get1Byte data (i + 2);
     b1 \<leftarrow> Get1Byte data (i + 1);
     b0 \<leftarrow> Get1Byte data i;
     Some (ucast b3 OR push_bit 8 (ucast b2) OR push_bit 16 (ucast b1) OR push_bit 24 (ucast b0)) }"

definition Get8Bytes :: "bytes \<Rightarrow> nat \<Rightarrow> u64 option" where
  "Get8Bytes data i = do {
     hi \<leftarrow> Get4Bytes data i;
     lo \<leftarrow> Get4Bytes data (i + 4);
     Some (push_bit 32 (ucast hi) OR ucast lo) }"

definition Set1Byte :: "bytes \<Rightarrow> nat \<Rightarrow> u8 \<Rightarrow> bytes option" where
  "Set1Byte data i value = (if i < length data then Some (data[i := value]) else None)"

definition Set2Bytes :: "bytes \<Rightarrow> nat \<Rightarrow> u16 \<Rightarrow> bytes option" where
  "Set2Bytes data i value = do {
     data \<leftarrow> Set1Byte data (i + 1) (ucast value);
     Set1Byte data i (ucast (drop_bit 8 value)) }"

definition Set3Bytes :: "bytes \<Rightarrow> nat \<Rightarrow> u32 \<Rightarrow> bytes option" where
  "Set3Bytes data i value = do {
     data \<leftarrow> Set1Byte data (i + 2) (ucast value);
     data \<leftarrow> Set1Byte data (i + 1) (ucast (drop_bit 8 value));
     Set1Byte data i (ucast (drop_bit 16 value)) }"

definition Set4Bytes :: "bytes \<Rightarrow> nat \<Rightarrow> u32 \<Rightarrow> bytes option" where
  "Set4Bytes data i value = do {
     data \<leftarrow> Set1Byte data (i + 3) (ucast value);
     data \<leftarrow> Set1Byte data (i + 2) (ucast (drop_bit 8 value));
     data \<leftarrow> Set1Byte data (i + 1) (ucast (drop_bit 16 value));
     Set1Byte data i (ucast (drop_bit 24 value)) }"

definition Set8Bytes :: "bytes \<Rightarrow> nat \<Rightarrow> u64 \<Rightarrow> bytes option" where
  "Set8Bytes data i value = do {
     data \<leftarrow> Set1Byte data (i + 7) (ucast value);
     data \<leftarrow> Set1Byte data (i + 6) (ucast (drop_bit 8 value));
     data \<leftarrow> Set1Byte data (i + 5) (ucast (drop_bit 16 value));
     data \<leftarrow> Set1Byte data (i + 4) (ucast (drop_bit 24 value));
     data \<leftarrow> Set1Byte data (i + 3) (ucast (drop_bit 32 value));
     data \<leftarrow> Set1Byte data (i + 2) (ucast (drop_bit 40 value));
     data \<leftarrow> Set1Byte data (i + 1) (ucast (drop_bit 48 value));
     Set1Byte data i (ucast (drop_bit 56 value)) }"

definition PadTo4Bytes16 :: "u16 \<Rightarrow> u16" where
  "PadTo4Bytes16 sz = (if sz AND 0x03 \<noteq> 0 then (sz AND 0xFFFC) + 4 else sz)"

definition PadTo4Bytes32 :: "u32 \<Rightarrow> u32" where
  "PadTo4Bytes32 sz = (if sz AND 0x03 \<noteq> 0 then (sz AND 0xFFFFFFFC) + 4 else sz)"

subsection \<open>Crypto\<close>

definition crc32Table :: "u32 list" where
  "crc32Table =
    [
     0x00000000, 0x77073096, 0xee0e612c, 0x990951ba, 0x076dc419, 0x706af48f, 0xe963a535, 0x9e6495a3,
     0x0edb8832, 0x79dcb8a4, 0xe0d5e91e, 0x97d2d988, 0x09b64c2b, 0x7eb17cbd, 0xe7b82d07, 0x90bf1d91,
     0x1db71064, 0x6ab020f2, 0xf3b97148, 0x84be41de, 0x1adad47d, 0x6ddde4eb, 0xf4d4b551, 0x83d385c7,
     0x136c9856, 0x646ba8c0, 0xfd62f97a, 0x8a65c9ec, 0x14015c4f, 0x63066cd9, 0xfa0f3d63, 0x8d080df5,
     0x3b6e20c8, 0x4c69105e, 0xd56041e4, 0xa2677172, 0x3c03e4d1, 0x4b04d447, 0xd20d85fd, 0xa50ab56b,
     0x35b5a8fa, 0x42b2986c, 0xdbbbc9d6, 0xacbcf940, 0x32d86ce3, 0x45df5c75, 0xdcd60dcf, 0xabd13d59,
     0x26d930ac, 0x51de003a, 0xc8d75180, 0xbfd06116, 0x21b4f4b5, 0x56b3c423, 0xcfba9599, 0xb8bda50f,
     0x2802b89e, 0x5f058808, 0xc60cd9b2, 0xb10be924, 0x2f6f7c87, 0x58684c11, 0xc1611dab, 0xb6662d3d,
     0x76dc4190, 0x01db7106, 0x98d220bc, 0xefd5102a, 0x71b18589, 0x06b6b51f, 0x9fbfe4a5, 0xe8b8d433,
     0x7807c9a2, 0x0f00f934, 0x9609a88e, 0xe10e9818, 0x7f6a0dbb, 0x086d3d2d, 0x91646c97, 0xe6635c01,
     0x6b6b51f4, 0x1c6c6162, 0x856530d8, 0xf262004e, 0x6c0695ed, 0x1b01a57b, 0x8208f4c1, 0xf50fc457,
     0x65b0d9c6, 0x12b7e950, 0x8bbeb8ea, 0xfcb9887c, 0x62dd1ddf, 0x15da2d49, 0x8cd37cf3, 0xfbd44c65,
     0x4db26158, 0x3ab551ce, 0xa3bc0074, 0xd4bb30e2, 0x4adfa541, 0x3dd895d7, 0xa4d1c46d, 0xd3d6f4fb,
     0x4369e96a, 0x346ed9fc, 0xad678846, 0xda60b8d0, 0x44042d73, 0x33031de5, 0xaa0a4c5f, 0xdd0d7cc9,
     0x5005713c, 0x270241aa, 0xbe0b1010, 0xc90c2086, 0x5768b525, 0x206f85b3, 0xb966d409, 0xce61e49f,
     0x5edef90e, 0x29d9c998, 0xb0d09822, 0xc7d7a8b4, 0x59b33d17, 0x2eb40d81, 0xb7bd5c3b, 0xc0ba6cad,
     0xedb88320, 0x9abfb3b6, 0x03b6e20c, 0x74b1d29a, 0xead54739, 0x9dd277af, 0x04db2615, 0x73dc1683,
     0xe3630b12, 0x94643b84, 0x0d6d6a3e, 0x7a6a5aa8, 0xe40ecf0b, 0x9309ff9d, 0x0a00ae27, 0x7d079eb1,
     0xf00f9344, 0x8708a3d2, 0x1e01f268, 0x6906c2fe, 0xf762575d, 0x806567cb, 0x196c3671, 0x6e6b06e7,
     0xfed41b76, 0x89d32be0, 0x10da7a5a, 0x67dd4acc, 0xf9b9df6f, 0x8ebeeff9, 0x17b7be43, 0x60b08ed5,
     0xd6d6a3e8, 0xa1d1937e, 0x38d8c2c4, 0x4fdff252, 0xd1bb67f1, 0xa6bc5767, 0x3fb506dd, 0x48b2364b,
     0xd80d2bda, 0xaf0a1b4c, 0x36034af6, 0x41047a60, 0xdf60efc3, 0xa867df55, 0x316e8eef, 0x4669be79,
     0xcb61b38c, 0xbc66831a, 0x256fd2a0, 0x5268e236, 0xcc0c7795, 0xbb0b4703, 0x220216b9, 0x5505262f,
     0xc5ba3bbe, 0xb2bd0b28, 0x2bb45a92, 0x5cb36a04, 0xc2d7ffa7, 0xb5d0cf31, 0x2cd99e8b, 0x5bdeae1d,
     0x9b64c2b0, 0xec63f226, 0x756aa39c, 0x026d930a, 0x9c0906a9, 0xeb0e363f, 0x72076785, 0x05005713,
     0x95bf4a82, 0xe2b87a14, 0x7bb12bae, 0x0cb61b38, 0x92d28e9b, 0xe5d5be0d, 0x7cdcefb7, 0x0bdbdf21,
     0x86d3d2d4, 0xf1d4e242, 0x68ddb3f8, 0x1fda836e, 0x81be16cd, 0xf6b9265b, 0x6fb077e1, 0x18b74777,
     0x88085ae6, 0xff0f6a70, 0x66063bca, 0x11010b5c, 0x8f659eff, 0xf862ae69, 0x616bffd3, 0x166ccf45,
     0xa00ae278, 0xd70dd2ee, 0x4e048354, 0x3903b3c2, 0xa7672661, 0xd06016f7, 0x4969474d, 0x3e6e77db,
     0xaed16a4a, 0xd9d65adc, 0x40df0b66, 0x37d83bf0, 0xa9bcae53, 0xdebb9ec5, 0x47b2cf7f, 0x30b5ffe9,
     0xbdbdf21c, 0xcabac28a, 0x53b39330, 0x24b4a3a6, 0xbad03605, 0xcdd70693, 0x54de5729, 0x23d967bf,
     0xb3667a2e, 0xc4614ab8, 0x5d681b02, 0x2a6f2b94, 0xb40bbe37, 0xc30c8ea1, 0x5a05df1b, 0x2d02ef8d]"

fun crc32_loop :: "u32 \<Rightarrow> bytes \<Rightarrow> u32" where
  "crc32_loop crc [] = crc"
| "crc32_loop crc (p # ps) =
     crc32_loop (crc32Table ! unat ((crc XOR ucast p) AND 0xFF) XOR drop_bit 8 crc) ps"

text \<open>The first \<open>sz\<close> bytes of \<open>data\<close>.\<close>

definition GetCRC32 :: "bytes \<Rightarrow> nat \<Rightarrow> u32 option" where
  "GetCRC32 data sz =
     (if sz \<le> length data then Some (crc32_loop 0xFFFFFFFF (take sz data) XOR NOT 0) else None)"

text \<open>The new seed and the number; \<open>None\<close> would be a division by zero.\<close>

definition GetRandomUInt :: "u32 \<Rightarrow> u32 \<Rightarrow> u32 \<Rightarrow> (u32 \<times> u32) option" where
  "GetRandomUInt seed mn mx =
     (let seed' = 214013 * seed + 2531011;
          max' = (if mx = 4294967295 then mx - 1 else mx);
          min' = (if mn > max' then max' else mn)
      in if max' - min' + 1 = 0 then None
         else Some (seed', ((drop_bit 4 seed' AND 0x7FFF7FFF) mod (max' - min' + 1)) + min'))"

subsection \<open>Time\<close>

record ntp =
  ntp_seconds :: u32
  ntp_fractions :: u32

definition TimeMs2Ntp :: "u64 \<Rightarrow> ntp" where
  "TimeMs2Ntp ms =
     \<lparr>ntp_seconds = ucast (ms div 1000),
      ntp_fractions = of_nat ((unat (ms mod 1000) * 2 ^ 32) div 1000)\<rparr>"

definition Ntp2TimeMs :: "ntp \<Rightarrow> u64" where
  "Ntp2TimeMs n =
     ucast (ntp_seconds n) * 1000 + of_nat ((2 * unat (ntp_fractions n) * 1000 + 2 ^ 32) div (2 * 2 ^ 32))"

definition IsNewerTimestamp :: "u32 \<Rightarrow> u32 \<Rightarrow> bool" where
  "IsNewerTimestamp timestamp prevTimestamp =
     (if timestamp - prevTimestamp = 0x80000000 then timestamp > prevTimestamp
      else timestamp \<noteq> prevTimestamp \<and> timestamp - prevTimestamp < 0x80000000)"

definition LatestTimestamp :: "u32 \<Rightarrow> u32 \<Rightarrow> u32" where
  "LatestTimestamp timestamp1 timestamp2 =
     (if IsNewerTimestamp timestamp1 timestamp2 then timestamp1 else timestamp2)"

definition TimeMsToAbsSendTime :: "u64 \<Rightarrow> u32" where
  "TimeMsToAbsSendTime ms = ucast ((push_bit 18 ms + 500) div 1000) AND 0x00FFFFFF"

section \<open>The field contract\<close>

text \<open>
  A field of fixed width in a buffer: reading succeeds exactly inside the buffer and inverts the
  encoding; writing replaces the field's bytes and nothing else.
\<close>

locale byte_field =
  fixes width :: nat
    and get_field :: "bytes \<Rightarrow> nat \<Rightarrow> 'v option"
    and set_field :: "bytes \<Rightarrow> nat \<Rightarrow> 'v \<Rightarrow> bytes option"
    and enc :: "'v \<Rightarrow> bytes"
  assumes enc_length: "length (enc v) = width"
    and get_total: "i + width \<le> length d \<Longrightarrow> get_field d i \<noteq> None"
    and get_iff: "get_field d i = Some v \<longleftrightarrow> i + width \<le> length d \<and> take width (drop i d) = enc v"
    and set_eq: "set_field d i v =
      (if i + width \<le> length d then Some (take i d @ enc v @ drop (i + width) d) else None)"
begin

lemma get_None_iff: "get_field d i = None \<longleftrightarrow> length d < i + width"
  using get_total [of i d] get_iff [of d i] by (metis linorder_not_less option.exhaust)

lemma get_enc: "get_field (xs @ enc v @ ys) (length xs) = Some v"
  by (simp add: get_iff enc_length)

lemma get_enc_at: "length xs = i \<Longrightarrow> get_field (xs @ enc v @ ys) i = Some v"
  using get_enc by auto

lemma get_enc_0: "get_field (enc v @ ys) 0 = Some v"
  by (simp add: get_iff enc_length)

lemma enc_inj: "enc v = enc w \<longleftrightarrow> v = w"
  by (metis get_enc option.inject)

lemma get_append_left:
  assumes "i + width \<le> length xs"
  shows "get_field (xs @ ys) i = get_field xs i"
proof -
  from get_total [OF assms] obtain v where v: "get_field xs i = Some v" by auto
  with assms have "get_field (xs @ ys) i = Some v" by (simp add: get_iff)
  with v show ?thesis by simp
qed

lemma get_append_right: "get_field (xs @ ys) (length xs + i) = get_field ys i"
proof (cases "get_field ys i")
  case None
  then have "length (xs @ ys) < length xs + i + width" by (simp add: get_None_iff)
  then show ?thesis using None get_None_iff by metis
next
  case (Some v)
  then have "i + width \<le> length ys" "take width (drop i ys) = enc v" by (simp_all add: get_iff)
  then have "get_field (xs @ ys) (length xs + i) = Some v" by (simp add: get_iff)
  with Some show ?thesis by simp
qed

lemma get_drop: "get_field (drop n d) i = get_field d (n + i)" if "n \<le> length d"
  using get_append_right [of "take n d" "drop n d" i] that by simp

lemma get_set: "set_field d i v = Some d' \<Longrightarrow> get_field d' i = Some v \<and> length d' = length d"
  using get_enc_at [of "take i d" i v] by (auto simp: set_eq enc_length split: if_splits)

lemma set_other_byte:
  assumes "set_field d i v = Some d'" and "j < i \<or> i + width \<le> j"
  shows "d' ! j = d ! j"
  using assms by (auto simp: set_eq nth_append enc_length split: if_splits)

lemma field_roundtrip:
  "case set_field d i v of
     None \<Rightarrow> length d < i + width \<and> get_field d i = None
   | Some d' \<Rightarrow> get_field d' i = Some v \<and> length d' = length d
       \<and> (\<forall>j. j < i \<or> i + width \<le> j \<longrightarrow> d' ! j = d ! j)"
proof (cases "set_field d i v")
  case None
  then show ?thesis by (simp add: get_None_iff set_eq split: if_splits)
next
  case (Some d')
  then show ?thesis using get_set [OF Some] set_other_byte [OF Some] by simp
qed

end

definition enc1 :: "u8 \<Rightarrow> bytes" where
  "enc1 v = [v]"

definition enc2 :: "u16 \<Rightarrow> bytes" where
  "enc2 v = [ucast (drop_bit 8 v), ucast v]"

definition enc3 :: "24 word \<Rightarrow> bytes" where
  "enc3 v = [ucast (drop_bit 16 v), ucast (drop_bit 8 v), ucast v]"

definition enc4 :: "u32 \<Rightarrow> bytes" where
  "enc4 v = [ucast (drop_bit 24 v), ucast (drop_bit 16 v), ucast (drop_bit 8 v), ucast v]"

definition enc8 :: "u64 \<Rightarrow> bytes" where
  "enc8 v = enc4 (ucast (drop_bit 32 v)) @ enc4 (ucast v)"

lemma take_Suc_drop: "i < length d \<Longrightarrow> take (Suc n) (drop i d) = d ! i # take n (drop (Suc i) d)"
  by (simp add: Cons_nth_drop_Suc [symmetric])

lemma word_join2:
  fixes b0 b1 :: u8 and v :: u16
  shows "ucast (drop_bit 8 (ucast b1 OR push_bit 8 (ucast b0) :: u16)) = b0"
    and "ucast (ucast b1 OR push_bit 8 (ucast b0) :: u16) = b1"
    and "ucast (ucast v :: u8) OR push_bit 8 (ucast (ucast (drop_bit 8 v) :: u8)) = v"
  by (rule bit_word_eqI, auto simp: bit_simps dest: bit_imp_le_length)+

lemma word_join3:
  fixes b0 b1 b2 :: u8 and v :: "24 word"
  shows "ucast (drop_bit 16 (ucast (ucast b2 OR push_bit 8 (ucast b1) OR push_bit 16 (ucast b0) :: u32) :: 24 word)) = b0"
    and "ucast (drop_bit 8 (ucast (ucast b2 OR push_bit 8 (ucast b1) OR push_bit 16 (ucast b0) :: u32) :: 24 word)) = b1"
    and "ucast (ucast (ucast b2 OR push_bit 8 (ucast b1) OR push_bit 16 (ucast b0) :: u32) :: 24 word) = b2"
  by (rule bit_word_eqI, auto simp: bit_simps dest: bit_imp_le_length)+

lemma word_join3_id:
  fixes v :: "24 word"
  shows "ucast (ucast (ucast v :: u8) OR push_bit 8 (ucast (ucast (drop_bit 8 v) :: u8))
    OR push_bit 16 (ucast (ucast (drop_bit 16 v) :: u8)) :: u32) = v"
proof (rule bit_word_eqI)
  fix n
  assume "n < LENGTH(24)"
  then show "bit (ucast (ucast (ucast v :: u8) OR push_bit 8 (ucast (ucast (drop_bit 8 v) :: u8))
    OR push_bit 16 (ucast (ucast (drop_bit 16 v) :: u8)) :: u32) :: 24 word) n \<longleftrightarrow> bit v n"
    by (cases "n < 8"; cases "n < 16") (auto simp: bit_simps)
qed

lemma word_join4:
  fixes b0 b1 b2 b3 :: u8
  defines "v \<equiv> ucast b3 OR push_bit 8 (ucast b2) OR push_bit 16 (ucast b1) OR push_bit 24 (ucast b0) :: u32"
  shows "ucast (drop_bit 24 v) = b0" and "ucast (drop_bit 16 v) = b1"
    and "ucast (drop_bit 8 v) = b2" and "ucast v = b3"
  unfolding v_def by (rule bit_word_eqI, auto simp: bit_simps dest: bit_imp_le_length)+

lemma word_join4_id:
  fixes v :: u32
  shows "ucast (ucast v :: u8) OR push_bit 8 (ucast (ucast (drop_bit 8 v) :: u8))
    OR push_bit 16 (ucast (ucast (drop_bit 16 v) :: u8)) OR push_bit 24 (ucast (ucast (drop_bit 24 v) :: u8)) = v"
proof (rule bit_word_eqI)
  fix n
  assume "n < LENGTH(32)"
  then show "bit (ucast (ucast v :: u8) OR push_bit 8 (ucast (ucast (drop_bit 8 v) :: u8))
    OR push_bit 16 (ucast (ucast (drop_bit 16 v) :: u8))
    OR push_bit 24 (ucast (ucast (drop_bit 24 v) :: u8)) :: u32) n \<longleftrightarrow> bit v n"
    by (cases "n < 8"; cases "n < 16"; cases "n < 24") (auto simp: bit_simps)
qed

lemma word_join8:
  fixes hi lo :: u32 and v :: u64
  shows "ucast (drop_bit 32 (push_bit 32 (ucast hi) OR ucast lo :: u64)) = hi"
    and "ucast (push_bit 32 (ucast hi) OR ucast lo :: u64) = lo"
    and "push_bit 32 (ucast (ucast (drop_bit 32 v) :: u32)) OR ucast (ucast v :: u32) = v"
  by (rule bit_word_eqI, auto simp: bit_simps dest: bit_imp_le_length)+

lemmas get_defs = Get1Byte_def Get2Bytes_def Get3Bytes_def Get4Bytes_def
lemmas set_defs = Set1Byte_def Set2Bytes_def Set3Bytes_def Set4Bytes_def
lemmas enc_defs = enc1_def enc2_def enc3_def enc4_def

lemma split_field:
  assumes "i + n \<le> length d"
  obtains xs ms ys where "d = xs @ ms @ ys" and "length xs = i" and "length ms = n"
proof
  show "d = take i d @ take n (drop i d) @ drop (i + n) d"
    by (metis append_take_drop_id drop_drop add.commute)
qed (use assms in simp_all)

lemma set_field_eqI:
  assumes "\<And>xs ms ys. d = xs @ ms @ ys \<Longrightarrow> length xs = i \<Longrightarrow> length ms = n \<Longrightarrow> r = Some (xs @ e @ ys)"
    and "\<not> i + n \<le> length d \<Longrightarrow> r = None"
  shows "r = (if i + n \<le> length d then Some (take i d @ e @ drop (i + n) d) else None)"
proof (cases "i + n \<le> length d")
  case True
  then obtain xs ms ys where "d = xs @ ms @ ys" "length xs = i" "length ms = n" by (rule split_field)
  with assms(1) [OF this] True show ?thesis by simp
qed (use assms(2) in simp)

lemma get_field_iffI:
  assumes "\<And>xs ms ys. d = xs @ ms @ ys \<Longrightarrow> length xs = i \<Longrightarrow> length ms = n \<Longrightarrow>
      r = Some v \<longleftrightarrow> ms = e"
    and "\<not> i + n \<le> length d \<Longrightarrow> r = None"
  shows "r = Some v \<longleftrightarrow> i + n \<le> length d \<and> take n (drop i d) = e"
proof (cases "i + n \<le> length d")
  case True
  then obtain xs ms ys where s: "d = xs @ ms @ ys" "length xs = i" "length ms = n" by (rule split_field)
  with assms(1) [OF this] True show ?thesis by simp
qed (use assms(2) in simp)

lemmas length_conv = length_Suc_conv numeral_2_eq_2 numeral_3_eq_3

lemma length_4_conv: "length xs = 4 \<longleftrightarrow> (\<exists>a b c d. xs = [a, b, c, d])"
  by (auto simp: length_Suc_conv numeral_eq_Suc)

interpretation byte1: byte_field 1 Get1Byte Set1Byte enc1
  by unfold_locales
     (auto simp: get_defs set_defs enc_defs take_Suc_drop upd_conv_take_nth_drop)

interpretation byte2: byte_field 2 Get2Bytes Set2Bytes enc2
proof
  show "Get2Bytes d i = Some v \<longleftrightarrow> i + 2 \<le> length d \<and> take 2 (drop i d) = enc2 v" for d i v
  proof (rule get_field_iffI)
    fix xs ms ys
    assume d: "d = xs @ ms @ ys" "length xs = i" and "length ms = 2"
    then obtain b0 b1 where ms: "ms = [b0, b1]" by (auto simp: length_conv)
    show "Get2Bytes d i = Some v \<longleftrightarrow> ms = enc2 v"
      using word_join2(3) [of v] word_join2(1,2) [of b1 b0] d
      by (auto simp: ms get_defs enc_defs nth_append)
  qed (simp add: get_defs)
  show "Set2Bytes d i v = (if i + 2 \<le> length d then Some (take i d @ enc2 v @ drop (i + 2) d) else None)" for d i v
    by (rule set_field_eqI) (auto simp: set_defs enc_defs length_conv list_update_append)
qed (auto simp: enc_defs get_defs)

interpretation byte4: byte_field 4 Get4Bytes Set4Bytes enc4
proof
  show "Get4Bytes d i = Some v \<longleftrightarrow> i + 4 \<le> length d \<and> take 4 (drop i d) = enc4 v" for d i v
  proof (rule get_field_iffI)
    fix xs ms ys
    assume d: "d = xs @ ms @ ys" "length xs = i" and "length ms = 4"
    then obtain b0 b1 b2 b3 where ms: "ms = [b0, b1, b2, b3]" by (auto simp: length_4_conv)
    show "Get4Bytes d i = Some v \<longleftrightarrow> ms = enc4 v"
      using word_join4_id [of v] word_join4 [of b3 b2 b1 b0] d
      by (auto simp: ms get_defs enc_defs nth_append)
  qed (simp add: get_defs)
  show "Set4Bytes d i v = (if i + 4 \<le> length d then Some (take i d @ enc4 v @ drop (i + 4) d) else None)" for d i v
    by (rule set_field_eqI) (auto simp: set_defs enc_defs length_4_conv list_update_append)
qed (auto simp: enc_defs get_defs)

interpretation byte3: byte_field 3 "\<lambda>d i. map_option ucast (Get3Bytes d i)"
  "\<lambda>d i (v :: 24 word). Set3Bytes d i (ucast v)" enc3
proof
  show "map_option ucast (Get3Bytes d i) = Some v \<longleftrightarrow> i + 3 \<le> length d \<and> take 3 (drop i d) = enc3 v"
    for d i and v :: "24 word"
  proof (rule get_field_iffI)
    fix xs ms ys
    assume d: "d = xs @ ms @ ys" "length xs = i" and "length ms = 3"
    then obtain b0 b1 b2 where ms: "ms = [b0, b1, b2]" by (auto simp: length_conv)
    show "map_option ucast (Get3Bytes d i) = Some v \<longleftrightarrow> ms = enc3 v"
      using word_join3_id [of v] word_join3 [of b2 b1 b0] d
      by (auto simp: ms get_defs enc_defs nth_append)
  qed (simp add: get_defs)
  have u: "ucast (drop_bit 16 (ucast v :: u32)) = (ucast (drop_bit 16 v) :: u8)"
    "ucast (drop_bit 8 (ucast v :: u32)) = (ucast (drop_bit 8 v) :: u8)"
    "ucast (ucast v :: u32) = (ucast v :: u8)" for v :: "24 word"
    by (rule bit_word_eqI, auto simp: bit_simps dest: bit_imp_le_length)+
  show "Set3Bytes d i (ucast v) = (if i + 3 \<le> length d then Some (take i d @ enc3 v @ drop (i + 3) d) else None)"
    for d i and v :: "24 word"
    by (rule set_field_eqI) (auto simp: set_defs enc_defs length_conv list_update_append u)
qed (auto simp: enc_defs get_defs)

lemma Get8Bytes_iff:
  "Get8Bytes d i = Some v \<longleftrightarrow>
     Get4Bytes d i = Some (ucast (drop_bit 32 v)) \<and> Get4Bytes d (i + 4) = Some (ucast v)"
proof (cases "Get4Bytes d i")
  case (Some hi)
  show ?thesis
  proof (cases "Get4Bytes d (i + 4)")
    case lo: (Some lo)
    have "push_bit 32 (ucast hi) OR ucast lo = v \<longleftrightarrow> hi = ucast (drop_bit 32 v) \<and> lo = ucast v"
      using word_join8(1,2) [of hi lo] word_join8(3) [of v] by metis
    with Some lo show ?thesis by (simp add: Get8Bytes_def)
  qed (simp add: Get8Bytes_def Some)
qed (simp add: Get8Bytes_def)

interpretation byte8: byte_field 8 Get8Bytes Set8Bytes enc8
proof
  show "length (enc8 v) = 8" for v by (simp add: enc8_def byte4.enc_length)
  show "Get8Bytes d i \<noteq> None" if "i + 8 \<le> length d" for d i
    using that byte4.get_total [of i d] byte4.get_total [of "i + 4" d] by (auto simp: Get8Bytes_def)
  show "Get8Bytes d i = Some v \<longleftrightarrow> i + 8 \<le> length d \<and> take 8 (drop i d) = enc8 v" for d i v
  proof -
    have "take 8 (drop i d) = take 4 (drop i d) @ take 4 (drop (i + 4) d)"
      using take_add [of 4 4 "drop i d"] by (simp add: add.commute)
    then show ?thesis
      unfolding Get8Bytes_iff byte4.get_iff enc8_def
      by (auto simp: append_eq_append_conv byte4.enc_length)
  qed
  have u: "ucast (drop_bit 24 (ucast (drop_bit 32 v) :: u32)) = (ucast (drop_bit 56 v) :: u8)"
    "ucast (drop_bit 16 (ucast (drop_bit 32 v) :: u32)) = (ucast (drop_bit 48 v) :: u8)"
    "ucast (drop_bit 8 (ucast (drop_bit 32 v) :: u32)) = (ucast (drop_bit 40 v) :: u8)"
    "ucast (ucast (drop_bit 32 v) :: u32) = (ucast (drop_bit 32 v) :: u8)"
    "ucast (drop_bit 24 (ucast v :: u32)) = (ucast (drop_bit 24 v) :: u8)"
    "ucast (drop_bit 16 (ucast v :: u32)) = (ucast (drop_bit 16 v) :: u8)"
    "ucast (drop_bit 8 (ucast v :: u32)) = (ucast (drop_bit 8 v) :: u8)"
    "ucast (ucast v :: u32) = (ucast v :: u8)" for v :: u64
    by (rule bit_word_eqI, auto simp: bit_simps add.commute add.left_commute dest: bit_imp_le_length)+
  have l8: "length xs = 8 \<longleftrightarrow> (\<exists>a b c d e f g h. xs = [a, b, c, d, e, f, g, h])" for xs :: bytes
    by (auto simp: length_Suc_conv numeral_eq_Suc)
  show "Set8Bytes d i v = (if i + 8 \<le> length d then Some (take i d @ enc8 v @ drop (i + 8) d) else None)" for d i v
    by (rule set_field_eqI)
       (auto simp: Set8Bytes_def set_defs enc8_def enc_defs l8 list_update_append u)
qed

section \<open>CRC32 by bits\<close>

text \<open>
  The reference: the reflected polynomial \<open>0xEDB88320\<close>, one bit at a time. The table holds
  eight steps of it for every byte.
\<close>

definition crc_step :: "u32 \<Rightarrow> u32" where
  "crc_step x = (if bit x 0 then drop_bit 1 x XOR 0xEDB88320 else drop_bit 1 x)"

definition crc_byte :: "u32 \<Rightarrow> u8 \<Rightarrow> u32" where
  "crc_byte crc b = (crc_step ^^ 8) (crc XOR ucast b)"

definition crc32_spec :: "bytes \<Rightarrow> u32" where
  "crc32_spec bs = NOT (foldl crc_byte 0xFFFFFFFF bs)"

lemma crc_step_xor: "crc_step (x XOR y) = crc_step x XOR crc_step y"
proof -
  have "drop_bit 1 (x XOR y) = drop_bit 1 x XOR drop_bit 1 y" by (simp add: drop_bit_xor)
  then show ?thesis by (auto simp: crc_step_def bit_xor_iff ac_simps)
qed

lemma crc_steps_xor: "(crc_step ^^ n) (x XOR y) = (crc_step ^^ n) x XOR (crc_step ^^ n) y"
  by (induction n) (simp_all add: crc_step_xor)

lemma crc_steps_shift:
  assumes "\<forall>k < n. \<not> bit x k"
  shows "(crc_step ^^ n) x = drop_bit n x"
  using assms
proof (induction n)
  case 0
  then show ?case by simp
next
  case (Suc n)
  then have "(crc_step ^^ n) x = drop_bit n x" by simp
  moreover have "\<not> bit (drop_bit n x) 0" using Suc.prems by (simp add: bit_drop_bit_eq)
  ultimately show ?case by (simp add: crc_step_def [of "drop_bit n x"])
qed

definition crc_entry :: "nat \<Rightarrow> u32" where
  "crc_entry i = (crc_step ^^ 8) (of_nat i)"

fun crc_double :: "u32 list \<Rightarrow> u32 list \<Rightarrow> u32 list" where
  "crc_double xs [] = xs"
| "crc_double xs (c # cs) = crc_double (xs @ map (\<lambda>x. x XOR c) xs) cs"

lemma crc_entry_add:
  assumes "i < 2 ^ k"
  shows "crc_entry (i + 2 ^ k) = crc_entry i XOR crc_entry (2 ^ k)"
proof -
  have "\<not> bit i k" using assms by (simp add: bit_iff_odd)
  then have "(of_nat i :: u32) AND 2 ^ k = 0"
    by (intro bit_word_eqI) (auto simp: bit_simps)
  then have "(of_nat (i + 2 ^ k) :: u32) = of_nat i XOR 2 ^ k"
    by (simp add: disjunctive_add_eq_xor [symmetric])
  then show ?thesis by (simp add: crc_entry_def crc_steps_xor)
qed

lemma crc_double_entries:
  "crc_double (map crc_entry [0..<2 ^ k]) (map (\<lambda>j. crc_entry (2 ^ j)) [k..<k + n]) = map crc_entry [0..<2 ^ (k + n)]"
proof (induction n arbitrary: k)
  case 0
  show ?case by simp
next
  case (Suc n)
  have "map crc_entry [0..<2 ^ Suc k] = map crc_entry [0..<2 ^ k] @ map (\<lambda>x. x XOR crc_entry (2 ^ k)) (map crc_entry [0..<2 ^ k])"
  proof -
    have "[0..<2 ^ Suc k] = [0..<2 ^ k] @ map (\<lambda>i. i + 2 ^ k) [0..<2 ^ k]"
      using upt_add_eq_append [of 0 "2 ^ k" "2 ^ k"] map_add_upt [of "2 ^ k" "2 ^ k"]
      unfolding power_Suc mult_2 by simp
    then show ?thesis by (auto simp: crc_entry_add)
  qed
  with Suc.IH [of "Suc k"] show ?case by (simp add: upt_conv_Cons del: upt_Suc)
qed

lemma crc_entry_power: "k \<le> 8 \<Longrightarrow> crc_entry (2 ^ k) = (crc_step ^^ (8 - k)) 1"
proof -
  assume k: "k \<le> 8"
  have "(crc_step ^^ 8) (2 ^ k) = (crc_step ^^ (8 - k)) ((crc_step ^^ k) (2 ^ k))"
    using k funpow_add [of "8 - k" k crc_step] by simp
  also have "(crc_step ^^ k) (2 ^ k) = drop_bit k (2 ^ k)"
    by (rule crc_steps_shift) (auto simp: bit_simps)
  also have "drop_bit k (2 ^ k) = (1 :: u32)" using k
    by (intro bit_word_eqI) (auto simp: bit_simps)
  finally show ?thesis by (simp add: crc_entry_def)
qed

lemma funpow_unfold:
  fixes f :: "'a \<Rightarrow> 'a"
  assumes "n = Suc m"
  shows "(f ^^ n) x = f ((f ^^ m) x)"
  using assms by simp

lemma crc32Table_spec: "crc32Table = map crc_entry [0..<256]"
proof -
  have p1: "crc_step 1 = 0xedb88320"
    by (simp add: crc_step_def)
  have p2: "(crc_step ^^ 2) 1 = 0x76dc4190"
    by (subst funpow_unfold [of 2 1]) (simp_all add: p1 crc_step_def [of "0xedb88320"])
  have p3: "(crc_step ^^ 3) 1 = 0x3b6e20c8"
    by (subst funpow_unfold [of 3 2]) (simp_all add: p2 crc_step_def [of "0x76dc4190"])
  have p4: "(crc_step ^^ 4) 1 = 0x1db71064"
    by (subst funpow_unfold [of 4 3]) (simp_all add: p3 crc_step_def [of "0x3b6e20c8"])
  have p5: "(crc_step ^^ 5) 1 = 0x0edb8832"
    by (subst funpow_unfold [of 5 4]) (simp_all add: p4 crc_step_def [of "0x1db71064"])
  have p6: "(crc_step ^^ 6) 1 = 0x076dc419"
    by (subst funpow_unfold [of 6 5]) (simp_all add: p5 crc_step_def [of "0x0edb8832"])
  have p7: "(crc_step ^^ 7) 1 = 0xee0e612c"
    by (subst funpow_unfold [of 7 6]) (simp_all add: p6 crc_step_def [of "0x076dc419"])
  have p8: "(crc_step ^^ 8) 1 = 0x77073096"
    by (subst funpow_unfold [of 8 7]) (simp_all add: p7 crc_step_def [of "0xee0e612c"])
  have e: "crc_entry 1 = 0x77073096" "crc_entry 2 = 0xee0e612c" "crc_entry 4 = 0x076dc419"
    "crc_entry 8 = 0x0edb8832" "crc_entry 16 = 0x1db71064" "crc_entry 32 = 0x3b6e20c8"
    "crc_entry 64 = 0x76dc4190" "crc_entry 128 = 0xedb88320"
    using crc_entry_power [of 0] crc_entry_power [of 1] crc_entry_power [of 2] crc_entry_power [of 3]
      crc_entry_power [of 4] crc_entry_power [of 5] crc_entry_power [of 6] crc_entry_power [of 7]
      p1 p2 p3 p4 p5 p6 p7 p8 by simp_all
  have b: "map (\<lambda>j. crc_entry (2 ^ j)) [0..<8] =
      [0x77073096, 0xee0e612c, 0x076dc419, 0x0edb8832, 0x1db71064, 0x3b6e20c8, 0x76dc4190, 0xedb88320]"
    using e by (simp add: upt_rec)
  have "crc32Table = crc_double [0] [0x77073096, 0xee0e612c, 0x076dc419, 0x0edb8832, 0x1db71064, 0x3b6e20c8, 0x76dc4190, 0xedb88320]"
    by (simp add: crc32Table_def)
  also have "[0] = map crc_entry [0..<2 ^ 0]" by (simp add: crc_entry_def crc_steps_shift)
  finally show ?thesis using crc_double_entries [of 0 8] unfolding b [symmetric] by simp
qed

lemma split_low_byte: "(x :: u32) = (x AND 0xFF) XOR push_bit 8 (drop_bit 8 x)"
proof -
  have m: "(0xFF :: u32) = mask 8" by (simp add: mask_eq_exp_minus_1)
  show ?thesis unfolding m by (intro bit_word_eqI) (auto simp: bit_simps)
qed

lemma crc_table_byte:
  "crc32Table ! unat ((crc XOR ucast p) AND 0xFF) XOR drop_bit 8 crc = crc_byte crc p"
proof -
  let ?x = "crc XOR ucast p" and ?lo = "(crc XOR ucast p) AND 0xFF"
  have lo: "unat ?lo < 256"
    using unat_and_mask_word [of ?x 8] by (simp add: mask_eq_exp_minus_1)
  have "?x = ?lo XOR push_bit 8 (drop_bit 8 ?x)" by (rule split_low_byte)
  moreover have "(crc_step ^^ 8) (push_bit 8 (drop_bit 8 ?x)) = drop_bit 8 crc"
  proof (subst crc_steps_shift)
    show "\<forall>k<8. \<not> bit (push_bit 8 (drop_bit 8 ?x)) k" by (simp add: bit_simps)
    show "drop_bit 8 (push_bit 8 (drop_bit 8 ?x)) = drop_bit 8 crc"
      by (rule bit_word_eqI) (auto simp: bit_simps dest: bit_imp_le_length)
  qed
  moreover have "crc32Table ! unat ?lo = (crc_step ^^ 8) ?lo"
    using lo by (simp add: crc32Table_spec crc_entry_def)
  ultimately show ?thesis unfolding crc_byte_def by (metis crc_steps_xor)
qed

lemma crc32_loop_spec: "crc32_loop crc bs = foldl crc_byte crc bs"
  by (induction bs arbitrary: crc) (simp_all add: crc_table_byte)

section \<open>Padding\<close>

lemma and_low_two:
  fixes x :: "'a::len word"
  assumes "2 \<le> LENGTH('a)"
  shows "unat (x AND 3) = unat x mod 4"
proof -
  have "(3 :: 'a word) = mask 2" by (simp add: mask_eq_exp_minus_1)
  then show ?thesis by (simp only: unat_and_mask_word) simp
qed

lemma and_low_two_0:
  fixes x :: "'a::len word"
  assumes "2 \<le> LENGTH('a)"
  shows "x AND 3 = 0 \<longleftrightarrow> unat x mod 4 = 0"
  unfolding and_low_two [OF assms, symmetric] by (simp add: unat_eq_0)

lemma and_not_low_two:
  fixes x :: "'a::len word"
  assumes "2 \<le> LENGTH('a)"
  shows "unat (x AND NOT 3) = 4 * (unat x div 4)"
proof -
  have "x - (x AND 3) = x AND NOT (x AND 3)"
    by (rule disjunctive_diff_eq_and_not) (rule bit_word_eqI, auto simp: bit_simps)
  also have "\<dots> = x AND NOT 3" by (rule bit_word_eqI) (auto simp: bit_simps)
  finally have "unat (x AND NOT 3) = unat x - unat x mod 4"
    using unat_sub_wrap [of x "x AND 3"] by (simp add: and_low_two [OF assms])
  then show ?thesis by (simp add: minus_mod_eq_mult_div)
qed

lemma PadTo4Bytes16_of_nat:
  assumes "n \<le> 65532"
  shows "unat (PadTo4Bytes16 (of_nat n)) = 4 * ((n + 3) div 4)"
proof -
  let ?x = "of_nat n :: u16"
  have n: "unat ?x = n" using assms by (intro unat_of_nat_less) simp
  have low: "?x AND 3 = 0 \<longleftrightarrow> n mod 4 = 0" using and_low_two_0 [of ?x] n by simp
  have "(0xFFFC :: u16) = NOT 3" by simp
  then have high: "unat (?x AND 0xFFFC) = 4 * (n div 4)"
    using and_not_low_two [of ?x] n by (simp only:) simp
  show ?thesis
  proof (cases "n mod 4 = 0")
    case True
    then have "4 * ((n + 3) div 4) = n" by presburger
    with True low n show ?thesis by (simp add: PadTo4Bytes16_def)
  next
    case False
    then have "4 * (n div 4) + 4 = 4 * ((n + 3) div 4)" by presburger
    moreover have "4 * (n div 4) + 4 < 65536" using assms False by presburger
    ultimately show ?thesis
      using False low high by (simp add: PadTo4Bytes16_def unat_add_wrap)
  qed
qed

section \<open>Properties\<close>

text \<open>
  C12: The table-driven CRC32 that authenticates STUN messages equals the bitwise definition
  with the reflected polynomial 0xEDB88320, for every buffer and every prefix of it.
\<close>

theorem GetCRC32_spec:
  "GetCRC32 data sz = (if sz \<le> length data then Some (crc32_spec (take sz data)) else None)"
  by (simp add: GetCRC32_def crc32_spec_def crc32_loop_spec bit_eq_iff bit_simps)

text \<open>
  C22: Integers survive the trip through a buffer. Writing a value of 1, 2, 4 or 8 bytes inside a
  buffer succeeds, reading at the same place gives it back, the length is unchanged and no
  other byte is touched; outside the buffer both fail.
\<close>

theorem Byte_roundtrip:
  "(case Set1Byte d i v1 of
      None \<Rightarrow> length d < i + 1 \<and> Get1Byte d i = None
    | Some d' \<Rightarrow> Get1Byte d' i = Some v1 \<and> length d' = length d \<and> (\<forall>j. j < i \<or> i + 1 \<le> j \<longrightarrow> d' ! j = d ! j)) \<and>
   (case Set2Bytes d i v2 of
      None \<Rightarrow> length d < i + 2 \<and> Get2Bytes d i = None
    | Some d' \<Rightarrow> Get2Bytes d' i = Some v2 \<and> length d' = length d \<and> (\<forall>j. j < i \<or> i + 2 \<le> j \<longrightarrow> d' ! j = d ! j)) \<and>
   (case Set4Bytes d i v4 of
      None \<Rightarrow> length d < i + 4 \<and> Get4Bytes d i = None
    | Some d' \<Rightarrow> Get4Bytes d' i = Some v4 \<and> length d' = length d \<and> (\<forall>j. j < i \<or> i + 4 \<le> j \<longrightarrow> d' ! j = d ! j)) \<and>
   (case Set8Bytes d i v8 of
      None \<Rightarrow> length d < i + 8 \<and> Get8Bytes d i = None
    | Some d' \<Rightarrow> Get8Bytes d' i = Some v8 \<and> length d' = length d \<and> (\<forall>j. j < i \<or> i + 8 \<le> j \<longrightarrow> d' ! j = d ! j))"
  by (intro conjI byte1.field_roundtrip byte2.field_roundtrip byte4.field_roundtrip byte8.field_roundtrip)

theorem Byte_roundtrip_witness: "Set2Bytes [1, 9, 9, 2] 1 5 = Some [1, 0, 5, 2] \<and> Get2Bytes [1, 0, 5, 2] 1 = Some 5"
  using Byte_roundtrip [of "[1, 9, 9, 2]" 1 0 5 0 0] by (auto simp: Set1Byte_def Set2Bytes_def)

text \<open>
  C36: NTP conversion loses nothing. Every time in milliseconds whose seconds fit 32 bits is
  recovered exactly from its NTP form.
\<close>

theorem Ntp_roundtrip:
  assumes "unat ms < 1000 * 2 ^ 32"
  shows "Ntp2TimeMs (TimeMs2Ntp ms) = ms"
proof -
  let ?n = "unat ms"
  define f where "f = (?n mod 1000) * 2 ^ 32 div 1000"
  have r: "?n mod 1000 < 1000" by simp
  have f1: "f * 1000 \<le> (?n mod 1000) * 2 ^ 32" by (simp add: f_def)
  have f2: "(?n mod 1000) * 2 ^ 32 < f * 1000 + 1000" 
    using div_mult_mod_eq [of "(?n mod 1000) * 2 ^ 32" 1000]
      mod_less_divisor [of 1000 "(?n mod 1000) * 2 ^ 32"] unfolding f_def by linarith
  have "f < 2 ^ 32" unfolding f_def using r by (simp add: less_mult_imp_div_less)
  then have fr: "unat (ntp_fractions (TimeMs2Ntp ms)) = f"
    by (simp add: TimeMs2Ntp_def f_def unat_mod unat_of_nat)
  have rounded: "(2 * f * 1000 + 2 ^ 32) div (2 * 2 ^ 32) = ?n mod 1000"
    by (rule div_nat_eqI) (use f1 f2 in simp_all)
  have "?n div 1000 < 2 ^ 32" using assms by (simp add: less_mult_imp_div_less)
  then have sec: "unat (ucast (ntp_seconds (TimeMs2Ntp ms)) :: u64) = ?n div 1000"
    by (simp add: TimeMs2Ntp_def unat_div unsigned_ucast_eq unsigned_take_bit_eq take_bit_nat_eq_self)
  have s: "(ucast (ntp_seconds (TimeMs2Ntp ms)) :: u64) = of_nat (?n div 1000)"
    unfolding sec [symmetric] by simp
  have "Ntp2TimeMs (TimeMs2Ntp ms) = of_nat (?n div 1000 * 1000 + ?n mod 1000)"
    unfolding Ntp2TimeMs_def fr rounded s of_nat_add of_nat_mult by simp
  also have "\<dots> = ms" unfolding div_mult_mod_eq by simp
  finally show ?thesis .
qed

theorem Ntp_roundtrip_witness: "Ntp2TimeMs (TimeMs2Ntp 1600000000123) = 1600000000123"
  by (rule Ntp_roundtrip) simp

text \<open>
  The two orders on RTP timestamps agree except at half the range. \<^verbatim>\<open>IsNewerTimestamp\<close> and
  \<^verbatim>\<open>SeqManager<uint32_t>::IsSeqHigherThan\<close> give the same answer for all timestamps, save for two
  that are exactly \<open>2^31\<close> apart: there exactly one of them says the first is newer.
\<close>

theorem IsNewerTimestamp_vs_SeqHigherThan:
  "IsNewerTimestamp t1 t2 = (SeqHigherThan 0 t1 t2 \<noteq> (t1 - t2 = 0x80000000))"
proof -
  have "seq_off 0 t2 t1 = unat (t1 - t2)" by (simp add: seq_off_def MaxValue_def)
  then have higher: "SeqHigherThan 0 t1 t2 \<longleftrightarrow>
      0 < unat (t1 - t2) \<and> (unat (t1 - t2) < 2147483648 \<or> unat (t1 - t2) = 2147483648 \<and> t1 < t2)"
    using SeqLowerThan_off [of 0 t2 t1] by (simp add: SeqHigherThan_flip seq_half_def seq_bits_def)
  show ?thesis
  proof (cases "t1 - t2 = 0x80000000")
    case True
    then have "t1 \<noteq> t2" by auto
    with True higher show ?thesis by (auto simp: IsNewerTimestamp_def)
  next
    case False
    then have "unat (t1 - t2) \<noteq> unat (0x80000000 :: u32)" by (simp only: word_unat_eq_iff) simp
    moreover have "t1 \<noteq> t2 \<longleftrightarrow> 0 < unat (t1 - t2)" by (simp add: unat_gt_0)
    moreover have "t1 - t2 < 0x80000000 \<longleftrightarrow> unat (t1 - t2) < 2147483648" by (simp add: word_less_nat_alt)
    ultimately show ?thesis using False higher by (simp add: IsNewerTimestamp_def)
  qed
qed

lemma GetRandomUInt_range:
  assumes "mn \<le> mx" and "mx \<noteq> 4294967295"
  shows "\<exists>seed' n. GetRandomUInt seed mn mx = Some (seed', n) \<and> mn \<le> n \<and> n \<le> mx"
proof -
  let ?k = "mx - mn + 1"
  have "unat mx \<noteq> unat (4294967295 :: u32)" using assms(2) by (simp only: word_unat_eq_iff) simp
  moreover have "unat mx < 4294967296" using unsigned_less [of mx, where 'a = nat] by simp
  ultimately have mx: "unat mx < 4294967295" by simp
  have le: "unat mn \<le> unat mx" using assms(1) by (simp add: word_le_nat_alt)
  have "unat (mx - mn) = unat mx - unat mn" using le by (simp add: unat_sub_wrap)
  then have k: "unat ?k = unat mx - unat mn + 1" using mx by (simp add: unat_add_wrap)
  define r where "r = (drop_bit 4 (214013 * seed + 2531011) AND 0x7FFF7FFF) mod ?k"
  have "unat r = unat (drop_bit 4 (214013 * seed + 2531011) AND 0x7FFF7FFF) mod unat ?k"
    by (simp add: r_def unat_mod)
  moreover have "unat ?k > 0" using k by simp
  ultimately have "unat r < unat ?k" by simp
  then have r: "unat r \<le> unat mx - unat mn" using k by simp
  then have "unat (r + mn) = unat r + unat mn" using le mx by (simp add: unat_add_wrap)
  then have "mn \<le> r + mn \<and> r + mn \<le> mx" using r le by (simp add: word_le_nat_alt)
  moreover have "?k \<noteq> 0" using k by auto
  ultimately show ?thesis
    using assms by (simp add: GetRandomUInt_def Let_def r_def not_less)
qed

end
