(* ===== verification/StunPacket.thy ===== *)
theory StunPacket
  imports Utils
begin

unbundle bit_operations_syntax

text \<open>
  \<^verbatim>\<open>RTC::StunPacket\<close> (\<^verbatim>\<open>worker/include/RTC/StunPacket.hpp\<close>, \<^verbatim>\<open>worker/src/RTC/StunPacket.cpp\<close>):
  parsing, authenticating and serialising the STUN messages of ICE.

  A received datagram is a byte list. \<^verbatim>\<open>Parse\<close> has two levels of option: the outer \<open>None\<close> is a
  read outside the datagram or a loop that does not end, the inner one the null pointer it
  returns for a message it rejects. Strings are byte lists; pointers into the message are
  positions. HMAC-SHA1 is OpenSSL's and is a parameter: a function of key and data.
\<close>

section \<open>Definitions\<close>

datatype stun_class = REQUEST | INDICATION | SUCCESS_RESPONSE | ERROR_RESPONSE

fun class_number :: "stun_class \<Rightarrow> u16" where
  "class_number REQUEST = 0"
| "class_number INDICATION = 1"
| "class_number SUCCESS_RESPONSE = 2"
| "class_number ERROR_RESPONSE = 3"

text \<open>\<^verbatim>\<open>static_cast<Class>\<close> of a two-bit number.\<close>

definition class_of :: "u16 \<Rightarrow> stun_class" where
  "class_of n = (if n = 0 then REQUEST else if n = 1 then INDICATION
                 else if n = 2 then SUCCESS_RESPONSE else ERROR_RESPONSE)"

definition BINDING :: u16 where "BINDING = 1"

definition USERNAME :: u16 where "USERNAME = 0x0006"
definition MESSAGE_INTEGRITY :: u16 where "MESSAGE_INTEGRITY = 0x0008"
definition ERROR_CODE :: u16 where "ERROR_CODE = 0x0009"
definition XOR_MAPPED_ADDRESS :: u16 where "XOR_MAPPED_ADDRESS = 0x0020"
definition PRIORITY :: u16 where "PRIORITY = 0x0024"
definition USE_CANDIDATE :: u16 where "USE_CANDIDATE = 0x0025"
definition FINGERPRINT :: u16 where "FINGERPRINT = 0x8028"
definition ICE_CONTROLLED :: u16 where "ICE_CONTROLLED = 0x8029"
definition ICE_CONTROLLING :: u16 where "ICE_CONTROLLING = 0x802A"
definition NOMINATION :: u16 where "NOMINATION = 0xC001"

lemmas attribute_numbers = USERNAME_def MESSAGE_INTEGRITY_def ERROR_CODE_def XOR_MAPPED_ADDRESS_def
  PRIORITY_def USE_CANDIDATE_def FINGERPRINT_def ICE_CONTROLLED_def ICE_CONTROLLING_def NOMINATION_def

datatype stun_authentication = AUTH_OK | UNAUTHORIZED | BAD_REQUEST

text \<open>A socket address: port and address of the two families the code knows.\<close>

datatype sock_addr =
    AF_INET u16 u32
  | AF_INET6 u16 bytes
  | AF_OTHER

definition magicCookie :: bytes where
  "magicCookie = [0x21, 0x12, 0xA4, 0x42]"

record stun_packet =
  sp_klass :: stun_class
  sp_method :: u16
  sp_transactionId :: bytes
  sp_data :: bytes
  sp_size :: nat
  sp_username :: bytes
  sp_priority :: u32
  sp_iceControlling :: u64
  sp_iceControlled :: u64
  sp_hasNomination :: bool
  sp_nomination :: u32
  sp_hasUseCandidate :: bool
  sp_messageIntegrity :: "nat option"
  sp_hasFingerprint :: bool
  sp_xorMappedAddress :: "sock_addr option"
  sp_errorCode :: u16
  sp_password :: bytes

definition StunPacket_new :: "stun_class \<Rightarrow> u16 \<Rightarrow> bytes \<Rightarrow> bytes \<Rightarrow> nat \<Rightarrow> stun_packet" where
  "StunPacket_new klass method transactionId data sz =
     \<lparr>sp_klass = klass, sp_method = method, sp_transactionId = transactionId, sp_data = data, sp_size = sz,
      sp_username = [], sp_priority = 0, sp_iceControlling = 0, sp_iceControlled = 0,
      sp_hasNomination = False, sp_nomination = 0, sp_hasUseCandidate = False,
      sp_messageIntegrity = None, sp_hasFingerprint = False, sp_xorMappedAddress = None,
      sp_errorCode = 0, sp_password = []\<rparr>"

definition IsStun :: "bytes \<Rightarrow> bool option" where
  "IsStun data =
     (if length data \<ge> 20
      then do {
        b0 \<leftarrow> Get1Byte data 0;
        b4 \<leftarrow> Get1Byte data 4;
        b5 \<leftarrow> Get1Byte data 5;
        b6 \<leftarrow> Get1Byte data 6;
        b7 \<leftarrow> Get1Byte data 7;
        Some (b0 < 3 \<and> [b4, b5, b6, b7] = magicCookie) }
      else Some False)"

text \<open>The switch over the attribute type; the inner \<open>None\<close> rejects the message.\<close>

definition parse_attribute ::
  "bytes \<Rightarrow> nat \<Rightarrow> u16 \<Rightarrow> u16 \<Rightarrow> stun_packet \<Rightarrow> stun_packet option option" where
  "parse_attribute data pos attrType attrLength packet =
     (let attrValuePos = pos + 4 in
      if attrType = USERNAME
      then if attrValuePos + unat attrLength \<le> length data
           then Some (Some (packet\<lparr>sp_username := take (unat attrLength) (drop attrValuePos data)\<rparr>))
           else None
      else if attrType = PRIORITY
      then if attrLength \<noteq> 4 then Some None
           else do { v \<leftarrow> Get4Bytes data attrValuePos; Some (Some (packet\<lparr>sp_priority := v\<rparr>)) }
      else if attrType = ICE_CONTROLLING
      then if attrLength \<noteq> 8 then Some None
           else do { v \<leftarrow> Get8Bytes data attrValuePos; Some (Some (packet\<lparr>sp_iceControlling := v\<rparr>)) }
      else if attrType = ICE_CONTROLLED
      then if attrLength \<noteq> 8 then Some None
           else do { v \<leftarrow> Get8Bytes data attrValuePos; Some (Some (packet\<lparr>sp_iceControlled := v\<rparr>)) }
      else if attrType = USE_CANDIDATE
      then if attrLength \<noteq> 0 then Some None
           else Some (Some (packet\<lparr>sp_hasUseCandidate := True\<rparr>))
      else if attrType = NOMINATION
      then if attrLength \<noteq> 4 then Some None
           else do { v \<leftarrow> Get4Bytes data attrValuePos;
                     Some (Some (packet\<lparr>sp_hasNomination := True, sp_nomination := v\<rparr>)) }
      else if attrType = MESSAGE_INTEGRITY
      then if attrLength \<noteq> 20 then Some None
           else Some (Some (packet\<lparr>sp_messageIntegrity := Some attrValuePos\<rparr>))
      else if attrType = FINGERPRINT
      then if attrLength \<noteq> 4 then Some None
           else Some (Some (packet\<lparr>sp_hasFingerprint := True\<rparr>))
      else if attrType = ERROR_CODE
      then if attrLength < 4 then Some None
           else do { errorClass \<leftarrow> Get1Byte data (attrValuePos + 2);
                     errorNumber \<leftarrow> Get1Byte data (attrValuePos + 3);
                     Some (Some (packet\<lparr>sp_errorCode := ucast errorClass * 100 + ucast errorNumber\<rparr>)) }
      else Some (Some packet))"

text \<open>
  The attribute loop, with the flag \<^verbatim>\<open>hasMessageIntegrity\<close> and the position and value of a
  FINGERPRINT attribute once there was one.
\<close>

partial_function (option) parse_attributes ::
  "bytes \<Rightarrow> nat \<Rightarrow> stun_packet \<Rightarrow> bool \<Rightarrow> (nat \<times> u32) option
     \<Rightarrow> (stun_packet \<times> nat \<times> (nat \<times> u32) option) option option" where
  "parse_attributes data pos packet hasMessageIntegrity fingerprint =
     (if pos + 4 \<le> length data
      then do {
        attrType \<leftarrow> Get2Bytes data pos;
        attrLength \<leftarrow> Get2Bytes data (pos + 2);
        (if pos + 4 + unat attrLength > length data then Some None
         else if fingerprint \<noteq> None then Some None
         else if hasMessageIntegrity \<and> attrType \<noteq> FINGERPRINT then Some None
         else do {
           result \<leftarrow> parse_attribute data pos attrType attrLength packet;
           (case result of
              None \<Rightarrow> Some None
            | Some packet' \<Rightarrow> do {
                fingerprint' \<leftarrow> (if attrType = FINGERPRINT
                                then map_option (\<lambda>v. Some (pos, v)) (Get4Bytes data (pos + 4))
                                else Some fingerprint);
                parse_attributes data
                  (unat (PadTo4Bytes16 (of_nat (pos + 4 + unat attrLength)))) packet'
                  (hasMessageIntegrity \<or> attrType = MESSAGE_INTEGRITY) fingerprint' }) }) }
      else Some (Some (packet, pos, fingerprint)))"

text \<open>Method and class out of the bits of the type field.\<close>

definition msgMethod :: "u16 \<Rightarrow> u16" where
  "msgMethod msgType =
     (msgType AND 0x000f) OR drop_bit 1 (msgType AND 0x00e0) OR drop_bit 2 (msgType AND 0x3E00)"

definition msgClass :: "u8 \<Rightarrow> u8 \<Rightarrow> u16" where
  "msgClass b0 b1 = push_bit 1 (ucast b0 AND 0x01) OR drop_bit 4 (ucast b1 AND 0x10)"

text \<open>After the loop: the position must be the end, and the fingerprint must match.\<close>

definition parse_end ::
  "bytes \<Rightarrow> (stun_packet \<times> nat \<times> (nat \<times> u32) option) option \<Rightarrow> stun_packet option option" where
  "parse_end data result =
     (case result of
        None \<Rightarrow> Some None
      | Some (packet, pos, fingerprint) \<Rightarrow>
          if pos \<noteq> length data then Some None
          else (case fingerprint of
                  None \<Rightarrow> Some (Some packet)
                | Some (fingerprintAttrPos, v) \<Rightarrow> do {
                    crc \<leftarrow> GetCRC32 data fingerprintAttrPos;
                    Some (if v \<noteq> crc XOR 0x5354554e then None else Some packet) }))"

definition StunPacket_Parse :: "bytes \<Rightarrow> stun_packet option option" where
  "StunPacket_Parse data = do {
     isStun \<leftarrow> IsStun data;
     (if \<not> isStun then Some None
      else do {
        msgType \<leftarrow> Get2Bytes data 0;
        msgLength \<leftarrow> Get2Bytes data 2;
        (if unat msgLength \<noteq> length data - 20 \<or> msgLength AND 0x03 \<noteq> 0 then Some None
         else do {
           b0 \<leftarrow> Get1Byte data 0;
           b1 \<leftarrow> Get1Byte data 1;
           result \<leftarrow> parse_attributes data 20
             (StunPacket_new (class_of (msgClass b0 b1)) (msgMethod msgType) (take 12 (drop 8 data))
                data (length data)) False None;
           parse_end data result }) }) }"

text \<open>
  \<open>None\<close> is an access outside the message. The length field is patched for the computation and
  restored afterwards, so the message is unchanged in the end.
\<close>

definition CheckAuthentication ::
  "(bytes \<Rightarrow> bytes \<Rightarrow> bytes) \<Rightarrow> bytes \<Rightarrow> bytes \<Rightarrow> stun_packet \<Rightarrow> stun_authentication option" where
  "CheckAuthentication hmacSha1 localUsername localPassword p =
     (if sp_klass p = REQUEST \<or> sp_klass p = INDICATION
      then (case sp_messageIntegrity p of
              None \<Rightarrow> Some BAD_REQUEST
            | Some messageIntegrity \<Rightarrow>
                if sp_username p = [] then Some BAD_REQUEST
                else
                  let localUsernameLen = length localUsername in
                  if length (sp_username p) \<le> localUsernameLen
                     \<or> sp_username p ! localUsernameLen \<noteq> 0x3A
                     \<or> take localUsernameLen (sp_username p) \<noteq> localUsername
                  then Some UNAUTHORIZED
                  else do {
                    data \<leftarrow> (if sp_hasFingerprint p
                             then Set2Bytes (sp_data p) 2 (of_nat (sp_size p - 20 - 8))
                             else Some (sp_data p));
                    (if messageIntegrity < 4 \<or> messageIntegrity + 20 > length data then None
                     else
                       Some (if take 20 (drop messageIntegrity data)
                                = take 20 (hmacSha1 localPassword (take (messageIntegrity - 4) data))
                             then AUTH_OK else UNAUTHORIZED)) })
      else Some BAD_REQUEST)"

text \<open>\<open>None\<close> is the failed assertion that the packet is a request.\<close>

definition CreateSuccessResponse :: "stun_packet \<Rightarrow> stun_packet option" where
  "CreateSuccessResponse p =
     (if sp_klass p = REQUEST
      then Some (StunPacket_new SUCCESS_RESPONSE (sp_method p) (sp_transactionId p) [] 0)
      else None)"

definition CreateErrorResponse :: "stun_packet \<Rightarrow> u16 \<Rightarrow> stun_packet option" where
  "CreateErrorResponse p errorCode =
     (if sp_klass p = REQUEST
      then Some ((StunPacket_new ERROR_RESPONSE (sp_method p) (sp_transactionId p) [] 0)
                   \<lparr>sp_errorCode := errorCode\<rparr>)
      else None)"

definition Authenticate :: "bytes \<Rightarrow> stun_packet \<Rightarrow> stun_packet" where
  "Authenticate password p = (if sp_klass p = ERROR_RESPONSE then p else p\<lparr>sp_password := password\<rparr>)"

subsection \<open>Serialisation\<close>

definition addXorMappedAddress :: "stun_packet \<Rightarrow> bool" where
  "addXorMappedAddress p \<longleftrightarrow>
     sp_method p = BINDING \<and> sp_klass p = SUCCESS_RESPONSE \<and>
     (case sp_xorMappedAddress p of
        Some (AF_INET port addr) \<Rightarrow> True
      | Some (AF_INET6 port addr) \<Rightarrow> True
      | _ \<Rightarrow> False)"

definition addErrorCode :: "stun_packet \<Rightarrow> bool" where
  "addErrorCode p \<longleftrightarrow> sp_errorCode p \<noteq> 0 \<and> sp_klass p = ERROR_RESPONSE"

definition addMessageIntegrity :: "stun_packet \<Rightarrow> bool" where
  "addMessageIntegrity p \<longleftrightarrow> sp_klass p \<noteq> ERROR_RESPONSE \<and> sp_password p \<noteq> []"

definition usernamePaddedLen :: "stun_packet \<Rightarrow> u16" where
  "usernamePaddedLen p =
     (if sp_username p \<noteq> [] then PadTo4Bytes16 (of_nat (length (sp_username p))) else 0)"

definition xorMappedAddressPaddedLen :: "stun_packet \<Rightarrow> u16" where
  "xorMappedAddressPaddedLen p =
     (case sp_xorMappedAddress p of
        Some (AF_INET port addr) \<Rightarrow> 8
      | Some (AF_INET6 port addr) \<Rightarrow> 20
      | _ \<Rightarrow> 0)"

text \<open>The size computed before anything is written.\<close>

definition serialized_size :: "stun_packet \<Rightarrow> nat" where
  "serialized_size p =
     20
     + (if sp_username p \<noteq> [] then 4 + unat (usernamePaddedLen p) else 0)
     + (if sp_priority p \<noteq> 0 then 4 + 4 else 0)
     + (if sp_iceControlling p \<noteq> 0 then 4 + 8 else 0)
     + (if sp_iceControlled p \<noteq> 0 then 4 + 8 else 0)
     + (if sp_hasUseCandidate p then 4 else 0)
     + (if addXorMappedAddress p then 4 + unat (xorMappedAddressPaddedLen p) else 0)
     + (if addErrorCode p then 4 + 4 else 0)
     + (if addMessageIntegrity p then 4 + 20 else 0)
     + (4 + 4)"

definition typeField :: "stun_packet \<Rightarrow> u16" where
  "typeField p =
     push_bit 2 (sp_method p AND 0x0f80)
     OR push_bit 1 (sp_method p AND 0x0070)
     OR (sp_method p AND 0x000f)
     OR push_bit 7 (class_number (sp_klass p) AND 0x02)
     OR push_bit 4 (class_number (sp_klass p) AND 0x01)"

text \<open>The header with a given length field.\<close>

definition stun_header :: "stun_packet \<Rightarrow> u16 \<Rightarrow> bytes" where
  "stun_header p len = enc2 (typeField p) @ enc2 len @ magicCookie @ take 12 (sp_transactionId p)"

text \<open>An attribute; \<open>pad\<close> is what the buffer held after the value.\<close>

definition stun_attr :: "u16 \<Rightarrow> bytes \<Rightarrow> bytes \<Rightarrow> bytes" where
  "stun_attr attrType v pad = enc2 attrType @ enc2 (of_nat (length v)) @ v @ pad"

definition xor_bytes :: "bytes \<Rightarrow> bytes \<Rightarrow> bytes" where
  "xor_bytes as bs = map2 (XOR) as bs"

definition xor_address_value :: "stun_packet \<Rightarrow> bytes" where
  "xor_address_value p =
     (case sp_xorMappedAddress p of
        Some (AF_INET port addr) \<Rightarrow>
          [0, 0x01] @ xor_bytes (enc2 port) magicCookie @ xor_bytes (enc4 addr) magicCookie
      | Some (AF_INET6 port addr) \<Rightarrow>
          [0, 0x02] @ xor_bytes (enc2 port) magicCookie
            @ xor_bytes addr (magicCookie @ take 12 (sp_transactionId p))
      | _ \<Rightarrow> [])"

definition error_code_value :: "stun_packet \<Rightarrow> bytes" where
  "error_code_value p =
     (let codeClass = (ucast (sp_errorCode p div 100) :: u8);
          codeNumber = (ucast (sp_errorCode p) :: u8) - codeClass * 100
      in enc2 0 @ [codeClass, codeNumber])"

text \<open>
  The attributes up to ERROR-CODE, in the order of the code; \<open>buffer\<close> is what the output buffer
  held before, which shows in the padding of USERNAME.
\<close>

definition serialized_attributes :: "bytes \<Rightarrow> stun_packet \<Rightarrow> bytes" where
  "serialized_attributes buffer p =
     (if usernamePaddedLen p \<noteq> 0
      then stun_attr USERNAME (sp_username p)
             (take (unat (usernamePaddedLen p) - length (sp_username p))
                (drop (24 + length (sp_username p)) buffer))
      else [])
     @ (if sp_priority p \<noteq> 0 then stun_attr PRIORITY (enc4 (sp_priority p)) [] else [])
     @ (if sp_iceControlling p \<noteq> 0 then stun_attr ICE_CONTROLLING (enc8 (sp_iceControlling p)) [] else [])
     @ (if sp_iceControlled p \<noteq> 0 then stun_attr ICE_CONTROLLED (enc8 (sp_iceControlled p)) [] else [])
     @ (if sp_hasUseCandidate p then stun_attr USE_CANDIDATE [] [] else [])
     @ (if addXorMappedAddress p then stun_attr XOR_MAPPED_ADDRESS (xor_address_value p) [] else [])
     @ (if addErrorCode p then stun_attr ERROR_CODE (error_code_value p) [] else [])"

text \<open>
  \<^verbatim>\<open>Serialize\<close>: MESSAGE-INTEGRITY is computed with a length field that leaves FINGERPRINT out,
  FINGERPRINT over everything before it. \<open>None\<close>: the buffer is too small, or the final assertion
  fails.
\<close>

definition StunPacket_Serialize :: "(bytes \<Rightarrow> bytes \<Rightarrow> bytes) \<Rightarrow> bytes \<Rightarrow> stun_packet \<Rightarrow> stun_packet option" where
  "StunPacket_Serialize hmacSha1 buffer p =
     (let sz = serialized_size p;
          attrs = serialized_attributes buffer p;
          messageIntegrity =
            (if addMessageIntegrity p
             then stun_attr MESSAGE_INTEGRITY
                    (take 20 (hmacSha1 (sp_password p) (stun_header p (of_nat (sz - 20 - 8)) @ attrs))) []
             else []);
          message = stun_header p (of_nat sz - 20) @ attrs @ messageIntegrity
      in do {
        crc \<leftarrow> GetCRC32 message (length message);
        let message' = message @ stun_attr FINGERPRINT (enc4 (crc XOR 0x5354554e)) []
        in if length message' > length buffer \<or> length message' \<noteq> sz then None
           else Some (p\<lparr>sp_data := message' @ drop sz buffer, sp_size := sz,
                        sp_transactionId := take 12 (sp_transactionId p),
                        sp_messageIntegrity := (if addMessageIntegrity p
                                                then Some (20 + length attrs + 4) else None),
                        sp_hasFingerprint := True\<rparr>) })"

lemmas serialize_defs = addXorMappedAddress_def addErrorCode_def addMessageIntegrity_def
  usernamePaddedLen_def xorMappedAddressPaddedLen_def serialized_size_def serialized_attributes_def

section \<open>The parser ends and stays inside the message\<close>

lemma parse_attribute_safe:
  assumes "pos + 4 + unat attrLength \<le> length data"
  shows "\<exists>r. parse_attribute data pos attrType attrLength p = Some r"
proof -
  have g4: "attrLength = 4 \<Longrightarrow> Get4Bytes data (pos + 4) \<noteq> None"
    using assms by (simp add: byte4.get_None_iff)
  have g8: "attrLength = 8 \<Longrightarrow> Get8Bytes data (pos + 4) \<noteq> None"
    using assms by (simp add: byte8.get_None_iff)
  have g1: "\<not> attrLength < 4 \<Longrightarrow> k < 4 \<Longrightarrow> Get1Byte data (pos + 4 + k) \<noteq> None" for k
    using assms by (simp add: Get1Byte_def word_less_nat_alt)
  have "parse_attribute data pos attrType attrLength p \<noteq> None"
    unfolding parse_attribute_def Let_def
    using assms g4 g8 g1 [of 2] g1 [of 3]
    by (simp add: bind_eq_None_conv attribute_numbers del: not_None_eq)
  then show ?thesis by blast
qed

text \<open>What the attribute loop keeps: the positions it records lie inside the message.\<close>

definition positions_ok :: "bytes \<Rightarrow> stun_packet \<Rightarrow> (nat \<times> u32) option \<Rightarrow> bool" where
  "positions_ok data p fingerprint \<longleftrightarrow>
     sp_data p = data \<and> sp_size p = length data \<and> sp_transactionId p = take 12 (drop 8 data) \<and>
     (case sp_messageIntegrity p of None \<Rightarrow> True | Some mi \<Rightarrow> 24 \<le> mi \<and> mi + 20 \<le> length data) \<and>
     (case fingerprint of None \<Rightarrow> True | Some (q, v) \<Rightarrow> q \<le> length data)"

lemma parse_attribute_positions:
  assumes "parse_attribute data pos attrType attrLength p = Some (Some p')"
    and "positions_ok data p f" "20 \<le> pos" "pos + 4 + unat attrLength \<le> length data"
  shows "positions_ok data p' f"
  using assms(1) unfolding parse_attribute_def Let_def
  apply (simp only: split: if_split_asm)
  using assms(2-) apply (auto simp: positions_ok_def split: bind_split_asm)
  done

lemma parse_attributes_safe:
  assumes "length data \<le> 65532"
  shows "20 \<le> pos \<Longrightarrow> positions_ok data p f \<Longrightarrow>
    \<exists>r. parse_attributes data pos p hmi f = Some r \<and>
        (\<forall>p' q f'. r = Some (p', q, f') \<longrightarrow> positions_ok data p' f')"
proof (induction "length data - pos" arbitrary: pos p hmi f rule: less_induct)
  case less
  show ?case
  proof (cases "pos + 4 \<le> length data")
    case False
    then show ?thesis using less.prems by (subst parse_attributes.simps) simp
  next
    case True
    obtain t where t: "Get2Bytes data pos = Some t"
      using True byte2.get_None_iff [of data pos] by (cases "Get2Bytes data pos") auto
    obtain l where l: "Get2Bytes data (pos + 2) = Some l"
      using True byte2.get_None_iff [of data "pos + 2"] by (cases "Get2Bytes data (pos + 2)") auto
    let ?next = "unat (PadTo4Bytes16 (of_nat (pos + 4 + unat l)))"
    have rec: "\<exists>r. parse_attributes data ?next p' h f' = Some r \<and>
        (\<forall>p' q f'. r = Some (p', q, f') \<longrightarrow> positions_ok data p' f')"
      if "pos + 4 + unat l \<le> length data" "positions_ok data p' f'" for p' h f'
    proof -
      have "?next = 4 * ((pos + 4 + unat l + 3) div 4)"
        using that assms by (intro PadTo4Bytes16_of_nat) simp
      then have "pos + 4 \<le> ?next" by presburger
      then show ?thesis using True that less.prems by (intro less.hyps) auto
    qed
    show ?thesis
    proof (cases "pos + 4 + unat l > length data \<or> f \<noteq> None \<or> (hmi \<and> t \<noteq> FINGERPRINT)")
      case True
      then show ?thesis using \<open>pos + 4 \<le> length data\<close> t l by (subst parse_attributes.simps) auto
    next
      case go: False
      then obtain r where r: "parse_attribute data pos t l p = Some r"
        using parse_attribute_safe [of pos l data t p] by auto
      show ?thesis
      proof (cases r)
        case None
        then show ?thesis using go True t l r by (subst parse_attributes.simps) auto
      next
        case (Some p')
        from go have none: "f = None" by blast
        have ok: "positions_ok data p' None"
          using parse_attribute_positions [of data pos t l p p' f] go r Some less.prems by (simp add: none)
        have fp: "\<exists>v. Get4Bytes data (pos + 4) = Some v" if "t = FINGERPRINT"
          using that r Some go byte4.get_None_iff [of data "pos + 4"]
          by (cases "Get4Bytes data (pos + 4)")
            (auto simp: parse_attribute_def attribute_numbers split: if_splits)
        have ok': "positions_ok data p' (Some (pos, v))" for v
          using ok True by (simp add: positions_ok_def)
        obtain f' where f': "(if t = FINGERPRINT then map_option (\<lambda>v. Some (pos, v)) (Get4Bytes data (pos + 4))
            else Some f) = Some f'" and ok'': "positions_ok data p' f'"
          using fp ok ok' none by (cases "t = FINGERPRINT") auto
        have "parse_attributes data pos p hmi f
            = parse_attributes data ?next p' (hmi \<or> t = MESSAGE_INTEGRITY) f'"
          using go True t l r Some f' none by (subst parse_attributes.simps) auto
        then show ?thesis using rec [of p' f'] go ok'' by simp
      qed
    qed
  qed
qed

lemma IsStun_total: "\<exists>b. IsStun data = Some b"
  by (auto simp: IsStun_def Get1Byte_def)

lemma Parse_safe:
  assumes "length data < 65536"
  shows "\<exists>r. StunPacket_Parse data = Some r \<and>
    (\<forall>p. r = Some p \<longrightarrow> (\<exists>f. positions_ok data p f \<and> length data mod 4 = 0 \<and> 20 \<le> length data))"
proof -
  obtain b where b: "IsStun data = Some b" using IsStun_total by blast
  show ?thesis
  proof (cases b)
    case False
    then show ?thesis by (simp add: StunPacket_Parse_def b)
  next
    case True
    then have len: "20 \<le> length data" using b by (auto simp: IsStun_def split: if_splits)
    obtain t where t: "Get2Bytes data 0 = Some t"
      using len byte2.get_None_iff [of data 0] by (cases "Get2Bytes data 0") auto
    obtain l where l: "Get2Bytes data 2 = Some l"
      using len byte2.get_None_iff [of data 2] by (cases "Get2Bytes data 2") auto
    obtain b0 b1 where g: "Get1Byte data 0 = Some b0" "Get1Byte data 1 = Some b1"
      using len by (force simp: Get1Byte_def)
    show ?thesis
    proof (cases "unat l \<noteq> length data - 20 \<or> l AND 3 \<noteq> 0")
      case True
      then show ?thesis by (auto simp: StunPacket_Parse_def b t l)
    next
      case False
      then have "(length data - 20) mod 4 = 0" using and_low_two_0 [of l] by simp
      then have "length data mod 4 = 0" using len by presburger
      then have "length data \<le> 65532" using assms by presburger
      note attrs = parse_attributes_safe [OF this, of 20 _ None False]
      let ?packet = "StunPacket_new (class_of (msgClass b0 b1)) (msgMethod t) (take 12 (drop 8 data))
        data (length data)"
      have "positions_ok data ?packet None"
        by (simp add: positions_ok_def StunPacket_new_def)
      then obtain r where r: "parse_attributes data 20 ?packet False None = Some r"
        and ok: "\<And>p q f. r = Some (p, q, f) \<Longrightarrow> positions_ok data p f"
        using attrs [of ?packet] by auto
      have crc: "\<exists>crc. GetCRC32 data q = Some crc" if "q \<le> length data" for q
        using that by (simp add: GetCRC32_def)
      have parse: "StunPacket_Parse data = parse_end data r"
        using False by (simp add: StunPacket_Parse_def b True t l g [simplified] r)
      show ?thesis
      proof (cases r)
        case None
        with parse show ?thesis by (simp add: parse_end_def)
      next
        case (Some x)
        then obtain p q f where x: "r = Some (p, q, f)" by (cases x) auto
        note okp = ok [OF x]
        have "\<exists>crc. GetCRC32 data i = Some crc" if "f = Some (i, v)" for i v
          using okp that by (intro crc) (simp add: positions_ok_def)
        then have "StunPacket_Parse data \<in> {Some None, Some (Some p)}"
          using parse x by (cases f) (auto simp: parse_end_def)
        with okp len \<open>length data mod 4 = 0\<close> show ?thesis by auto
      qed
    qed
  qed
qed

lemma CheckAuthentication_total:
  assumes "positions_ok data p f" "20 \<le> length data"
  shows "\<exists>a. CheckAuthentication hmacSha1 localUsername localPassword p = Some a"
proof -
  have len: "length (sp_data p) = length data" using assms by (simp add: positions_ok_def)
  obtain d where d: "(if sp_hasFingerprint p then Set2Bytes (sp_data p) 2 (of_nat (sp_size p - 20 - 8))
      else Some (sp_data p)) = Some d" "length d = length data"
    using assms(2) len by (cases "sp_hasFingerprint p") (simp_all add: byte2.set_eq enc2_def)
  show ?thesis
  proof (cases "sp_messageIntegrity p")
    case None
    then show ?thesis by (simp add: CheckAuthentication_def)
  next
    case (Some mi)
    then have "24 \<le> mi" "mi + 20 \<le> length data" using assms(1) by (simp_all add: positions_ok_def)
    then show ?thesis using d Some by (simp add: CheckAuthentication_def Let_def)
  qed
qed

section \<open>Properties\<close>

text \<open>
  C4: No datagram below 64 KiB makes the STUN code read outside it or loop for ever.
  \<^verbatim>\<open>Parse\<close> returns a packet or rejects the datagram, and \<^verbatim>\<open>CheckAuthentication\<close> on a packet it
  returned stays inside the datagram too, whatever the local credentials and the HMAC.
\<close>

theorem StunPacket_Parse_safe:
  assumes "length data < 65536"
  shows "\<exists>r. StunPacket_Parse data = Some r \<and>
    (\<forall>p. r = Some p \<longrightarrow> (\<exists>a. CheckAuthentication hmacSha1 localUsername localPassword p = Some a))"
proof -
  obtain r where r: "StunPacket_Parse data = Some r"
    and ok: "\<And>p. r = Some p \<Longrightarrow> \<exists>f. positions_ok data p f \<and> 20 \<le> length data"
    using Parse_safe [OF assms] by blast
  have "\<exists>a. CheckAuthentication hmacSha1 localUsername localPassword p = Some a" if "r = Some p" for p
    using ok [OF that] CheckAuthentication_total by blast
  with r show ?thesis by blast
qed

text \<open>A message with no attribute, and one whose only attribute claims more than there is.\<close>

theorem StunPacket_Parse_safe_witness:
  "(\<exists>r. StunPacket_Parse (0 # 1 # 0 # 0 # magicCookie @ replicate 12 7) = Some r) \<and>
   (\<exists>r. StunPacket_Parse (0 # 1 # 0 # 4 # magicCookie @ replicate 12 7 @ [0, 6, 0, 1]) = Some r)"
proof -
  have "\<exists>r. StunPacket_Parse d = Some r" if "length d < 65536" for d
    using StunPacket_Parse_safe [OF that] by blast
  then show ?thesis by (simp add: magicCookie_def)
qed

end
