(* ===== verification/StunRoundtrip.thy ===== *)
theory StunRoundtrip
  imports StunPacket
begin

unbundle bit_operations_syntax

text \<open>
  What \<^verbatim>\<open>StunPacket::Serialize\<close> writes is what \<^verbatim>\<open>StunPacket::Parse\<close> reads, and what
  \<^verbatim>\<open>StunPacket::CheckAuthentication\<close> accepts.
\<close>

section \<open>Reading one attribute after the other\<close>

text \<open>
  The attribute loop, started at the bytes \<open>A\<close> of any message with packet \<open>p\<close>, comes to their
  end with packet \<open>p'\<close>.
\<close>

definition reads :: "bytes \<Rightarrow> stun_packet \<Rightarrow> stun_packet \<Rightarrow> bool" where
  "reads A p p' \<longleftrightarrow> length A mod 4 = 0 \<and>
     (\<forall>pre post. length pre mod 4 = 0 \<longrightarrow> length (pre @ A @ post) \<le> 65532 \<longrightarrow>
        parse_attributes (pre @ A @ post) (length pre) p False None
        = parse_attributes (pre @ A @ post) (length pre + length A) p' False None)"

lemma reads_run:
  assumes "reads A p p'" "length pre mod 4 = 0" "length (pre @ A @ post) \<le> 65532"
  shows "parse_attributes (pre @ A @ post) (length pre) p False None
    = parse_attributes (pre @ A @ post) (length pre + length A) p' False None"
  by (rule assms(1) [unfolded reads_def, THEN conjunct2, rule_format, OF assms(2,3)])

lemma reads_Nil: "reads [] p p"
  by (simp add: reads_def)

lemma reads_append:
  assumes "reads A p p'" "reads B p' p''"
  shows "reads (A @ B) p p''"
  unfolding reads_def
proof (intro conjI allI impI)
  show "length (A @ B) mod 4 = 0" using assms by (auto simp: reads_def mod_add_eq [symmetric])
  fix pre post :: bytes
  assume pre: "length pre mod 4 = 0" and len: "length (pre @ (A @ B) @ post) \<le> 65532"
  have "length (pre @ A) mod 4 = 0" using assms pre by (auto simp: reads_def mod_add_eq [symmetric])
  then show "parse_attributes (pre @ (A @ B) @ post) (length pre) p False None
      = parse_attributes (pre @ (A @ B) @ post) (length pre + length (A @ B)) p'' False None"
    using reads_run [OF assms(1) pre, of "B @ post"] reads_run [OF assms(2), of "pre @ A" post] len
    by (simp add: add.assoc)
qed

lemma reads_if: "(c \<Longrightarrow> reads A p p') \<Longrightarrow> reads (if c then A else []) p (if c then p' else p)"
  by (simp add: reads_Nil)

lemma length_stun_attr [simp]: "length (stun_attr t v pad) = 4 + length v + length pad"
  by (simp add: stun_attr_def byte2.enc_length)

lemma attr_type: "Get2Bytes (pre @ stun_attr t v pad @ post) (length pre) = Some t"
  using byte2.get_enc [of pre t] by (simp add: stun_attr_def)

lemma attr_length:
  "Get2Bytes (pre @ stun_attr t v pad @ post) (length pre + 2) = Some (of_nat (length v))"
  using byte2.get_enc_at [of "pre @ enc2 t" "length pre + 2"] by (simp add: stun_attr_def byte2.enc_length)

lemma PadTo4Bytes16_next:
  assumes "pos mod 4 = 0" "(n + k) mod 4 = 0" "k < 4" "pos + 4 + n + k \<le> 65532"
  shows "unat (PadTo4Bytes16 (of_nat (pos + 4 + n))) = pos + 4 + n + k"
proof -
  have "unat (PadTo4Bytes16 (of_nat (pos + 4 + n))) = 4 * ((pos + 4 + n + 3) div 4)"
    using assms by (intro PadTo4Bytes16_of_nat) simp
  also have "\<dots> = pos + 4 + n + k" using assms by presburger
  finally show ?thesis .
qed

lemma attr_step:
  assumes "parse_attribute (pre @ stun_attr t v pad @ post) (length pre) t (of_nat (length v)) p
      = Some (Some p')"
    and "hmi \<longrightarrow> t = FINGERPRINT"
    and pad: "(length v + length pad) mod 4 = 0" "length pad < 4"
    and pre: "length pre mod 4 = 0" and len: "length (pre @ stun_attr t v pad @ post) \<le> 65532"
  shows "parse_attributes (pre @ stun_attr t v pad @ post) (length pre) p hmi None
    = (if t = FINGERPRINT
       then map_option (\<lambda>v. Some (length pre, v))
              (Get4Bytes (pre @ stun_attr t v pad @ post) (length pre + 4))
       else Some None) \<bind>
      parse_attributes (pre @ stun_attr t v pad @ post) (length pre + length (stun_attr t v pad)) p'
        (hmi \<or> t = MESSAGE_INTEGRITY)"
proof -
  have "unat (of_nat (length v) :: u16) = length v" using len by (intro unat_of_nat_less) simp
  moreover have "unat (PadTo4Bytes16 (of_nat (length pre + 4 + length v)))
      = length pre + 4 + length v + length pad"
    using pre pad len by (intro PadTo4Bytes16_next) simp_all
  ultimately show ?thesis
    using assms(1,2) by (subst parse_attributes.simps) (auto simp: attr_type attr_length [simplified] add.assoc)
qed

lemma reads_attr:
  assumes "\<And>pre post. parse_attribute (pre @ stun_attr t v pad @ post) (length pre) t
      (of_nat (length v)) p = Some (Some p')"
    and "t \<noteq> FINGERPRINT" "t \<noteq> MESSAGE_INTEGRITY"
    and "(length v + length pad) mod 4 = 0" "length pad < 4"
  shows "reads (stun_attr t v pad) p p'"
  unfolding reads_def using assms by (auto simp: attr_step add.assoc)

lemma attr_value4: "Get4Bytes (pre @ stun_attr t (enc4 x) pad @ post) (length pre + 4) = Some x"
  using byte4.get_enc_at [of "pre @ enc2 t @ enc2 (of_nat (length (enc4 x)))" "length pre + 4" x]
  by (simp add: stun_attr_def byte2.enc_length)

lemma attr_value8: "Get8Bytes (pre @ stun_attr t (enc8 x) pad @ post) (length pre + 4) = Some x"
  using byte8.get_enc_at [of "pre @ enc2 t @ enc2 (of_nat (length (enc8 x)))" "length pre + 4" x]
  by (simp add: stun_attr_def byte2.enc_length)

lemma reads_username:
  assumes "(length v + length pad) mod 4 = 0" "length pad < 4" "length v < 65536"
  shows "reads (stun_attr USERNAME v pad) p (p\<lparr>sp_username := v\<rparr>)"
proof -
  have "unat (of_nat (length v) :: u16) = length v" using assms(3) by (intro unat_of_nat_less) simp
  then show ?thesis
    using assms by (intro reads_attr)
      (simp_all add: parse_attribute_def attribute_numbers, simp add: stun_attr_def byte2.enc_length)
qed

lemmas reads_field = parse_attribute_def attribute_numbers attr_value4 attr_value8
  byte4.enc_length byte8.enc_length

lemma reads_priority: "reads (stun_attr PRIORITY (enc4 x) []) p (p\<lparr>sp_priority := x\<rparr>)"
  by (rule reads_attr) (simp_all add: reads_field)

lemma reads_iceControlling: "reads (stun_attr ICE_CONTROLLING (enc8 x) []) p (p\<lparr>sp_iceControlling := x\<rparr>)"
  by (rule reads_attr) (simp_all add: reads_field)

lemma reads_iceControlled: "reads (stun_attr ICE_CONTROLLED (enc8 x) []) p (p\<lparr>sp_iceControlled := x\<rparr>)"
  by (rule reads_attr) (simp_all add: reads_field)

lemma reads_useCandidate: "reads (stun_attr USE_CANDIDATE [] []) p (p\<lparr>sp_hasUseCandidate := True\<rparr>)"
  by (rule reads_attr) (simp_all add: reads_field)

lemma reads_xorMappedAddress:
  assumes "length v mod 4 = 0"
  shows "reads (stun_attr XOR_MAPPED_ADDRESS v []) p p"
  by (rule reads_attr) (simp_all add: reads_field assms)

text \<open>The class and number of an error code, and back.\<close>

lemma error_code_split:
  fixes e :: u16
  assumes "unat e < 25600"
  defines "c \<equiv> (ucast (e div 100) :: u8)"
  shows "(ucast c :: u16) * 100 + ucast ((ucast e :: u8) - c * 100) = e"
proof -
  have c: "c = of_nat (unat e div 100)" unfolding c_def by (simp only: ucast_of_unat unat_div) simp
  have "of_nat (unat e mod 100 + unat e div 100 * 100)
      = (of_nat (unat e mod 100) + of_nat (unat e div 100) * 100 :: u8)"
    by (simp only: of_nat_add of_nat_mult of_nat_numeral)
  then have n: "(ucast e :: u8) - c * 100 = of_nat (unat e mod 100)"
    unfolding c ucast_of_unat mod_div_mult_eq by (simp only: add_diff_cancel_right')
  have "unat c = unat e div 100" unfolding c using assms(1) by (intro unat_of_nat_less) simp
  moreover have "unat (of_nat (unat e mod 100) :: u8) = unat e mod 100"
    by (intro unat_of_nat_less) (rule less_trans [of _ 100], simp_all)
  ultimately have "(ucast c :: u16) * 100 + ucast ((ucast e :: u8) - c * 100)
      = of_nat (unat e div 100 * 100 + unat e mod 100)"
    unfolding n unfolding ucast_of_unat by (simp only: of_nat_add of_nat_mult of_nat_numeral)
  then show ?thesis by (simp only: div_mult_mod_eq) simp
qed

lemma reads_errorCode:
  assumes "unat (sp_errorCode q) < 25600"
  shows "reads (stun_attr ERROR_CODE (error_code_value q) []) p (p\<lparr>sp_errorCode := sp_errorCode q\<rparr>)"
  using error_code_split [OF assms]
  by (intro reads_attr)
    (simp_all add: reads_field error_code_value_def Let_def,
     simp_all add: stun_attr_def Get1Byte_def nth_append byte2.enc_length)

section \<open>The header\<close>

lemma u16_bits_eqI: "list_all (\<lambda>n. bit x n = bit y n) [0..<16] \<Longrightarrow> x = (y :: u16)"
  by (rule bit_word_eqI) (simp add: list_all_iff)

lemma high_bits_0:
  fixes m :: u16
  assumes "unat m < 128" "7 \<le> n"
  shows "\<not> bit m n"
proof -
  have "unat (take_bit 7 m) = unat m" using assms(1) by (simp add: unsigned_take_bit_eq take_bit_nat_eq_self)
  then have "take_bit 7 m = m" by (simp only: word_unat_eq_iff)
  then show ?thesis using assms(2) by (metis bit_take_bit_iff not_le)
qed

lemma bit_times_2: "bit (x * 2 :: 'a::len word) n \<longleftrightarrow> n \<noteq> 0 \<and> n < LENGTH('a) \<and> bit x (n - 1)"
  by (auto simp: mult.commute [of x 2] bit_double_iff bit_simps)

lemmas type_bits = upt_rec typeField_def bit_simps bit_times_2

lemma typeField_method:
  assumes "unat (sp_method p) < 128"
  shows "msgMethod (typeField p) = sp_method p"
proof (rule u16_bits_eqI)
  note b = high_bits_0 [OF assms]
  show "list_all (\<lambda>n. bit (msgMethod (typeField p)) n = bit (sp_method p) n) [0..<16]"
    by (cases "sp_klass p") (simp_all add: type_bits msgMethod_def b)
qed

lemma typeField_class:
  assumes "unat (sp_method p) < 128"
  shows "class_of (msgClass (ucast (drop_bit 8 (typeField p))) (ucast (typeField p))) = sp_klass p"
proof -
  note b = high_bits_0 [OF assms]
  have "msgClass (ucast (drop_bit 8 (typeField p))) (ucast (typeField p)) = class_number (sp_klass p)"
    by (rule u16_bits_eqI, cases "sp_klass p") (simp_all add: type_bits msgClass_def b)
  then show ?thesis by (cases "sp_klass p") (simp_all add: class_of_def)
qed

lemma typeField_high:
  assumes "unat (sp_method p) < 128"
  shows "ucast (drop_bit 8 (typeField p)) < (3 :: u8)"
proof -
  note b = high_bits_0 [OF assms]
  have "drop_bit 8 (typeField p) = drop_bit 1 (class_number (sp_klass p))"
    by (rule u16_bits_eqI, cases "sp_klass p") (simp_all add: type_bits b)
  then show ?thesis by (cases "sp_klass p") simp_all
qed

text \<open>
  A packet that can be written: a transaction id of 12 bytes, a user name that leaves room for
  the other attributes below 64 KiB, an IPv6 address of 16 bytes. One that arrives as it was sent
  has, in addition, a method of seven bits (the only one in use is BINDING) and an error code whose
  class fits a byte.
\<close>

definition writable :: "stun_packet \<Rightarrow> bool" where
  "writable p \<longleftrightarrow> length (sp_transactionId p) = 12 \<and> length (sp_username p) \<le> 65400 \<and>
     (case sp_xorMappedAddress p of Some (AF_INET6 port addr) \<Rightarrow> length addr = 16 | _ \<Rightarrow> True)"

definition sendable :: "stun_packet \<Rightarrow> bool" where
  "sendable p \<longleftrightarrow> writable p \<and> unat (sp_method p) < 128 \<and> unat (sp_errorCode p) < 25600"

lemma sendable_writable: "sendable p \<Longrightarrow> writable p"
  by (simp add: sendable_def)

lemma length_stun_header: "writable p \<Longrightarrow> length (stun_header p n) = 20"
  by (simp add: stun_header_def writable_def byte2.enc_length magicCookie_def)

lemma enc2_bytes: "enc2 x = [ucast (drop_bit 8 x), ucast x]"
  by (simp add: enc2_def)

lemma header_fields:
  assumes "sendable p"
  shows "IsStun (stun_header p n @ rest) = Some True"
    and "Get2Bytes (stun_header p n @ rest) 0 = Some (typeField p)"
    and "Get2Bytes (stun_header p n @ rest) 2 = Some n"
    and "Get1Byte (stun_header p n @ rest) 0 = Some (ucast (drop_bit 8 (typeField p)))"
    and "Get1Byte (stun_header p n @ rest) 1 = Some (ucast (typeField p))"
    and "take 12 (drop 8 (stun_header p n @ rest)) = sp_transactionId p"
proof -
  have m: "unat (sp_method p) < 128" and l: "length (sp_transactionId p) = 12"
    using assms by (simp_all add: sendable_def writable_def)
  have h: "stun_header p n @ rest = ucast (drop_bit 8 (typeField p)) # ucast (typeField p)
      # ucast (drop_bit 8 n) # ucast n # magicCookie @ sp_transactionId p @ rest"
    using l by (simp add: stun_header_def enc2_bytes)
  show "IsStun (stun_header p n @ rest) = Some True"
    using typeField_high [OF m] l unfolding h by (simp add: IsStun_def Get1Byte_def magicCookie_def)
  show "Get2Bytes (stun_header p n @ rest) 0 = Some (typeField p)"
    using byte2.get_enc_0 [of "typeField p"] by (simp add: stun_header_def)
  show "Get2Bytes (stun_header p n @ rest) 2 = Some n"
    using byte2.get_enc_at [of "enc2 (typeField p)" 2 n] by (simp add: stun_header_def byte2.enc_length)
  show "Get1Byte (stun_header p n @ rest) 0 = Some (ucast (drop_bit 8 (typeField p)))"
    "Get1Byte (stun_header p n @ rest) 1 = Some (ucast (typeField p))"
    unfolding h by (simp_all add: Get1Byte_def)
  show "take 12 (drop 8 (stun_header p n @ rest)) = sp_transactionId p"
    using l unfolding h by (simp add: magicCookie_def)
qed

section \<open>The attributes of a packet\<close>

text \<open>The packet with the attributes of \<open>q\<close> that are sent.\<close>

definition with_attributes :: "stun_packet \<Rightarrow> stun_packet \<Rightarrow> stun_packet" where
  "with_attributes q p = p\<lparr>sp_username := sp_username q, sp_priority := sp_priority q,
     sp_iceControlling := sp_iceControlling q, sp_iceControlled := sp_iceControlled q,
     sp_hasUseCandidate := sp_hasUseCandidate q,
     sp_errorCode := (if addErrorCode q then sp_errorCode q else 0)\<rparr>"

lemma usernamePaddedLen_eq:
  assumes "writable q"
  shows "unat (usernamePaddedLen q) = 4 * ((length (sp_username q) + 3) div 4)"
  using assms PadTo4Bytes16_of_nat [of "length (sp_username q)"]
  by (auto simp: usernamePaddedLen_def writable_def)

lemma usernamePaddedLen_0: "writable q \<Longrightarrow> usernamePaddedLen q = 0 \<longleftrightarrow> sp_username q = []"
  using usernamePaddedLen_eq [of q] by (cases "sp_username q") (auto simp: usernamePaddedLen_def)

lemma xor_address_length:
  assumes "writable q" "addXorMappedAddress q"
  shows "length (xor_address_value q) = unat (xorMappedAddressPaddedLen q)
    \<and> unat (xorMappedAddressPaddedLen q) mod 4 = 0 \<and> unat (xorMappedAddressPaddedLen q) \<le> 20"
  using assms
  by (auto simp: addXorMappedAddress_def writable_def xor_address_value_def xorMappedAddressPaddedLen_def
      xor_bytes_def byte2.enc_length byte4.enc_length magicCookie_def split: option.splits sock_addr.splits)

lemma serialized_size_bounds:
  assumes "writable q"
  shows "28 \<le> serialized_size q" "serialized_size q \<le> 65532"
proof -
  have "4 * ((length (sp_username q) + 3) div 4) \<le> 65400"
  proof -
    have "length (sp_username q) \<le> 65400" using assms by (simp add: writable_def)
    then show ?thesis by presburger
  qed
  then show "serialized_size q \<le> 65532"
    using xor_address_length [OF assms]
    by (auto simp: serialized_size_def usernamePaddedLen_eq [OF assms])
qed (simp add: serialized_size_def)

text \<open>The bytes between user name and the next attribute.\<close>

definition username_padding :: "bytes \<Rightarrow> stun_packet \<Rightarrow> bytes" where
  "username_padding buffer q =
     take (unat (usernamePaddedLen q) - length (sp_username q)) (drop (24 + length (sp_username q)) buffer)"

lemma username_padding_length:
  assumes "writable q" "serialized_size q \<le> length buffer" "sp_username q \<noteq> []"
  shows "length (sp_username q) + length (username_padding buffer q) = unat (usernamePaddedLen q)"
    and "length (username_padding buffer q) < 4"
proof -
  note l = usernamePaddedLen_eq [OF assms(1)]
  have "24 + unat (usernamePaddedLen q) \<le> length buffer"
    using assms(2,3) by (simp add: serialized_size_def)
  then have "length (username_padding buffer q) = unat (usernamePaddedLen q) - length (sp_username q)"
    unfolding username_padding_def l by simp
  moreover have "length (sp_username q) \<le> unat (usernamePaddedLen q)"
    "unat (usernamePaddedLen q) < length (sp_username q) + 4" unfolding l by presburger+
  ultimately show "length (sp_username q) + length (username_padding buffer q) = unat (usernamePaddedLen q)"
    and "length (username_padding buffer q) < 4" by simp_all
qed

lemma length_serialized_attributes:
  assumes "writable q" "serialized_size q \<le> length buffer"
  shows "serialized_size q = 20 + length (serialized_attributes buffer q)
    + (if addMessageIntegrity q then 24 else 0) + 8"
  using username_padding_length(1) [OF assms] xor_address_length [OF assms(1)]
  by (auto simp: serialized_size_def serialized_attributes_def usernamePaddedLen_0 [OF assms(1)]
      username_padding_def [symmetric] byte4.enc_length byte8.enc_length error_code_value_def
      byte2.enc_length Let_def)

lemma reads_eq: "reads A p p' \<Longrightarrow> p' = p'' \<Longrightarrow> reads A p p''"
  by simp

lemma reads_attributes:
  assumes "sendable q" "serialized_size q \<le> length buffer"
    and p: "p = StunPacket_new c m tid d n"
  shows "reads (serialized_attributes buffer q) p (with_attributes q p)"
proof -
  note w = sendable_writable [OF assms(1)]
  let ?pad = "username_padding buffer q"
  have user: "reads (stun_attr USERNAME (sp_username q) ?pad) p (p\<lparr>sp_username := sp_username q\<rparr>)"
    if "usernamePaddedLen q \<noteq> 0" for p
  proof -
    have "sp_username q \<noteq> []" using that w by (simp add: usernamePaddedLen_0)
    note pad = username_padding_length [OF w assms(2) this]
    then show ?thesis
      using w by (intro reads_username) (auto simp: usernamePaddedLen_eq writable_def)
  qed
  have "unat (sp_errorCode q) < 25600" using assms(1) by (simp add: sendable_def)
  note err = reads_errorCode [OF this]
  have xor: "reads (stun_attr XOR_MAPPED_ADDRESS (xor_address_value q) []) p p"
    if "addXorMappedAddress q" for p
    using xor_address_length [OF w that] by (intro reads_xorMappedAddress) simp
  show ?thesis
    unfolding serialized_attributes_def username_padding_def [symmetric]
    by (rule reads_eq, (rule reads_append reads_if user reads_priority reads_iceControlling
        reads_iceControlled reads_useCandidate xor err; assumption?)+)
      (auto simp: with_attributes_def p StunPacket_new_def usernamePaddedLen_0 [OF w])
qed

section \<open>The last two attributes\<close>

lemma parse_integrity:
  assumes "length v = 20" "length pre mod 4 = 0" "length (pre @ stun_attr MESSAGE_INTEGRITY v [] @ post) \<le> 65532"
  shows "parse_attributes (pre @ stun_attr MESSAGE_INTEGRITY v [] @ post) (length pre) p False None
    = parse_attributes (pre @ stun_attr MESSAGE_INTEGRITY v [] @ post) (length pre + 24)
        (p\<lparr>sp_messageIntegrity := Some (length pre + 4)\<rparr>) True None"
  using assms
  by (subst attr_step [where p' = "p\<lparr>sp_messageIntegrity := Some (length pre + 4)\<rparr>"])
    (simp_all add: parse_attribute_def attribute_numbers)

lemma parse_fingerprint:
  assumes "length pre mod 4 = 0" "length pre \<le> 65524"
  shows "parse_attributes (pre @ stun_attr FINGERPRINT (enc4 x) []) (length pre) p hmi None
    = Some (Some (p\<lparr>sp_hasFingerprint := True\<rparr>, length pre + 8, Some (length pre, x)))"
proof -
  let ?data = "pre @ stun_attr FINGERPRINT (enc4 x) [] @ []"
  have "parse_attributes ?data (length pre) p hmi None
      = parse_attributes ?data (length pre + 8) (p\<lparr>sp_hasFingerprint := True\<rparr>)
          (hmi \<or> FINGERPRINT = MESSAGE_INTEGRITY) (Some (length pre, x))"
    using assms attr_value4 [of pre FINGERPRINT x "[]" "[]"]
    by (subst attr_step [where p' = "p\<lparr>sp_hasFingerprint := True\<rparr>"])
      (simp_all add: parse_attribute_def attribute_numbers byte4.enc_length)
  also have "\<dots> = Some (Some (p\<lparr>sp_hasFingerprint := True\<rparr>, length pre + 8, Some (length pre, x)))"
    by (subst parse_attributes.simps) (simp add: byte4.enc_length)
  finally show ?thesis by simp
qed

text \<open>The packet that arrives.\<close>

definition received :: "stun_packet \<Rightarrow> stun_packet" where
  "received q =
     (let data = take (sp_size q) (sp_data q) in
      (with_attributes q (StunPacket_new (sp_klass q) (sp_method q) (sp_transactionId q) data (sp_size q)))
        \<lparr>sp_messageIntegrity := sp_messageIntegrity q, sp_hasFingerprint := True\<rparr>)"

text \<open>The message before its fingerprint.\<close>

definition message_integrity :: "(bytes \<Rightarrow> bytes \<Rightarrow> bytes) \<Rightarrow> bytes \<Rightarrow> stun_packet \<Rightarrow> bytes" where
  "message_integrity hmacSha1 buffer p =
     (if addMessageIntegrity p
      then stun_attr MESSAGE_INTEGRITY
             (take 20 (hmacSha1 (sp_password p)
                (stun_header p (of_nat (serialized_size p - 20 - 8)) @ serialized_attributes buffer p))) []
      else [])"

definition before_fingerprint :: "(bytes \<Rightarrow> bytes \<Rightarrow> bytes) \<Rightarrow> bytes \<Rightarrow> stun_packet \<Rightarrow> bytes" where
  "before_fingerprint hmacSha1 buffer p =
     stun_header p (of_nat (serialized_size p) - 20) @ serialized_attributes buffer p
     @ message_integrity hmacSha1 buffer p"

definition fingerprint_of :: "bytes \<Rightarrow> u32" where
  "fingerprint_of message = (crc32_loop 0xFFFFFFFF message XOR NOT 0) XOR 0x5354554e"

lemma Serialize_total:
  assumes "writable p" "serialized_size p \<le> length buffer" "\<And>k d. length (hmacSha1 k d) = 20"
  defines "message \<equiv> before_fingerprint hmacSha1 buffer p"
  shows "length message + 8 = serialized_size p"
    and "StunPacket_Serialize hmacSha1 buffer p = Some (p
      \<lparr>sp_data := message @ stun_attr FINGERPRINT (enc4 (fingerprint_of message)) []
                    @ drop (serialized_size p) buffer,
       sp_size := serialized_size p,
       sp_transactionId := sp_transactionId p,
       sp_messageIntegrity := (if addMessageIntegrity p
                               then Some (20 + length (serialized_attributes buffer p) + 4) else None),
       sp_hasFingerprint := True\<rparr>)"
proof -
  show len: "length message + 8 = serialized_size p"
    using length_serialized_attributes [OF assms(1,2)] assms(3)
    by (simp add: message_def before_fingerprint_def message_integrity_def length_stun_header [OF assms(1)])
  have tid: "take 12 (sp_transactionId p) = sp_transactionId p" using assms(1) by (simp add: writable_def)
  have crc: "GetCRC32 message (length message) = Some (crc32_loop 0xFFFFFFFF message XOR NOT 0)"
    by (simp add: GetCRC32_def)
  show "StunPacket_Serialize hmacSha1 buffer p = Some (p
      \<lparr>sp_data := message @ stun_attr FINGERPRINT (enc4 (fingerprint_of message)) []
                    @ drop (serialized_size p) buffer,
       sp_size := serialized_size p,
       sp_transactionId := sp_transactionId p,
       sp_messageIntegrity := (if addMessageIntegrity p
                               then Some (20 + length (serialized_attributes buffer p) + 4) else None),
       sp_hasFingerprint := True\<rparr>)"
    unfolding StunPacket_Serialize_def Let_def message_integrity_def [symmetric]
      before_fingerprint_def [symmetric] message_def [symmetric] crc tid
    using len assms(2) by (simp add: fingerprint_of_def byte4.enc_length)
qed

lemma serialized_size_mod:
  assumes "sendable p" "serialized_size p \<le> length buffer"
  shows "length (serialized_attributes buffer p) mod 4 = 0" "serialized_size p mod 4 = 0"
proof -
  show l: "length (serialized_attributes buffer p) mod 4 = 0"
    using reads_attributes [OF assms refl] by (simp add: reads_def)
  show "serialized_size p mod 4 = 0"
    using l unfolding length_serialized_attributes [OF sendable_writable [OF assms(1)] assms(2)] by (cases "addMessageIntegrity p") presburger+
qed

lemma parse_message:
  assumes p: "sendable p" and buf: "serialized_size p \<le> length buffer" and hmac: "\<And>k d. length (hmacSha1 k d) = 20"
    and p0: "p0 = StunPacket_new c m tid d n"
  defines "message \<equiv> before_fingerprint hmacSha1 buffer p"
  shows "parse_attributes (message @ stun_attr FINGERPRINT (enc4 x) []) 20 p0 False None
    = Some (Some ((with_attributes p p0)
        \<lparr>sp_messageIntegrity := (if addMessageIntegrity p
                                  then Some (20 + length (serialized_attributes buffer p) + 4) else None),
         sp_hasFingerprint := True\<rparr>, length message + 8, Some (length message, x)))"
proof -
  define hdr where "hdr = stun_header p (of_nat (serialized_size p) - 20)"
  define attrs where "attrs = serialized_attributes buffer p"
  define fp where "fp = stun_attr FINGERPRINT (enc4 x) []"
  define mi where "mi = message_integrity hmacSha1 buffer p"
  note mod4 = serialized_size_mod [OF p buf] and bounds = serialized_size_bounds [OF sendable_writable [OF p]]
  have message: "message = hdr @ attrs @ mi"
    by (simp add: message_def before_fingerprint_def hdr_def attrs_def mi_def)
  have len: "length message + 8 = serialized_size p"
    unfolding message_def using sendable_writable [OF p] buf hmac by (rule Serialize_total)
  have hdr: "length hdr = 20" using sendable_writable [OF p] by (simp add: hdr_def length_stun_header)
  have fp: "length fp = 8" by (simp add: fp_def byte4.enc_length)
  have mod: "length message mod 4 = 0" using len mod4(2) by presburger
  have "length (hdr @ attrs @ mi @ fp) \<le> 65532"
    using len fp bounds(2) unfolding message by simp
  then have A: "parse_attributes (message @ fp) 20 p0 False None
      = parse_attributes (message @ fp) (20 + length attrs) (with_attributes p p0) False None"
    using reads_run [OF reads_attributes [OF p buf p0], of hdr "mi @ fp"] hdr
    unfolding message attrs_def [symmetric] by simp
  let ?p = "(with_attributes p p0)\<lparr>sp_messageIntegrity := (if addMessageIntegrity p
      then Some (20 + length attrs + 4) else None)\<rparr>"
  have B: "parse_attributes (message @ fp) (20 + length attrs) (with_attributes p p0) False None
      = parse_attributes (message @ fp) (length message) ?p (addMessageIntegrity p) None"
  proof (cases "addMessageIntegrity p")
    case False
    then have "mi = []" by (simp add: mi_def message_integrity_def)
    then show ?thesis
      using False hdr by (simp add: message with_attributes_def p0 StunPacket_new_def)
  next
    case True
    then obtain v where v: "mi = stun_attr MESSAGE_INTEGRITY v []" "length v = 20"
      using hmac by (simp add: mi_def message_integrity_def)
    have "length (hdr @ attrs) mod 4 = 0" using hdr mod4(1) unfolding attrs_def length_append by presburger
    from parse_integrity [OF v(2) this, of fp] show ?thesis
      using True v hdr len fp bounds(2) unfolding message by simp
  qed
  show ?thesis
    using A B parse_fingerprint [OF mod, of x ?p] len bounds(2) unfolding fp_def attrs_def by simp
qed

lemma Parse_serialized:
  assumes p: "sendable p" and buf: "serialized_size p \<le> length buffer" and hmac: "\<And>k d. length (hmacSha1 k d) = 20"
  obtains q data where "StunPacket_Serialize hmacSha1 buffer p = Some q"
    and "q = p\<lparr>sp_data := data, sp_size := serialized_size p,
               sp_messageIntegrity := (if addMessageIntegrity p
                  then Some (20 + length (serialized_attributes buffer p) + 4) else None),
               sp_hasFingerprint := True\<rparr>"
    and "take (sp_size q) (sp_data q) = before_fingerprint hmacSha1 buffer p
      @ stun_attr FINGERPRINT (enc4 (fingerprint_of (before_fingerprint hmacSha1 buffer p))) []"
    and "StunPacket_Parse (take (sp_size q) (sp_data q)) = Some (Some (received q))"
proof -
  define message where "message = before_fingerprint hmacSha1 buffer p"
  define data where "data = message @ stun_attr FINGERPRINT (enc4 (fingerprint_of message)) []"
  note ser = Serialize_total [OF sendable_writable [OF p] buf, of hmacSha1, OF hmac, folded message_def]
  note bounds = serialized_size_bounds [OF sendable_writable [OF p]] and mod4 = serialized_size_mod [OF p buf]
  have len: "length data = serialized_size p" using ser(1) by (simp add: data_def byte4.enc_length)
  have n: "(of_nat (serialized_size p) - 20 :: u16) = of_nat (serialized_size p - 20)"
    using bounds by simp
  have un: "unat (of_nat (serialized_size p) - 20 :: u16) = serialized_size p - 20"
    unfolding n using bounds by (intro unat_of_nat_less) simp
  have low: "(of_nat (serialized_size p) - 20 :: u16) AND 3 = 0"
    using mod4(2) bounds and_low_two_0 [of "of_nat (serialized_size p) - 20 :: u16"] unfolding un by simp presburger
  define q where "q = the (StunPacket_Serialize hmacSha1 buffer p)"
  have q: "StunPacket_Serialize hmacSha1 buffer p = Some q" by (simp add: q_def ser(2))
  have data: "take (sp_size q) (sp_data q) = data"
    unfolding q_def ser(2) using len by (simp add: data_def [symmetric] flip: append_assoc)
  have m: "unat (sp_method p) < 128" using p by (simp add: sendable_def)
  obtain rest where rest: "data = stun_header p (of_nat (serialized_size p) - 20) @ rest"
    by (simp add: data_def message_def before_fingerprint_def)
  have crc: "GetCRC32 data (length message) = Some (crc32_loop 0xFFFFFFFF message XOR NOT 0)"
    by (simp add: GetCRC32_def data_def)
  have qp: "q = p\<lparr>sp_data := sp_data q, sp_size := serialized_size p,
      sp_messageIntegrity := (if addMessageIntegrity p
        then Some (20 + length (serialized_attributes buffer p) + 4) else None), sp_hasFingerprint := True\<rparr>"
    unfolding q_def ser(2) by simp
  let ?p0 = "StunPacket_new (sp_klass p) (sp_method p) (sp_transactionId p) data (length data)"
  have "StunPacket_Parse data = parse_attributes data 20 ?p0 False None \<bind> parse_end data"
    unfolding StunPacket_Parse_def
    using header_fields [OF p, of "of_nat (serialized_size p) - 20" rest, folded rest] low un len
    by (simp add: typeField_method [OF m] typeField_class [OF m])
  also have "parse_attributes data 20 ?p0 False None = Some (Some ((with_attributes p ?p0)
      \<lparr>sp_messageIntegrity := (if addMessageIntegrity p
          then Some (20 + length (serialized_attributes buffer p) + 4) else None), sp_hasFingerprint := True\<rparr>,
      length message + 8, Some (length message, fingerprint_of message)))"
    unfolding data_def message_def by (rule parse_message [OF p buf hmac refl])
  also have "\<dots> \<bind> parse_end data = Some (Some (received q))"
  proof -
    have "sp_klass q = sp_klass p" "sp_method q = sp_method p" "sp_transactionId q = sp_transactionId p"
      "sp_size q = serialized_size p" "with_attributes q = with_attributes p"
      "sp_messageIntegrity q = (if addMessageIntegrity p
        then Some (20 + length (serialized_attributes buffer p) + 4) else None)"
      by (simp_all add: q_def ser(2) with_attributes_def addErrorCode_def fun_eq_iff)
    then show ?thesis
      using len ser(1) data by (simp add: parse_end_def crc fingerprint_of_def received_def)
  qed
  finally show thesis using that [OF q qp] data by (simp add: data_def message_def)
qed

lemma CheckAuthentication_received:
  assumes p: "sendable p" and buf: "serialized_size p \<le> length buffer" and hmac: "\<And>k d. length (hmacSha1 k d) = 20"
    and klass: "sp_klass p = REQUEST \<or> sp_klass p = INDICATION" and pw: "sp_password p \<noteq> []"
    and user: "sp_username p = localUsername @ [0x3A] @ remote"
    and ser: "StunPacket_Serialize hmacSha1 buffer p = Some q"
  defines "covered \<equiv> stun_header p (of_nat (serialized_size p - 20 - 8)) @ serialized_attributes buffer p"
  shows "CheckAuthentication hmacSha1 localUsername password (received q)
    = Some (if hmacSha1 password covered = hmacSha1 (sp_password p) covered then AUTH_OK else UNAUTHORIZED)"
proof -
  have mi: "addMessageIntegrity p" using klass pw by (auto simp: addMessageIntegrity_def)
  define attrs where "attrs = serialized_attributes buffer p"
  define v where "v = hmacSha1 (sp_password p) covered"
  define fp where "fp = stun_attr FINGERPRINT (enc4 (fingerprint_of (before_fingerprint hmacSha1 buffer p))) []"
  obtain data where q: "q = p\<lparr>sp_data := data, sp_size := serialized_size p,
      sp_messageIntegrity := Some (24 + length attrs), sp_hasFingerprint := True\<rparr>"
    and bytes: "take (sp_size q) (sp_data q) = stun_header p (of_nat (serialized_size p) - 20) @ attrs
      @ stun_attr MESSAGE_INTEGRITY v [] @ fp"
    using Parse_serialized [OF p buf, of hmacSha1, OF hmac] ser mi hmac
    by (auto simp: before_fingerprint_def message_integrity_def covered_def attrs_def v_def fp_def)
  define data' where "data' = covered @ stun_attr MESSAGE_INTEGRITY v [] @ fp"
  have set: "Set2Bytes (take (sp_size q) (sp_data q)) 2 (of_nat (serialized_size p - 20 - 8)) = Some data'"
    unfolding byte2.set_eq bytes data'_def covered_def attrs_def [symmetric]
    by (simp add: stun_header_def byte2.enc_length)
  have lens: "length covered = 20 + length attrs" "length v = 20"
    using sendable_writable [OF p] hmac by (simp_all add: covered_def attrs_def length_stun_header v_def)
  have "take (length covered) data' = covered" by (simp add: data'_def)
  moreover have "take 20 (drop (length covered + 4) data') = v"
    using lens by (simp add: data'_def stun_attr_def byte2.enc_length)
  moreover have "length covered + 24 \<le> length data'" using lens by (simp add: data'_def)
  ultimately show ?thesis
    using klass user set lens hmac
    by (simp add: CheckAuthentication_def received_def with_attributes_def StunPacket_new_def q Let_def
        nth_append v_def eq_commute [of "hmacSha1 (sp_password p) covered"])
qed

section \<open>Properties\<close>

text \<open>
  C5: What \<^verbatim>\<open>Serialize\<close> writes, \<^verbatim>\<open>Parse\<close> reads. A packet to send is serialised into any buffer
  that is large enough, and the bytes parse to a packet with the same class, method, transaction
  id, user name, priority, role and candidate attributes, with the error code of an error
  response, with a fingerprint, and with message integrity exactly if it was to be added.
\<close>

theorem StunPacket_roundtrip:
  assumes "sendable p" "serialized_size p \<le> length buffer" "\<forall>k d. length (hmacSha1 k d) = 20"
  shows "\<exists>q r. StunPacket_Serialize hmacSha1 buffer p = Some q \<and>
    StunPacket_Parse (take (sp_size q) (sp_data q)) = Some (Some r) \<and>
    sp_klass r = sp_klass p \<and> sp_method r = sp_method p \<and> sp_transactionId r = sp_transactionId p \<and>
    sp_username r = sp_username p \<and> sp_priority r = sp_priority p \<and>
    sp_iceControlling r = sp_iceControlling p \<and> sp_iceControlled r = sp_iceControlled p \<and>
    sp_hasUseCandidate r = sp_hasUseCandidate p \<and>
    sp_errorCode r = (if sp_klass p = ERROR_RESPONSE then sp_errorCode p else 0) \<and>
    sp_hasFingerprint r \<and> (sp_messageIntegrity r \<noteq> None \<longleftrightarrow> addMessageIntegrity p)"
proof -
  obtain q data where q: "StunPacket_Serialize hmacSha1 buffer p = Some q"
      "StunPacket_Parse (take (sp_size q) (sp_data q)) = Some (Some (received q))"
    and qp: "q = p\<lparr>sp_data := data, sp_size := serialized_size p,
               sp_messageIntegrity := (if addMessageIntegrity p
                  then Some (20 + length (serialized_attributes buffer p) + 4) else None),
               sp_hasFingerprint := True\<rparr>"
    using Parse_serialized [OF assms(1,2), of hmacSha1] assms(3) by metis
  have "sp_klass (received q) = sp_klass p \<and> sp_method (received q) = sp_method p \<and>
    sp_transactionId (received q) = sp_transactionId p \<and>
    sp_username (received q) = sp_username p \<and> sp_priority (received q) = sp_priority p \<and>
    sp_iceControlling (received q) = sp_iceControlling p \<and> sp_iceControlled (received q) = sp_iceControlled p \<and>
    sp_hasUseCandidate (received q) = sp_hasUseCandidate p \<and>
    sp_errorCode (received q) = (if sp_klass p = ERROR_RESPONSE then sp_errorCode p else 0) \<and>
    sp_hasFingerprint (received q) \<and> (sp_messageIntegrity (received q) \<noteq> None \<longleftrightarrow> addMessageIntegrity p)"
    unfolding qp by (simp add: received_def with_attributes_def StunPacket_new_def addErrorCode_def Let_def)
  with q show ?thesis by blast
qed

definition example_request :: stun_packet where
  "example_request = (StunPacket_new REQUEST BINDING (replicate 12 1) [] 0)
     \<lparr>sp_username := [0x61, 0x3A, 0x62], sp_priority := 7, sp_password := [1, 2, 3]\<rparr>"

lemma example_request_sendable: "sendable example_request" "serialized_size example_request \<le> 100"
  by (simp_all add: sendable_def writable_def example_request_def StunPacket_new_def BINDING_def serialized_size_def
      usernamePaddedLen_def PadTo4Bytes16_def addXorMappedAddress_def addErrorCode_def)

definition example_hmac :: "bytes \<Rightarrow> bytes \<Rightarrow> bytes" where
  "example_hmac k d = take 20 (k @ d @ replicate 20 0)"

lemma example_hmac_length: "length (example_hmac k d) = 20"
  by (simp add: example_hmac_def)

theorem StunPacket_roundtrip_witness:
  "\<exists>q r. StunPacket_Serialize example_hmac (replicate 100 0) example_request = Some q \<and>
    StunPacket_Parse (take (sp_size q) (sp_data q)) = Some (Some r) \<and> sp_priority r = 7"
  using StunPacket_roundtrip [of example_request "replicate 100 0" example_hmac]
    example_request_sendable example_hmac_length
  by (auto simp: example_request_def)

text \<open>
  C6: A request signed with a password is accepted by a peer that checks it with this password
  and with its own user name in front of the colon, and any other password is accepted exactly if
  it has the same HMAC on the signed bytes. The signed bytes end before MESSAGE-INTEGRITY, and
  their length field leaves the fingerprint out, at the sender as well as at the receiver.
\<close>

theorem StunPacket_authentication:
  assumes "sendable p" "serialized_size p \<le> length buffer" "\<forall>k d. length (hmacSha1 k d) = 20"
    and "sp_klass p = REQUEST \<or> sp_klass p = INDICATION" "sp_password p \<noteq> []"
    and "sp_username p = localUsername @ [0x3A] @ remote"
  shows "\<exists>q r covered. StunPacket_Serialize hmacSha1 buffer p = Some q \<and>
    StunPacket_Parse (take (sp_size q) (sp_data q)) = Some (Some r) \<and>
    (\<forall>password. CheckAuthentication hmacSha1 localUsername password r
       = Some (if hmacSha1 password covered = hmacSha1 (sp_password p) covered then AUTH_OK else UNAUTHORIZED))"
proof -
  have hmac: "length (hmacSha1 k d) = 20" for k d using assms(3) by blast
  obtain q where q: "StunPacket_Serialize hmacSha1 buffer p = Some q"
    "StunPacket_Parse (take (sp_size q) (sp_data q)) = Some (Some (received q))"
    using Parse_serialized [OF assms(1,2), of hmacSha1] hmac by metis
  with CheckAuthentication_received [OF assms(1,2) hmac assms(4-6) q(1)] show ?thesis by blast
qed

theorem StunPacket_authentication_witness:
  "\<exists>q r. StunPacket_Serialize example_hmac (replicate 100 0) example_request = Some q \<and>
    StunPacket_Parse (take (sp_size q) (sp_data q)) = Some (Some r) \<and>
    CheckAuthentication example_hmac [0x61] [1, 2, 3] r = Some AUTH_OK"
proof -
  have "sp_klass example_request = REQUEST" "sp_password example_request = [1, 2, 3]"
    "sp_username example_request = [0x61] @ [0x3A] @ [0x62]"
    by (simp_all add: example_request_def StunPacket_new_def)
  then show ?thesis
    using StunPacket_authentication [of example_request "replicate 100 0" example_hmac "[0x61]" "[0x62]"]
      example_request_sendable example_hmac_length
    by fastforce
qed

end
