(* ===== verification/TransportTuple.thy ===== *)
theory TransportTuple
  imports StunPacket
begin

unbundle bit_operations_syntax

text \<open>
  \<^verbatim>\<open>RTC::TransportTuple\<close> (\<^verbatim>\<open>worker/include/RTC/TransportTuple.hpp\<close>): the remote end of a transport
  and the 64-bit hash that stands for it in every comparison.

  A tuple keeps its protocol and its remote address; the socket or connection behind it only
  sends, which is outside the model. An IPv6 address is read as four host integers, as on the
  little-endian machines the worker is built for.
\<close>

section \<open>Definitions\<close>

datatype protocol = UDP | TCP

record transport_tuple =
  tt_hash :: u64
  tt_protocol :: protocol
  tt_remoteAddress :: sock_addr

text \<open>The \<open>i\<close>-th 32-bit integer of an address in memory.\<close>

definition host_word :: "bytes \<Rightarrow> nat \<Rightarrow> u32" where
  "host_word a i =
     (let b = \<lambda>k. if 4 * i + k < length a then (ucast (a ! (4 * i + k)) :: u32) else 0
      in b 0 OR push_bit 8 (b 1) OR push_bit 16 (b 2) OR push_bit 24 (b 3))"

definition address_hash :: "sock_addr \<Rightarrow> u64" where
  "address_hash remote =
     (case remote of
        AF_INET port address \<Rightarrow> push_bit 48 (ucast port) OR push_bit 16 (ucast address) OR 0x0000
      | AF_INET6 port a \<Rightarrow>
          (let address1 = host_word a 0 XOR host_word a 1 XOR host_word a 2 XOR host_word a 3;
               address2 = host_word a 0
           in push_bit 48 (ucast port) OR push_bit 16 (ucast address1)
              OR ucast (drop_bit 16 address2 AND 0xFFFC) OR 0x0002)
      | AF_OTHER \<Rightarrow> 0)"

definition SetHash :: "protocol \<Rightarrow> sock_addr \<Rightarrow> u64" where
  "SetHash protocol remote = address_hash remote OR (if protocol = UDP then 0x0000 else 0x0001)"

definition TransportTuple_new :: "protocol \<Rightarrow> sock_addr \<Rightarrow> transport_tuple" where
  "TransportTuple_new protocol remote =
     \<lparr>tt_hash = SetHash protocol remote, tt_protocol = protocol, tt_remoteAddress = remote\<rparr>"

definition Compare :: "transport_tuple \<Rightarrow> transport_tuple \<Rightarrow> bool" where
  "Compare t u \<longleftrightarrow> tt_hash t = tt_hash u"

section \<open>Properties\<close>

text \<open>The fields of the hash, from the highest bits to the lowest.\<close>

definition hash_of_parts :: "u16 \<Rightarrow> u32 \<Rightarrow> u16 \<Rightarrow> u64" where
  "hash_of_parts port mid low = push_bit 48 (ucast port) OR push_bit 16 (ucast mid) OR ucast low"

lemma hash_parts:
  "ucast (drop_bit 48 (hash_of_parts port mid low)) = port"
  "ucast (drop_bit 16 (hash_of_parts port mid low)) = mid"
  "ucast (hash_of_parts port mid low) = low"
  unfolding hash_of_parts_def
  by (rule bit_word_eqI, auto simp: bit_simps dest: bit_imp_le_length)+

lemma hash_of_parts_inject:
  "hash_of_parts port mid low = hash_of_parts port' mid' low' \<longleftrightarrow> port = port' \<and> mid = mid' \<and> low = low'"
  by (metis hash_parts)

lemma SetHash_INET:
  "SetHash protocol (AF_INET port address) = hash_of_parts port address (if protocol = UDP then 0 else 1)"
  by (cases protocol) (simp_all add: SetHash_def address_hash_def hash_of_parts_def or.assoc)

lemma SetHash_INET6:
  "SetHash protocol (AF_INET6 port a) =
     hash_of_parts port (host_word a 0 XOR host_word a 1 XOR host_word a 2 XOR host_word a 3)
       (ucast (drop_bit 16 (host_word a 0) AND 0xFFFC) OR 2 OR (if protocol = UDP then 0 else 1))"
proof -
  have "(ucast (ucast (drop_bit 16 (host_word a 0) AND 0xFFFC) OR (2 :: u16) OR x) :: u64)
      = ucast (drop_bit 16 (host_word a 0) AND 0xFFFC) OR 2 OR ucast x" for x :: u16
    by (rule bit_word_eqI) (auto simp: bit_simps dest: bit_imp_le_length)
  then show ?thesis by (simp add: SetHash_def address_hash_def hash_of_parts_def or.assoc Let_def)
qed

text \<open>
  C38: The hash of an IPv4 tuple determines it: two tuples with IPv4 remote addresses compare equal
  exactly if protocol, port and address are equal, and an IPv4 tuple never compares equal to an
  IPv6 one.
\<close>

theorem TransportTuple_IPv4_hash:
  "(Compare (TransportTuple_new pr (AF_INET port address)) (TransportTuple_new pr' (AF_INET port' address'))
      \<longleftrightarrow> pr = pr' \<and> port = port' \<and> address = address') \<and>
   \<not> Compare (TransportTuple_new pr (AF_INET port address)) (TransportTuple_new pr' (AF_INET6 port' a))"
proof
  show "Compare (TransportTuple_new pr (AF_INET port address)) (TransportTuple_new pr' (AF_INET port' address'))
      \<longleftrightarrow> pr = pr' \<and> port = port' \<and> address = address'"
    by (cases pr; cases pr') (auto simp: Compare_def TransportTuple_new_def SetHash_INET hash_of_parts_inject)
  have ne: "l \<noteq> h OR 2 OR x" if "\<not> bit l 1" for l h x :: u16
    using that by (auto simp: bit_simps)
  have "\<not> bit (if pr = UDP then 0 else 1 :: u16) 1" by (simp add: bit_simps)
  from ne [OF this] have "(if pr = UDP then 0 else 1 :: u16) \<noteq> ucast (drop_bit 16 (host_word a 0) AND 0xFFFC) OR 2 OR x" for x
    .
  then show "\<not> Compare (TransportTuple_new pr (AF_INET port address)) (TransportTuple_new pr' (AF_INET6 port' a))"
    unfolding Compare_def TransportTuple_new_def transport_tuple.select_convs SetHash_INET SetHash_INET6
      hash_of_parts_inject by blast
qed

text \<open>The lowest field of an IPv6 hash: the 14 highest bits of the address, the family bit, the protocol bit.\<close>

definition low_field :: "u32 \<Rightarrow> bool \<Rightarrow> u16" where
  "low_field w tcp = ucast (drop_bit 16 w AND 0xFFFC) OR 2 OR (if tcp then 1 else 0)"

lemma bit_low_field:
  "bit (low_field w tcp) n \<longleftrightarrow> n = 0 \<and> tcp \<or> n = 1 \<or> 2 \<le> n \<and> n < 16 \<and> bit w (16 + n)"
proof -
  have "low_field w tcp = ucast (drop_bit 16 w AND push_bit 2 (mask 14)) OR 2 OR (if tcp then 1 else 0)"
    by (simp add: low_field_def mask_eq_exp_minus_1)
  then show ?thesis
    by (auto simp: bit_simps)
qed

lemma low_field_inject:
  "low_field w tcp = low_field w' tcp' \<longleftrightarrow> drop_bit 18 w = drop_bit 18 w' \<and> tcp = tcp'"
proof
  assume eq: "low_field w tcp = low_field w' tcp'"
  have "bit w (18 + m) = bit w' (18 + m)" if "m < 14" for m
    using that bit_low_field [of w tcp "m + 2"] bit_low_field [of w' tcp' "m + 2"] eq by simp
  then have "bit w (18 + m) = bit w' (18 + m)" for m
    by (cases "m < 14") (auto dest: bit_imp_le_length [of w] bit_imp_le_length [of w'])
  then have "drop_bit 18 w = drop_bit 18 w'"
    by (intro bit_word_eqI) (simp add: bit_simps)
  moreover have "tcp = tcp'"
    using bit_low_field [of w tcp 0] bit_low_field [of w' tcp' 0] eq by simp
  ultimately show "drop_bit 18 w = drop_bit 18 w' \<and> tcp = tcp'" ..
next
  assume eq: "drop_bit 18 w = drop_bit 18 w' \<and> tcp = tcp'"
  have "bit w (16 + n) = bit w' (16 + n)" if "2 \<le> n" for n
  proof -
    have "bit (drop_bit 18 w) (n - 2) = bit (drop_bit 18 w') (n - 2)" using eq by simp
    moreover have "18 + (n - 2) = 16 + n" using that by simp
    ultimately show ?thesis by (simp add: bit_drop_bit_eq)
  qed
  with eq show "low_field w tcp = low_field w' tcp'"
    by (intro bit_word_eqI) (auto simp: bit_low_field)
qed

lemma Compare_INET6:
  "Compare (TransportTuple_new pr (AF_INET6 port a)) (TransportTuple_new pr' (AF_INET6 port' b))
     \<longleftrightarrow> pr = pr' \<and> port = port'
       \<and> host_word a 0 XOR host_word a 1 XOR host_word a 2 XOR host_word a 3
         = host_word b 0 XOR host_word b 1 XOR host_word b 2 XOR host_word b 3
       \<and> drop_bit 18 (host_word a 0) = drop_bit 18 (host_word b 0)"
proof -
  have low: "ucast (drop_bit 16 w AND 0xFFFC) OR 2 OR (if p = UDP then 0 else 1) = low_field w (p \<noteq> UDP)"
    for w :: u32 and p
    by (simp add: low_field_def)
  show ?thesis
    unfolding Compare_def TransportTuple_new_def transport_tuple.select_convs SetHash_INET6
      hash_of_parts_inject low low_field_inject
    by (cases pr; cases pr') auto
qed



end
