(* ===== verification/IceServer.thy ===== *)
theory IceServer
  imports StunRoundtrip TransportTuple StateMachine "HOL-Library.Multiset"
begin

text \<open>
  \<^verbatim>\<open>RTC::IceServer\<close> (\<^verbatim>\<open>worker/include/RTC/IceServer.hpp\<close>, \<^verbatim>\<open>worker/src/RTC/IceServer.cpp\<close>): the ICE
  Lite agent of a WebRTC transport. It authenticates STUN requests, keeps the tuples it heard
  from, and selects one of them.

  The list of tuples is kept newest first, as in the code. A stored tuple has an address, and
  \<^verbatim>\<open>selectedTuple\<close> is such an address; a new tuple gets an address no other has. Dereferencing an
  address that is not stored, a failed assertion and an access outside a buffer are \<open>None\<close>. The
  calls to the listener are the outputs of an operation. The static \<^verbatim>\<open>StunSerializeBuffer\<close> is part
  of the state. HMAC-SHA1 is a parameter.
\<close>

section \<open>Definitions\<close>

datatype ice_state = NEW | CONNECTED | COMPLETED | DISCONNECTED

datatype ice_output =
    SendStunPacket stun_packet transport_tuple
  | LocalUsernameFragmentAdded bytes
  | LocalUsernameFragmentRemoved bytes
  | TupleAdded transport_tuple
  | TupleRemoved transport_tuple
  | SelectedTuple transport_tuple
  | IceConnected
  | IceCompleted
  | IceDisconnected

record ice_server =
  usernameFragment :: bytes
  password :: bytes
  oldUsernameFragment :: bytes
  oldPassword :: bytes
  remoteNomination :: u32
  state :: ice_state
  tuples :: "(nat \<times> transport_tuple) list"
  selectedTuple :: "nat option"
  nextAddress :: nat
  stunSerializeBuffer :: bytes

type_synonym ice_result = "(ice_server \<times> ice_output list) option"

definition MaxTuples :: nat where "MaxTuples = 8"

definition IceServer_new :: "bytes \<Rightarrow> bytes \<Rightarrow> bytes \<Rightarrow> ice_server \<times> ice_output list" where
  "IceServer_new buffer ufrag pwd =
     (\<lparr>usernameFragment = ufrag, password = pwd, oldUsernameFragment = [], oldPassword = [],
       remoteNomination = 0, state = NEW, tuples = [], selectedTuple = None, nextAddress = 0,
       stunSerializeBuffer = buffer\<rparr>,
      [LocalUsernameFragmentAdded ufrag])"

definition IceServer_delete :: "ice_server \<Rightarrow> ice_output list" where
  "IceServer_delete s =
     [LocalUsernameFragmentRemoved (usernameFragment s)]
     @ (if oldUsernameFragment s \<noteq> [] then [LocalUsernameFragmentRemoved (oldUsernameFragment s)] else [])
     @ map (TupleRemoved \<circ> snd) (tuples s)"

definition RestartIce :: "bytes \<Rightarrow> bytes \<Rightarrow> ice_server \<Rightarrow> ice_server \<times> ice_output list" where
  "RestartIce ufrag pwd s =
     (s\<lparr>oldUsernameFragment := usernameFragment s, usernameFragment := ufrag,
        oldPassword := password s, password := pwd, remoteNomination := 0\<rparr>,
      (if oldUsernameFragment s \<noteq> [] then [LocalUsernameFragmentRemoved (oldUsernameFragment s)] else [])
      @ [LocalUsernameFragmentAdded ufrag])"

text \<open>The address of a tuple of the list; the outer \<open>None\<close> is a dangling \<^verbatim>\<open>selectedTuple\<close>.\<close>

definition HasTuple :: "ice_server \<Rightarrow> transport_tuple \<Rightarrow> nat option option" where
  "HasTuple s tuple =
     (case selectedTuple s of
        None \<Rightarrow> Some None
      | Some selected \<Rightarrow>
          (case map_of (tuples s) selected of
             None \<Rightarrow> None
           | Some stored \<Rightarrow>
               if Compare stored tuple then Some (Some selected)
               else Some (map_option fst (find (\<lambda>(a, t). Compare t tuple) (tuples s)))))"

definition IsValidTuple :: "ice_server \<Rightarrow> transport_tuple \<Rightarrow> bool option" where
  "IsValidTuple s tuple = map_option (\<lambda>r. r \<noteq> None) (HasTuple s tuple)"

definition SetSelectedTuple :: "nat \<Rightarrow> ice_server \<Rightarrow> ice_result" where
  "SetSelectedTuple address s =
     (if Some address = selectedTuple s then Some (s, [])
      else do {
        tuple \<leftarrow> map_of (tuples s) address;
        Some (s\<lparr>selectedTuple := Some address\<rparr>, [SelectedTuple tuple]) })"

definition AddTuple :: "transport_tuple \<Rightarrow> ice_server \<Rightarrow> (nat \<times> ice_server \<times> ice_output list) option" where
  "AddTuple tuple s =
     (let address = nextAddress s;
          s = s\<lparr>tuples := (address, tuple) # tuples s, nextAddress := address + 1\<rparr>
      in if length (tuples s) > MaxTuples
         then (case find (\<lambda>(a, t). a \<noteq> address \<and> Some a \<noteq> selectedTuple s) (rev (tuples s)) of
                 None \<Rightarrow> None
               | Some (a, t) \<Rightarrow>
                   Some (address, s\<lparr>tuples := filter (\<lambda>(b, u). b \<noteq> a) (tuples s)\<rparr>,
                         [TupleAdded tuple, TupleRemoved t]))
         else Some (address, s, [TupleAdded tuple]))"

definition RemoveTuple :: "transport_tuple \<Rightarrow> ice_server \<Rightarrow> ice_result" where
  "RemoveTuple tuple s =
     (case find (\<lambda>(a, t). Compare t tuple) (tuples s) of
        None \<Rightarrow> Some (s, [])
      | Some (address, removed) \<Rightarrow>
          let s = s\<lparr>tuples := filter (\<lambda>(b, u). b \<noteq> address) (tuples s)\<rparr>
          in if selectedTuple s = Some address
             then let s = s\<lparr>selectedTuple := None\<rparr>
                  in (case tuples s of
                        (first, t) # rest \<Rightarrow> do {
                          (s, out) \<leftarrow> SetSelectedTuple first s;
                          Some (s, TupleRemoved removed # out) }
                      | [] \<Rightarrow> Some (s\<lparr>state := DISCONNECTED\<rparr>, [TupleRemoved removed, IceDisconnected]))
             else Some (s, [TupleRemoved removed]))"

definition ForceSelectedTuple :: "transport_tuple \<Rightarrow> ice_server \<Rightarrow> ice_result" where
  "ForceSelectedTuple tuple s =
     (if selectedTuple s = None then None
      else do {
        found \<leftarrow> HasTuple s tuple;
        stored \<leftarrow> found;
        SetSelectedTuple stored s })"

text \<open>\<^verbatim>\<open>HandleTuple\<close> in the states without a tuple, new and disconnected.\<close>

definition HandleTuple_first :: "transport_tuple \<Rightarrow> bool \<Rightarrow> bool \<Rightarrow> u32 \<Rightarrow> ice_server \<Rightarrow> ice_result" where
  "HandleTuple_first tuple hasUseCandidate hasNomination nomination s =
     (if tuples s \<noteq> [] then None
      else if selectedTuple s \<noteq> None then None
      else if \<not> hasUseCandidate \<and> \<not> hasNomination
      then do {
        (stored, s, out1) \<leftarrow> AddTuple tuple s;
        (s, out2) \<leftarrow> SetSelectedTuple stored s;
        Some (s\<lparr>state := CONNECTED\<rparr>, out1 @ out2 @ [IceConnected]) }
      else do {
        (stored, s, out1) \<leftarrow> AddTuple tuple s;
        (if (hasNomination \<and> nomination > remoteNomination s) \<or> \<not> hasNomination
         then do {
           (s, out2) \<leftarrow> SetSelectedTuple stored s;
           Some (s\<lparr>state := COMPLETED,
                   remoteNomination := (if hasNomination \<and> nomination > remoteNomination s then nomination
                                        else remoteNomination s)\<rparr>,
                 out1 @ out2 @ [IceCompleted]) }
         else Some (s, out1)) })"

text \<open>
  \<^verbatim>\<open>HandleTuple\<close> in the states with a selected tuple; \<open>completed\<close> is what follows a nomination: the
  change of state and its notification while connected, nothing while completed.
\<close>

definition HandleTuple_further ::
  "(ice_server \<Rightarrow> ice_server \<times> ice_output list) \<Rightarrow> transport_tuple \<Rightarrow> bool \<Rightarrow> bool \<Rightarrow> u32 \<Rightarrow> ice_server \<Rightarrow> ice_result" where
  "HandleTuple_further completed tuple hasUseCandidate hasNomination nomination s =
     (if tuples s = [] then None
      else if selectedTuple s = None then None
      else do {
        found \<leftarrow> HasTuple s tuple;
        (if \<not> hasUseCandidate \<and> \<not> hasNomination
         then (case found of
                 None \<Rightarrow> do { (stored, s, out) \<leftarrow> AddTuple tuple s; Some (s, out) }
               | Some stored \<Rightarrow> Some (s, []))
         else do {
           (stored, s, out1) \<leftarrow> (case found of None \<Rightarrow> AddTuple tuple s | Some stored \<Rightarrow> Some (stored, s, []));
           (if (hasNomination \<and> nomination > remoteNomination s) \<or> \<not> hasNomination
            then do {
              (s, out2) \<leftarrow> SetSelectedTuple stored s;
              let (s, out3) = completed
                    (s\<lparr>remoteNomination := (if hasNomination \<and> nomination > remoteNomination s then nomination
                                            else remoteNomination s)\<rparr>)
              in Some (s, out1 @ out2 @ out3) }
            else Some (s, out1)) }) })"

definition HandleTuple :: "transport_tuple \<Rightarrow> bool \<Rightarrow> bool \<Rightarrow> u32 \<Rightarrow> ice_server \<Rightarrow> ice_result" where
  "HandleTuple tuple hasUseCandidate hasNomination nomination s =
     (case state s of
        NEW \<Rightarrow> HandleTuple_first tuple hasUseCandidate hasNomination nomination s
      | DISCONNECTED \<Rightarrow> HandleTuple_first tuple hasUseCandidate hasNomination nomination s
      | CONNECTED \<Rightarrow>
          HandleTuple_further (\<lambda>s. (s\<lparr>state := COMPLETED\<rparr>, [IceCompleted]))
            tuple hasUseCandidate hasNomination nomination s
      | COMPLETED \<Rightarrow>
          HandleTuple_further (\<lambda>s. (s, [])) tuple hasUseCandidate hasNomination nomination s)"

text \<open>A response is serialised into the static buffer and handed to the listener.\<close>

definition send_response ::
  "(bytes \<Rightarrow> bytes \<Rightarrow> bytes) \<Rightarrow> stun_packet \<Rightarrow> transport_tuple \<Rightarrow> ice_server \<Rightarrow> ice_result" where
  "send_response hmacSha1 response tuple s = do {
     response \<leftarrow> StunPacket_Serialize hmacSha1 (stunSerializeBuffer s) response;
     Some (s\<lparr>stunSerializeBuffer := sp_data response\<rparr>, [SendStunPacket response tuple]) }"

definition reply_error ::
  "(bytes \<Rightarrow> bytes \<Rightarrow> bytes) \<Rightarrow> stun_packet \<Rightarrow> u16 \<Rightarrow> transport_tuple \<Rightarrow> ice_server \<Rightarrow> ice_result" where
  "reply_error hmacSha1 packet code tuple s = do {
     response \<leftarrow> CreateErrorResponse packet code;
     send_response hmacSha1 response tuple s }"

text \<open>The switch over the authentication: the state to go on with, or the error code to reply.\<close>

definition authenticate_request ::
  "(bytes \<Rightarrow> bytes \<Rightarrow> bytes) \<Rightarrow> stun_packet \<Rightarrow> ice_server \<Rightarrow> (u16 + ice_server \<times> ice_output list) option" where
  "authenticate_request hmacSha1 packet s = do {
     result \<leftarrow> CheckAuthentication hmacSha1 (usernameFragment s) (password s) packet;
     (case result of
        AUTH_OK \<Rightarrow>
          Some (Inr (if oldUsernameFragment s \<noteq> [] \<and> oldPassword s \<noteq> []
                     then (s\<lparr>oldUsernameFragment := [], oldPassword := []\<rparr>,
                           [LocalUsernameFragmentRemoved (oldUsernameFragment s)])
                     else (s, [])))
      | UNAUTHORIZED \<Rightarrow>
          if oldUsernameFragment s \<noteq> [] \<and> oldPassword s \<noteq> []
          then do {
            old \<leftarrow> CheckAuthentication hmacSha1 (oldUsernameFragment s) (oldPassword s) packet;
            Some (if old = AUTH_OK then Inr (s, []) else Inl 401) }
          else Some (Inl 401)
      | BAD_REQUEST \<Rightarrow> Some (Inl 400)) }"

definition process_request ::
  "(bytes \<Rightarrow> bytes \<Rightarrow> bytes) \<Rightarrow> stun_packet \<Rightarrow> transport_tuple \<Rightarrow> ice_server \<Rightarrow> ice_result" where
  "process_request hmacSha1 packet tuple s =
     (if sp_messageIntegrity packet = None \<or> sp_priority packet = 0 \<or> sp_username packet = []
      then reply_error hmacSha1 packet 400 tuple s
      else do {
        authentication \<leftarrow> authenticate_request hmacSha1 packet s;
        (case authentication of
           Inl code \<Rightarrow> reply_error hmacSha1 packet code tuple s
         | Inr (s, out1) \<Rightarrow>
             if sp_iceControlled packet \<noteq> 0
             then do { (s, out2) \<leftarrow> reply_error hmacSha1 packet 487 tuple s; Some (s, out1 @ out2) }
             else do {
               response \<leftarrow> CreateSuccessResponse packet;
               let response = response\<lparr>sp_xorMappedAddress := Some (tt_remoteAddress tuple)\<rparr>;
                   response = Authenticate (if oldPassword s = [] then password s else oldPassword s) response
               in do {
                 (s, out2) \<leftarrow> send_response hmacSha1 response tuple s;
                 (s, out3) \<leftarrow> HandleTuple tuple (sp_hasUseCandidate packet) (sp_hasNomination packet)
                   (if sp_hasNomination packet then sp_nomination packet else 0) s;
                 Some (s, out1 @ out2 @ out3) } }) })"

definition ProcessStunPacket ::
  "(bytes \<Rightarrow> bytes \<Rightarrow> bytes) \<Rightarrow> stun_packet \<Rightarrow> transport_tuple \<Rightarrow> ice_server \<Rightarrow> ice_result" where
  "ProcessStunPacket hmacSha1 packet tuple s =
     (if sp_method packet \<noteq> BINDING
      then if sp_klass packet = REQUEST then reply_error hmacSha1 packet 400 tuple s else Some (s, [])
      else if \<not> sp_hasFingerprint packet \<and> sp_klass packet \<noteq> INDICATION
      then if sp_klass packet = REQUEST then reply_error hmacSha1 packet 400 tuple s else Some (s, [])
      else (case sp_klass packet of
              REQUEST \<Rightarrow> process_request hmacSha1 packet tuple s
            | INDICATION \<Rightarrow> Some (s, [])
            | SUCCESS_RESPONSE \<Rightarrow> Some (s, [])
            | ERROR_RESPONSE \<Rightarrow> Some (s, [])))"

datatype ice_event =
    StunPacketReceived stun_packet transport_tuple
  | TupleClosed transport_tuple
  | SelectionForced transport_tuple
  | IceRestarted bytes bytes

fun ice_step :: "(bytes \<Rightarrow> bytes \<Rightarrow> bytes) \<Rightarrow> ice_server \<Rightarrow> ice_event \<Rightarrow> ice_result" where
  "ice_step hmacSha1 s (StunPacketReceived packet tuple) = ProcessStunPacket hmacSha1 packet tuple s"
| "ice_step hmacSha1 s (TupleClosed tuple) = RemoveTuple tuple s"
| "ice_step hmacSha1 s (SelectionForced tuple) = ForceSelectedTuple tuple s"
| "ice_step hmacSha1 s (IceRestarted ufrag pwd) = Some (RestartIce ufrag pwd s)"

section \<open>The list of tuples\<close>

text \<open>Addresses and hashes in the list are distinct, addresses are below the next one.\<close>

definition tuples_ok :: "(nat \<times> transport_tuple) list \<Rightarrow> nat \<Rightarrow> bool" where
  "tuples_ok xs n \<longleftrightarrow> distinct (map fst xs) \<and> distinct (map (tt_hash \<circ> snd) xs) \<and>
     (\<forall>a\<in>fst ` set xs. a < n) \<and> length xs \<le> MaxTuples"

definition selection_ok :: "(nat \<times> transport_tuple) list \<Rightarrow> nat option \<Rightarrow> bool" where
  "selection_ok xs selected \<longleftrightarrow> (case selected of None \<Rightarrow> xs = [] | Some a \<Rightarrow> a \<in> fst ` set xs)"

definition erase_address :: "nat \<Rightarrow> (nat \<times> transport_tuple) list \<Rightarrow> (nat \<times> transport_tuple) list" where
  "erase_address a = filter (\<lambda>(b, u). b \<noteq> a)"

lemma erase_address_mset:
  assumes "distinct (map fst xs)" "(a, t) \<in> set xs"
  shows "mset xs = add_mset (a, t) (mset (erase_address a xs))"
  using assms
proof (induction xs)
  case (Cons x xs)
  obtain b u where x: "x = (b, u)" by (cases x)
  show ?case
  proof (cases "b = a")
    case True
    with Cons.prems x have "a \<notin> fst ` set xs" by auto
    then have "erase_address a xs = xs" by (force simp: erase_address_def filter_id_conv)
    moreover have "t = u" using Cons.prems x True by force
    ultimately show ?thesis using x True by (simp add: erase_address_def)
  next
    case False
    then show ?thesis using Cons x by (auto simp: erase_address_def)
  qed
qed simp

lemma erase_address_length:
  "distinct (map fst xs) \<Longrightarrow> (a, t) \<in> set xs \<Longrightarrow> Suc (length (erase_address a xs)) = length xs"
  using erase_address_mset [of xs a t] by (metis size_add_mset size_mset)

lemma erase_address_set: "set (erase_address a xs) = {x \<in> set xs. fst x \<noteq> a}"
  by (auto simp: erase_address_def)

lemma erase_address_ok: "tuples_ok xs n \<Longrightarrow> tuples_ok (erase_address a xs) n"
  by (auto simp: tuples_ok_def erase_address_def distinct_map_filter
      intro: order_trans [OF length_filter_le])

lemma map_of_stored: "tuples_ok xs n \<Longrightarrow> (a, t) \<in> set xs \<Longrightarrow> map_of xs a = Some t"
  by (simp add: tuples_ok_def)

lemma find_SomeD: "find P xs = Some x \<Longrightarrow> x \<in> set xs \<and> P x"
  by (induction xs) (auto split: if_splits)

lemma find_stored:
  "find (\<lambda>(a, t). Compare t tuple) xs = None \<longleftrightarrow> tt_hash tuple \<notin> (tt_hash \<circ> snd) ` set xs"
  "find (\<lambda>(a, t). Compare t tuple) xs = Some (a, t) \<Longrightarrow> (a, t) \<in> set xs \<and> Compare t tuple"
  by (force simp: find_None_iff Compare_def image_iff, auto dest: find_SomeD)

lemma HasTuple_total:
  assumes "tuples_ok (tuples s) n" "selection_ok (tuples s) (selectedTuple s)"
  shows "\<exists>r. HasTuple s t = Some r \<and>
    (case r of None \<Rightarrow> tt_hash t \<notin> (tt_hash \<circ> snd) ` set (tuples s)
             | Some a \<Rightarrow> \<exists>u. (a, u) \<in> set (tuples s) \<and> Compare u t)"
proof (cases "selectedTuple s")
  case None
  then show ?thesis using assms by (simp add: HasTuple_def selection_ok_def)
next
  case (Some b)
  then obtain v where v: "(b, v) \<in> set (tuples s)" using assms(2) by (auto simp: selection_ok_def)
  note bv = map_of_stored [OF assms(1) v]
  show ?thesis
  proof (cases "Compare v t")
    case True
    then show ?thesis using Some bv v by (auto simp: HasTuple_def)
  next
    case False
    then show ?thesis
      using Some bv find_stored [of t "tuples s"]
      by (cases "find (\<lambda>(a, u). Compare u t) (tuples s)") (auto simp: HasTuple_def)
  qed
qed

lemma AddTuple_total:
  assumes ok: "tuples_ok (tuples s) (nextAddress s)" and sel: "selection_ok (tuples s) (selectedTuple s)"
    and new: "tt_hash t \<notin> (tt_hash \<circ> snd) ` set (tuples s)"
  obtains xs out where "AddTuple t s
      = Some (nextAddress s, s\<lparr>tuples := xs, nextAddress := nextAddress s + 1\<rparr>, TupleAdded t # out)"
    and "tuples_ok xs (nextAddress s + 1)" "(nextAddress s, t) \<in> set xs"
    and "\<And>a. selectedTuple s = Some a \<Longrightarrow> a \<in> fst ` set xs"
    and "set xs \<subseteq> insert (nextAddress s, t) (set (tuples s))"
    and "(out = [] \<and> xs = (nextAddress s, t) # tuples s) \<or>
         (\<exists>a u. out = [TupleRemoved u] \<and> length (tuples s) = MaxTuples \<and>
            mset ((nextAddress s, t) # tuples s) = add_mset (a, u) (mset xs))"
proof -
  let ?n = "nextAddress s" and ?xs = "(nextAddress s, t) # tuples s"
  have d: "distinct (map fst ?xs)" "distinct (map (tt_hash \<circ> snd) ?xs)" "\<forall>a\<in>fst ` set ?xs. a < ?n + 1"
    using ok new by (auto simp: tuples_ok_def)
  have selin: "a \<in> fst ` set (tuples s)" if "selectedTuple s = Some a" for a
    using sel that by (simp add: selection_ok_def)
  show thesis
  proof (cases "length ?xs > MaxTuples")
    case False
    show thesis
      by (rule that [of ?xs "[]"]) (use False d selin in \<open>auto simp: AddTuple_def tuples_ok_def Let_def\<close>)
  next
    case True
    let ?P = "\<lambda>(a, u). a \<noteq> ?n \<and> Some a \<noteq> selectedTuple s"
    have len: "length (tuples s) = 8" using True ok by (simp add: tuples_ok_def MaxTuples_def)
    have "\<exists>x\<in>set (tuples s). ?P x"
    proof (rule ccontr)
      assume "\<not> ?thesis"
      then have "fst ` set (tuples s) \<subseteq> {?n} \<union> set_option (selectedTuple s)" by (auto simp: elem_set)
      then have "card (fst ` set (tuples s)) \<le> card ({?n} \<union> set_option (selectedTuple s))"
        by (intro card_mono) auto
      also have "\<dots> \<le> 2" by (cases "selectedTuple s") (auto simp: card_insert_if)
      finally show False using len ok distinct_card [of "map fst (tuples s)"] by (simp add: tuples_ok_def)
    qed
    then have "find ?P (rev ?xs) \<noteq> None" by (auto simp: find_None_iff)
    then obtain a u where f: "find ?P (rev ?xs) = Some (a, u)" by auto
    then have "(a, u) \<in> set (rev ?xs)" and P: "a \<noteq> ?n" "Some a \<noteq> selectedTuple s"
      using find_SomeD [OF f] by auto
    then have au: "(a, u) \<in> set ?xs" by (simp only: set_rev)
    show thesis
    proof (rule that [of "erase_address a ?xs" "[TupleRemoved u]"])
      show "AddTuple t s = Some (?n, s\<lparr>tuples := erase_address a ?xs, nextAddress := ?n + 1\<rparr>,
          [TupleAdded t, TupleRemoved u])"
        using True f by (simp add: AddTuple_def Let_def erase_address_def)
      show "tuples_ok (erase_address a ?xs) (?n + 1)"
        using d len erase_address_length [OF d(1) au]
        by (auto simp: tuples_ok_def erase_address_def distinct_map_filter MaxTuples_def)
      show "(?n, t) \<in> set (erase_address a ?xs)" using P by (simp add: erase_address_set)
      show "b \<in> fst ` set (erase_address a ?xs)" if "selectedTuple s = Some b" for b
        using selin [OF that] that P by (auto simp: erase_address_set image_iff)
      show "set (erase_address a ?xs) \<subseteq> insert (?n, t) (set (tuples s))"
        by (auto simp: erase_address_set)
      show "([TupleRemoved u] = [] \<and> erase_address a ?xs = ?xs) \<or>
          (\<exists>b v. [TupleRemoved u] = [TupleRemoved v] \<and> length (tuples s) = MaxTuples \<and>
             mset ?xs = add_mset (b, v) (mset (erase_address a ?xs)))"
        using erase_address_mset [OF d(1) au] len by (auto simp: MaxTuples_def)
    qed
  qed
qed

section \<open>Invariant and balance\<close>

definition ice_inv :: "ice_server \<Rightarrow> bool" where
  "ice_inv s \<longleftrightarrow> tuples_ok (tuples s) (nextAddress s) \<and> selection_ok (tuples s) (selectedTuple s) \<and>
     (tuples s = [] \<longleftrightarrow> state s = NEW \<or> state s = DISCONNECTED) \<and>
     length (stunSerializeBuffer s) = 65536 \<and> usernameFragment s \<noteq> []"

fun tuple_in :: "ice_output \<Rightarrow> transport_tuple multiset" where
  "tuple_in (TupleAdded t) = {#t#}"
| "tuple_in _ = {#}"

fun tuple_out :: "ice_output \<Rightarrow> transport_tuple multiset" where
  "tuple_out (TupleRemoved t) = {#t#}"
| "tuple_out _ = {#}"

fun fragment_in :: "ice_output \<Rightarrow> bytes multiset" where
  "fragment_in (LocalUsernameFragmentAdded u) = {#u#}"
| "fragment_in _ = {#}"

fun fragment_out :: "ice_output \<Rightarrow> bytes multiset" where
  "fragment_out (LocalUsernameFragmentRemoved u) = {#u#}"
| "fragment_out _ = {#}"

text \<open>What one kind of output amounts to over a list of outputs.\<close>

definition total :: "('o \<Rightarrow> 'a multiset) \<Rightarrow> 'o list \<Rightarrow> 'a multiset" where
  "total f outs = sum_list (map f outs)"

lemma total_simps [simp]:
  "total f [] = {#}" "total f (x # xs) = f x + total f xs" "total f (xs @ ys) = total f xs + total f ys"
  by (simp_all add: total_def)

definition stored_tuples :: "ice_server \<Rightarrow> transport_tuple multiset" where
  "stored_tuples s = mset (map snd (tuples s))"

definition fragments :: "ice_server \<Rightarrow> bytes multiset" where
  "fragments s = {#usernameFragment s#} + (if oldUsernameFragment s \<noteq> [] then {#oldUsernameFragment s#} else {#})"

text \<open>What the listener was told agrees with what changed.\<close>

definition balanced :: "ice_server \<Rightarrow> ice_output list \<Rightarrow> ice_server \<Rightarrow> bool" where
  "balanced s out s' \<longleftrightarrow>
     stored_tuples s + total tuple_in out = stored_tuples s' + total tuple_out out \<and>
     fragments s + total fragment_in out = fragments s' + total fragment_out out"

lemma balanced_refl: "balanced s [] s"
  by (simp add: balanced_def)

lemma balanced_trans:
  assumes "balanced s o1 s'" "balanced s' o2 s''"
  shows "balanced s (o1 @ o2) s''"
proof -
  have add: "a + (i1 + i2) = c + (r1 + r2)" if "a + i1 = b + r1" "b + i2 = c + r2"
    for a b c i1 i2 r1 r2 :: "'x multiset"
  proof -
    have "a + (i1 + i2) = (b + i2) + r1" using that(1) by (metis add.assoc add.commute)
    then show ?thesis using that(2) by (metis add.assoc add.commute)
  qed
  show ?thesis using assms unfolding balanced_def total_simps by (blast intro: add)
qed

lemma balanced_same:
  assumes "tuples s' = tuples s" "usernameFragment s' = usernameFragment s"
    "oldUsernameFragment s' = oldUsernameFragment s" "total tuple_in out = {#}" "total tuple_out out = {#}"
    "total fragment_in out = {#}" "total fragment_out out = {#}"
  shows "balanced s out s'"
  using assms by (simp add: balanced_def stored_tuples_def fragments_def)

end
