(* ===== verification/IceServerSafety.thy ===== *)
theory IceServerSafety
  imports IceServer
begin

text \<open>
  Proofs about \<^verbatim>\<open>RTC::IceServer\<close>: every operation keeps the invariant of the list of tuples and
  the selection, no assertion fails, and the listener is told of every change.
\<close>

section \<open>Handling a tuple\<close>

definition nominates :: "bool \<Rightarrow> bool \<Rightarrow> u32 \<Rightarrow> ice_server \<Rightarrow> bool" where
  "nominates hasUseCandidate hasNomination nomination s \<longleftrightarrow>
     (if hasNomination then nomination > remoteNomination s else hasUseCandidate)"

text \<open>
  What an authenticated request for a tuple achieves: the tuple is stored; a nominated one is
  selected and completes; without nomination the first one is selected and connects, a further one
  changes neither selection nor state.
\<close>

definition handled :: "transport_tuple \<Rightarrow> bool \<Rightarrow> bool \<Rightarrow> u32 \<Rightarrow> ice_server \<Rightarrow> ice_server \<Rightarrow> bool" where
  "handled t hasUseCandidate hasNomination nomination s s' \<longleftrightarrow>
     (\<exists>a u. (a, u) \<in> set (tuples s') \<and> Compare u t \<and>
        (if nominates hasUseCandidate hasNomination nomination s
         then selectedTuple s' = Some a \<and> state s' = COMPLETED
         else if selectedTuple s = None then selectedTuple s' = Some a \<and> state s' = CONNECTED
         else selectedTuple s' = selectedTuple s \<and> state s' = state s)) \<and>
     remoteNomination s' = (if hasNomination then max (remoteNomination s) nomination else remoteNomination s)"

lemma handled_cong:
  assumes "selectedTuple s1 = selectedTuple s2" "state s1 = state s2" "remoteNomination s1 = remoteNomination s2"
    and "hasNomination \<Longrightarrow> n1 = n2"
  shows "handled t hasUseCandidate hasNomination n1 s1 s' = handled t hasUseCandidate hasNomination n2 s2 s'"
  using assms by (cases hasNomination) (simp_all add: handled_def nominates_def)

lemma Compare_refl: "Compare t t"
  by (simp add: Compare_def)

lemma HandleTuple_first_post:
  assumes "ice_inv s" "tuples s = []" "hasNomination \<longrightarrow> remoteNomination s < nomination"
  shows "\<exists>s' out. HandleTuple_first t hasUseCandidate hasNomination nomination s = Some (s', out) \<and>
    ice_inv s' \<and> balanced s out s' \<and> handled t hasUseCandidate hasNomination nomination s s'"
proof -
  have sel: "selectedTuple s = None" using assms by (auto simp: ice_inv_def selection_ok_def split: option.splits)
  have add: "AddTuple t s = Some (nextAddress s,
      s\<lparr>tuples := [(nextAddress s, t)], nextAddress := nextAddress s + 1\<rparr>, [TupleAdded t])"
    using assms(2) by (simp add: AddTuple_def Let_def MaxTuples_def)
  show ?thesis
    using assms sel
    by (auto simp: HandleTuple_first_def add SetSelectedTuple_def ice_inv_def tuples_ok_def selection_ok_def
        MaxTuples_def balanced_def stored_tuples_def fragments_def handled_def nominates_def Compare_refl max_def)
qed

lemma lookup_or_add:
  assumes inv: "ice_inv s" and ne: "tuples s \<noteq> []"
  obtains found a xs n out where "HasTuple s t = Some found"
    and "(case found of None \<Rightarrow> AddTuple t s | Some stored \<Rightarrow> Some (stored, s, []))
      = Some (a, s\<lparr>tuples := xs, nextAddress := n\<rparr>, out)"
    and "ice_inv (s\<lparr>tuples := xs, nextAddress := n\<rparr>)" "xs \<noteq> []"
    and "balanced s out (s\<lparr>tuples := xs, nextAddress := n\<rparr>)"
    and "\<exists>u. (a, u) \<in> set xs \<and> Compare u t"
    and "found \<noteq> None \<Longrightarrow> s\<lparr>tuples := xs, nextAddress := n\<rparr> = s \<and> out = []"
proof -
  have ok: "tuples_ok (tuples s) (nextAddress s)" "selection_ok (tuples s) (selectedTuple s)"
    using inv by (simp_all add: ice_inv_def)
  from HasTuple_total [OF ok] obtain found where f: "HasTuple s t = Some found"
    and c: "case found of None \<Rightarrow> tt_hash t \<notin> (tt_hash \<circ> snd) ` set (tuples s)
      | Some a \<Rightarrow> \<exists>u. (a, u) \<in> set (tuples s) \<and> Compare u t" by blast
  show thesis
  proof (cases found)
    case (Some a)
    show thesis
      by (rule that [of found a "nextAddress s" "tuples s" "[]"]) (use f c Some inv ne in \<open>auto simp: balanced_refl\<close>)
  next
    case None
    with c have new: "tt_hash t \<notin> (tt_hash \<circ> snd) ` set (tuples s)" by simp
    obtain xs out where add: "AddTuple t s
        = Some (nextAddress s, s\<lparr>tuples := xs, nextAddress := nextAddress s + 1\<rparr>, TupleAdded t # out)"
      and xs: "tuples_ok xs (nextAddress s + 1)" "(nextAddress s, t) \<in> set xs"
        "\<And>a. selectedTuple s = Some a \<Longrightarrow> a \<in> fst ` set xs"
      and out: "(out = [] \<and> xs = (nextAddress s, t) # tuples s) \<or>
         (\<exists>a u. out = [TupleRemoved u] \<and> length (tuples s) = MaxTuples \<and>
            mset ((nextAddress s, t) # tuples s) = add_mset (a, u) (mset xs))"
      by (rule AddTuple_total [OF ok new]) (rule that; assumption)
    have "balanced s (TupleAdded t # out) (s\<lparr>tuples := xs, nextAddress := nextAddress s + 1\<rparr>)"
      using out
    proof (elim disjE exE conjE)
      fix a u
      assume o: "out = [TupleRemoved u]"
        and "mset ((nextAddress s, t) # tuples s) = add_mset (a, u) (mset xs)"
      then have "image_mset snd (mset ((nextAddress s, t) # tuples s)) = image_mset snd (add_mset (a, u) (mset xs))"
        by simp
      then show ?thesis by (simp add: o balanced_def stored_tuples_def fragments_def)
    qed (simp add: balanced_def stored_tuples_def fragments_def)
    moreover have "ice_inv (s\<lparr>tuples := xs, nextAddress := nextAddress s + 1\<rparr>)"
      using inv ne xs ok(2) by (auto simp: ice_inv_def selection_ok_def split: option.splits)
    ultimately show thesis
      using f None add xs(2) by (intro that [of found "nextAddress s" "nextAddress s + 1" xs "TupleAdded t # out"])
        (auto intro: Compare_refl)
  qed
qed

lemma SetSelectedTuple_post:
  assumes "ice_inv s" "(a, u) \<in> set (tuples s)"
  obtains out where "SetSelectedTuple a s = Some (s\<lparr>selectedTuple := Some a\<rparr>, out)"
    and "ice_inv (s\<lparr>selectedTuple := Some a\<rparr>)" "balanced s out (s\<lparr>selectedTuple := Some a\<rparr>)"
proof -
  have "map_of (tuples s) a = Some u"
    using assms by (intro map_of_stored) (auto simp: ice_inv_def)
  moreover have "ice_inv (s\<lparr>selectedTuple := Some a\<rparr>)"
    using assms by (force simp: ice_inv_def selection_ok_def)
  ultimately show thesis
    by (intro that [of "if Some a = selectedTuple s then [] else [SelectedTuple u]"])
      (simp_all add: SetSelectedTuple_def balanced_same)
qed

text \<open>What the two states do after a nomination.\<close>

definition completes :: "(ice_server \<Rightarrow> ice_server \<times> ice_output list) \<Rightarrow> ice_server \<Rightarrow> bool" where
  "completes c s \<longleftrightarrow>
     (c = (\<lambda>s. (s\<lparr>state := COMPLETED\<rparr>, [IceCompleted])) \<and> state s = CONNECTED) \<or>
     (c = (\<lambda>s. (s, [])) \<and> state s = COMPLETED)"

lemma completes_post:
  assumes "completes c s" "ice_inv s'" "state s' = state s" "tuples s' \<noteq> []"
  obtains s'' out where "c s' = (s'', out)" "ice_inv s''" "balanced s' out s''"
    "tuples s'' = tuples s'" "selectedTuple s'' = selectedTuple s'" "state s'' = COMPLETED"
    "remoteNomination s'' = remoteNomination s'"
proof (cases "state s = CONNECTED")
  case True
  with assms(1) have c: "c = (\<lambda>s. (s\<lparr>state := COMPLETED\<rparr>, [IceCompleted]))" by (simp add: completes_def)
  show thesis
    by (rule that [of "s'\<lparr>state := COMPLETED\<rparr>" "[IceCompleted]"])
      (use assms(2,4) in \<open>simp_all add: c balanced_same, simp add: ice_inv_def\<close>)
next
  case False
  with assms(1) have c: "c = (\<lambda>s. (s, []))" "state s = COMPLETED" by (simp_all add: completes_def)
  show thesis
    by (rule that [of s' "[]"]) (use assms(2,3) in \<open>simp_all add: c balanced_refl\<close>)
qed

lemma HandleTuple_further_post:
  assumes inv: "ice_inv s" and ne: "tuples s \<noteq> []" and c: "completes c s"
  shows "\<exists>s' out. HandleTuple_further c t hasUseCandidate hasNomination nomination s = Some (s', out) \<and>
    ice_inv s' \<and> balanced s out s' \<and> handled t hasUseCandidate hasNomination nomination s s'"
proof -
  obtain sel where sel: "selectedTuple s = Some sel"
    using inv ne by (auto simp: ice_inv_def selection_ok_def split: option.splits)
  obtain found a xs n out1 where f: "HasTuple s t = Some found"
    and add: "(case found of None \<Rightarrow> AddTuple t s | Some b \<Rightarrow> Some (b, s, []))
      = Some (a, s\<lparr>tuples := xs, nextAddress := n\<rparr>, out1)"
    and inv1: "ice_inv (s\<lparr>tuples := xs, nextAddress := n\<rparr>)" "xs \<noteq> []"
    and bal1: "balanced s out1 (s\<lparr>tuples := xs, nextAddress := n\<rparr>)"
    and found: "\<exists>u. (a, u) \<in> set xs \<and> Compare u t"
    and same: "found \<noteq> None \<Longrightarrow> s\<lparr>tuples := xs, nextAddress := n\<rparr> = s \<and> out1 = []"
    by (rule lookup_or_add [OF inv ne, of t]) (rule that; assumption)
  let ?s1 = "s\<lparr>tuples := xs, nextAddress := n\<rparr>"
  from found obtain u where u: "(a, u) \<in> set xs" "Compare u t" by blast
  show ?thesis
  proof (cases "nominates hasUseCandidate hasNomination nomination s")
    case False
    have "HandleTuple_further c t hasUseCandidate hasNomination nomination s = Some (?s1, out1)"
      using f add False ne sel same
      by (cases found) (auto simp: HandleTuple_further_def nominates_def split: if_splits)
    moreover have "handled t hasUseCandidate hasNomination nomination s ?s1"
      using u False sel by (auto simp: handled_def nominates_def max_def)
    ultimately show ?thesis using inv1 bal1 by blast
  next
    case True
    obtain out2 where s2: "SetSelectedTuple a ?s1 = Some (?s1\<lparr>selectedTuple := Some a\<rparr>, out2)"
      and inv2: "ice_inv (?s1\<lparr>selectedTuple := Some a\<rparr>)" and bal2: "balanced ?s1 out2 (?s1\<lparr>selectedTuple := Some a\<rparr>)"
      using SetSelectedTuple_post [OF inv1(1), of a u] u by auto
    let ?s3 = "?s1\<lparr>selectedTuple := Some a,
      remoteNomination := if hasNomination \<and> nomination > remoteNomination s then nomination else remoteNomination s\<rparr>"
    have "ice_inv ?s3" using inv2 by (simp add: ice_inv_def)
    then obtain s4 out3 where s4: "c ?s3 = (s4, out3)" "ice_inv s4" "balanced ?s3 out3 s4" "tuples s4 = xs"
      "selectedTuple s4 = Some a" "state s4 = COMPLETED" "remoteNomination s4 = remoteNomination ?s3"
      using completes_post [OF c, of ?s3] inv1(2) by auto
    have "balanced ?s1 out2 ?s3" using bal2 by (simp add: balanced_def stored_tuples_def fragments_def)
    then have "balanced s (out1 @ out2 @ out3) s4" using bal1 s4(3) by (blast intro: balanced_trans)
    moreover have "HandleTuple_further c t hasUseCandidate hasNomination nomination s = Some (s4, out1 @ out2 @ out3)"
      using f add True ne sel s2 s4(1)
      by (auto simp: HandleTuple_further_def nominates_def split: if_splits)
    moreover have "handled t hasUseCandidate hasNomination nomination s s4"
      using u True s4 by (auto simp: handled_def nominates_def max_def split: if_splits)
    ultimately show ?thesis using s4(2) by blast
  qed
qed

lemma HandleTuple_post:
  assumes "ice_inv s" "hasNomination \<longrightarrow> tuples s \<noteq> [] \<or> remoteNomination s < nomination"
  shows "\<exists>s' out. HandleTuple t hasUseCandidate hasNomination nomination s = Some (s', out) \<and>
    ice_inv s' \<and> balanced s out s' \<and> handled t hasUseCandidate hasNomination nomination s s'"
proof (cases "tuples s = []")
  case True
  then have "state s = NEW \<or> state s = DISCONNECTED" using assms(1) by (simp add: ice_inv_def)
  moreover have "hasNomination \<longrightarrow> remoteNomination s < nomination" using assms(2) True by simp
  ultimately show ?thesis
    using HandleTuple_first_post [OF assms(1) True] by (auto simp: HandleTuple_def)
next
  case False
  then have "state s = CONNECTED \<or> state s = COMPLETED"
    using assms(1) by (cases "state s") (auto simp: ice_inv_def)
  then show ?thesis
  proof
    assume st: "state s = CONNECTED"
    then have "completes (\<lambda>s. (s\<lparr>state := COMPLETED\<rparr>, [IceCompleted])) s" by (simp add: completes_def)
    from HandleTuple_further_post [OF assms(1) False this] show ?thesis by (simp add: HandleTuple_def st)
  next
    assume st: "state s = COMPLETED"
    then have "completes (\<lambda>s. (s, [])) s" by (simp add: completes_def)
    from HandleTuple_further_post [OF assms(1) False this] show ?thesis by (simp add: HandleTuple_def st)
  qed
qed

section \<open>The other operations\<close>

lemma RemoveTuple_post:
  assumes inv: "ice_inv s"
  shows "\<exists>s' out. RemoveTuple t s = Some (s', out) \<and> ice_inv s' \<and> balanced s out s' \<and>
    tt_hash t \<notin> (tt_hash \<circ> snd) ` set (tuples s')"
proof (cases "find (\<lambda>(a, u). Compare u t) (tuples s)")
  case None
  moreover have "tt_hash t \<notin> (tt_hash \<circ> snd) ` set (tuples s)" using None find_stored(1) by blast
  ultimately show ?thesis using inv by (simp add: RemoveTuple_def balanced_refl)
next
  case (Some au)
  then obtain a u where au: "find (\<lambda>(a, u). Compare u t) (tuples s) = Some (a, u)" by (cases au) auto
  have ok: "tuples_ok (tuples s) (nextAddress s)" using inv by (simp add: ice_inv_def)
  have mem: "(a, u) \<in> set (tuples s)" "Compare u t" using find_stored(2) [OF au] by auto
  define xs where "xs = erase_address a (tuples s)"
  let ?s1 = "s\<lparr>tuples := xs\<rparr>"
  have ok1: "tuples_ok xs (nextAddress s)" unfolding xs_def using ok by (rule erase_address_ok)
  have m: "mset (tuples s) = add_mset (a, u) (mset xs)"
    unfolding xs_def using ok mem(1) by (intro erase_address_mset) (auto simp: tuples_ok_def)
  then have "image_mset snd (mset (tuples s)) = image_mset snd (add_mset (a, u) (mset xs))" by simp
  then have bal: "balanced s [TupleRemoved u] ?s1" by (simp add: balanced_def stored_tuples_def fragments_def)
  have "mset (map (tt_hash \<circ> snd) (tuples s)) = mset (map (tt_hash \<circ> snd) ((a, u) # xs))" using m by simp
  then have "distinct (map (tt_hash \<circ> snd) ((a, u) # xs))"
    using ok by (metis mset_eq_imp_distinct_iff tuples_ok_def)
  then have gone: "tt_hash t \<notin> (tt_hash \<circ> snd) ` set xs" using mem(2) by (auto simp: Compare_def)
  have step: "RemoveTuple t s = (if selectedTuple s = Some a
      then (case xs of (first, t) # rest \<Rightarrow> do {
                (s, out) \<leftarrow> SetSelectedTuple first (?s1\<lparr>selectedTuple := None\<rparr>);
                Some (s, TupleRemoved u # out) }
            | [] \<Rightarrow> Some (?s1\<lparr>selectedTuple := None, state := DISCONNECTED\<rparr>, [TupleRemoved u, IceDisconnected]))
      else Some (?s1, [TupleRemoved u]))"
    unfolding xs_def erase_address_def using au by (simp add: RemoveTuple_def Let_def)
  consider (other) "selectedTuple s \<noteq> Some a" | (last) "selectedTuple s = Some a" "xs = []"
    | (next_one) b v rest where "selectedTuple s = Some a" "xs = (b, v) # rest"
    by (cases xs) auto
  then show ?thesis
  proof cases
    case other
    obtain b where "selectedTuple s = Some b" "b \<in> fst ` set (tuples s)"
      using inv mem(1) by (cases "selectedTuple s") (auto simp: ice_inv_def selection_ok_def)
    with other have "b \<in> fst ` set xs" by (auto simp: xs_def erase_address_set)
    then have "ice_inv ?s1" using inv ok1 \<open>selectedTuple s = Some b\<close> mem(1)
      by (auto simp: ice_inv_def selection_ok_def)
    with other step bal gone show ?thesis by simp
  next
    case last
    then have "ice_inv (?s1\<lparr>selectedTuple := None, state := DISCONNECTED\<rparr>)"
      using inv ok1 by (simp add: ice_inv_def selection_ok_def)
    moreover have "balanced s [TupleRemoved u, IceDisconnected] (?s1\<lparr>selectedTuple := None, state := DISCONNECTED\<rparr>)"
      using bal by (simp add: balanced_def stored_tuples_def fragments_def)
    ultimately show ?thesis using last step gone by simp
  next
    case next_one
    let ?s2 = "?s1\<lparr>selectedTuple := Some b\<rparr>"
    have "ice_inv ?s2" using inv ok1 next_one mem(1) by (auto simp: ice_inv_def selection_ok_def)
    moreover have "balanced s (TupleRemoved u # [SelectedTuple v]) ?s2"
      using bal by (simp add: balanced_def stored_tuples_def fragments_def)
    ultimately show ?thesis using next_one step gone by (simp add: SetSelectedTuple_def)
  qed
qed

lemma ForceSelectedTuple_post:
  assumes inv: "ice_inv s" and valid: "IsValidTuple s t = Some True"
  shows "\<exists>s' out. ForceSelectedTuple t s = Some (s', out) \<and> ice_inv s' \<and> balanced s out s'"
proof -
  have "tuples_ok (tuples s) (nextAddress s)" "selection_ok (tuples s) (selectedTuple s)"
    using inv by (simp_all add: ice_inv_def)
  from HasTuple_total [OF this, of t] valid
  obtain a u where a: "HasTuple s t = Some (Some a)" "(a, u) \<in> set (tuples s)"
    by (auto simp: IsValidTuple_def split: option.splits)
  from SetSelectedTuple_post [OF inv a(2)] obtain out
    where "SetSelectedTuple a s = Some (s\<lparr>selectedTuple := Some a\<rparr>, out)"
      "ice_inv (s\<lparr>selectedTuple := Some a\<rparr>)" "balanced s out (s\<lparr>selectedTuple := Some a\<rparr>)" .
  moreover have "selectedTuple s \<noteq> None" using a(1) by (cases "selectedTuple s") (auto simp: HasTuple_def)
  ultimately show ?thesis using a(1) by (simp add: ForceSelectedTuple_def)
qed

lemma RestartIce_post:
  assumes "ice_inv s" "ufrag \<noteq> []"
  shows "ice_inv (fst (RestartIce ufrag pwd s)) \<and>
    balanced s (snd (RestartIce ufrag pwd s)) (fst (RestartIce ufrag pwd s))"
  using assms by (auto simp: RestartIce_def ice_inv_def balanced_def stored_tuples_def fragments_def)

section \<open>Requests\<close>

text \<open>A packet that \<^verbatim>\<open>Parse\<close> returned for a datagram.\<close>

definition parsed :: "stun_packet \<Rightarrow> bool" where
  "parsed p \<longleftrightarrow> (\<exists>data. length data < 65536 \<and> StunPacket_Parse data = Some (Some p))"

lemma parsed_facts:
  assumes "parsed p"
  shows "length (sp_transactionId p) = 12"
    and "\<exists>a. CheckAuthentication hmacSha1 localUsername localPassword p = Some a"
proof -
  from assms obtain data where "length data < 65536" "StunPacket_Parse data = Some (Some p)"
    by (auto simp: parsed_def)
  with Parse_safe [of data] obtain f where f: "positions_ok data p f" "20 \<le> length data" by auto
  then show "length (sp_transactionId p) = 12" by (simp add: positions_ok_def)
  from f show "\<exists>a. CheckAuthentication hmacSha1 localUsername localPassword p = Some a"
    by (rule CheckAuthentication_total)
qed

definition address_ok :: "transport_tuple \<Rightarrow> bool" where
  "address_ok t \<longleftrightarrow> (case tt_remoteAddress t of AF_INET6 port a \<Rightarrow> length a = 16 | _ \<Rightarrow> True)"

text \<open>Same as before but for the buffer.\<close>

lemma send_response_post:
  assumes "ice_inv s" "writable response" "\<forall>k d. length (hmacSha1 k d) = 20"
  obtains buffer response' where "send_response hmacSha1 response t s
      = Some (s\<lparr>stunSerializeBuffer := buffer\<rparr>, [SendStunPacket response' t])"
    and "length buffer = 65536" "sp_klass response' = sp_klass response" "sp_errorCode response' = sp_errorCode response"
proof -
  have "serialized_size response \<le> length (stunSerializeBuffer s)"
    using serialized_size_bounds [OF assms(2)] assms(1) by (simp add: ice_inv_def)
  note ser = Serialize_total [OF assms(2) this, of hmacSha1, OF assms(3) [rule_format]]
  show thesis
    by (rule that, simp add: send_response_def ser(2), use ser(1) assms(1)
        serialized_size_bounds [OF assms(2)] in \<open>simp_all add: ice_inv_def byte4.enc_length\<close>)
qed

lemma ice_inv_buffer:
  "ice_inv s \<Longrightarrow> length buffer = 65536 \<Longrightarrow> ice_inv (s\<lparr>stunSerializeBuffer := buffer\<rparr>)"
  "balanced s [SendStunPacket r t] (s\<lparr>stunSerializeBuffer := buffer\<rparr>)"
  by (simp_all add: ice_inv_def balanced_same)

lemma reply_error_post:
  assumes "ice_inv s" "parsed p" "sp_klass p = REQUEST" "\<forall>k d. length (hmacSha1 k d) = 20"
  obtains buffer response where "reply_error hmacSha1 p code t s
      = Some (s\<lparr>stunSerializeBuffer := buffer\<rparr>, [SendStunPacket response t])"
    and "length buffer = 65536" "sp_klass response = ERROR_RESPONSE" "sp_errorCode response = code"
proof -
  let ?r = "(StunPacket_new ERROR_RESPONSE (sp_method p) (sp_transactionId p) [] 0)\<lparr>sp_errorCode := code\<rparr>"
  have "writable ?r" using parsed_facts(1) [OF assms(2)] by (simp add: writable_def StunPacket_new_def)
  from send_response_post [where t = t, OF assms(1) this assms(4)] obtain buffer response where
    "send_response hmacSha1 ?r t s = Some (s\<lparr>stunSerializeBuffer := buffer\<rparr>, [SendStunPacket response t])"
    "length buffer = 65536" "sp_klass response = sp_klass ?r" "sp_errorCode response = sp_errorCode ?r" .
  then show thesis
    using assms(3) by (intro that) (simp_all add: reply_error_def CreateErrorResponse_def StunPacket_new_def)
qed

text \<open>The packet carries the current credentials or, while there are any, the old ones.\<close>

definition authenticated :: "(bytes \<Rightarrow> bytes \<Rightarrow> bytes) \<Rightarrow> stun_packet \<Rightarrow> ice_server \<Rightarrow> bool" where
  "authenticated hmacSha1 p s \<longleftrightarrow>
     CheckAuthentication hmacSha1 (usernameFragment s) (password s) p = Some AUTH_OK \<or>
     oldUsernameFragment s \<noteq> [] \<and> oldPassword s \<noteq> [] \<and>
       CheckAuthentication hmacSha1 (oldUsernameFragment s) (oldPassword s) p = Some AUTH_OK"

lemma authenticate_request_post:
  assumes "ice_inv s" "parsed p"
  obtains (error) code where "authenticate_request hmacSha1 p s = Some (Inl code)" "\<not> authenticated hmacSha1 p s"
  | (accepted) s' out where "authenticate_request hmacSha1 p s = Some (Inr (s', out))"
      "ice_inv s'" "balanced s out s'" "tuples s' = tuples s" "state s' = state s"
      "selectedTuple s' = selectedTuple s" "remoteNomination s' = remoteNomination s"
      "authenticated hmacSha1 p s"
      "set out \<subseteq> range LocalUsernameFragmentRemoved"
proof -
  obtain a b where a: "CheckAuthentication hmacSha1 (usernameFragment s) (password s) p = Some a"
    and b: "CheckAuthentication hmacSha1 (oldUsernameFragment s) (oldPassword s) p = Some b"
    using parsed_facts(2) [OF assms(2)] by blast
  show thesis
  proof (cases "a = AUTH_OK")
    case True
    show thesis
    proof (rule accepted)
      show "authenticate_request hmacSha1 p s = Some (Inr
          (if oldUsernameFragment s \<noteq> [] \<and> oldPassword s \<noteq> []
           then s\<lparr>oldUsernameFragment := [], oldPassword := []\<rparr> else s,
           if oldUsernameFragment s \<noteq> [] \<and> oldPassword s \<noteq> []
           then [LocalUsernameFragmentRemoved (oldUsernameFragment s)] else []))"
        using True a by (simp add: authenticate_request_def)
    qed (use assms(1) a True in \<open>auto simp: authenticated_def ice_inv_def balanced_def stored_tuples_def fragments_def\<close>)
  next
    case False
    show thesis
    proof (cases "a = UNAUTHORIZED \<and> oldUsernameFragment s \<noteq> [] \<and> oldPassword s \<noteq> [] \<and> b = AUTH_OK")
      case True
      show thesis
        by (rule accepted [of s "[]"])
          (use True a b assms(1) in \<open>simp_all add: authenticate_request_def authenticated_def balanced_refl\<close>)
    next
      case no: False
      have "b \<noteq> AUTH_OK" if "a = BAD_REQUEST"
        using a b that by (auto simp: CheckAuthentication_def Let_def split: if_splits option.splits bind_splits)
      with False no a b have "\<not> authenticated hmacSha1 p s" by (cases a) (auto simp: authenticated_def)
      with False no a b show thesis
        by (cases a) (auto simp: authenticate_request_def intro: error split: if_splits)
    qed
  qed
qed

definition unchanged :: "ice_server \<Rightarrow> ice_server \<Rightarrow> bool" where
  "unchanged s s' \<longleftrightarrow> tuples s' = tuples s \<and> state s' = state s \<and> selectedTuple s' = selectedTuple s \<and>
     remoteNomination s' = remoteNomination s"

text \<open>The nomination that would leave the first tuple unselected.\<close>

definition nomination_ok :: "stun_packet \<Rightarrow> ice_server \<Rightarrow> bool" where
  "nomination_ok p s \<longleftrightarrow>
     (sp_hasNomination p \<longrightarrow> tuples s \<noteq> [] \<or> remoteNomination s < sp_nomination p)"

lemma process_request_continues:
  assumes p: "parsed p" "sp_klass p = REQUEST" and t: "address_ok t"
    and hmac: "\<forall>k d. length (hmacSha1 k d) = 20"
    and complete: "sp_messageIntegrity p = Some mi" "sp_priority p \<noteq> 0" "sp_username p \<noteq> []" "sp_iceControlled p = 0"
    and auth: "authenticate_request hmacSha1 p s = Some (Inr (s1, out1))" and inv1: "ice_inv s1"
  obtains buffer response' where "length buffer = 65536" "sp_klass response' = SUCCESS_RESPONSE"
    and "process_request hmacSha1 p t s =
      map_option (\<lambda>(s3, out3). (s3, out1 @ [SendStunPacket response' t] @ out3))
        (HandleTuple t (sp_hasUseCandidate p) (sp_hasNomination p)
          (if sp_hasNomination p then sp_nomination p else 0) (s1\<lparr>stunSerializeBuffer := buffer\<rparr>))"
proof -
  define response where "response = Authenticate (if oldPassword s1 = [] then password s1 else oldPassword s1)
    ((StunPacket_new SUCCESS_RESPONSE (sp_method p) (sp_transactionId p) [] 0)
       \<lparr>sp_xorMappedAddress := Some (tt_remoteAddress t)\<rparr>)"
  have w: "writable response" "sp_klass response = SUCCESS_RESPONSE"
    using t parsed_facts(1) [OF p(1)]
    by (simp_all add: response_def writable_def StunPacket_new_def Authenticate_def address_ok_def)
  from send_response_post [where t = t, OF inv1 w(1) hmac] obtain buffer response' where
    r: "send_response hmacSha1 response t s1
      = Some (s1\<lparr>stunSerializeBuffer := buffer\<rparr>, [SendStunPacket response' t])" "length buffer = 65536"
      "sp_klass response' = sp_klass response" .
  show thesis
    by (rule that [OF r(2)], use r(3) w(2) in simp, use auth complete p r(1) in
      \<open>auto simp: process_request_def CreateSuccessResponse_def response_def Let_def map_option_case split: option.splits bind_splits\<close>)
qed

lemma process_request_handled:
  assumes p: "parsed p" "sp_klass p = REQUEST" and t: "address_ok t"
    and hmac: "\<forall>k d. length (hmacSha1 k d) = 20" and nom: "nomination_ok p s"
    and complete: "sp_messageIntegrity p = Some mi" "sp_priority p \<noteq> 0" "sp_username p \<noteq> []" "sp_iceControlled p = 0"
    and auth: "authenticate_request hmacSha1 p s = Some (Inr (s1, out1))"
    and inv1: "ice_inv s1" and bal1: "balanced s out1 s1"
    and same: "tuples s1 = tuples s" "state s1 = state s" "selectedTuple s1 = selectedTuple s"
      "remoteNomination s1 = remoteNomination s"
  shows "\<exists>s' out. process_request hmacSha1 p t s = Some (s', out) \<and> ice_inv s' \<and> balanced s out s' \<and>
    handled t (sp_hasUseCandidate p) (sp_hasNomination p) (sp_nomination p) s s' \<and>
    (\<exists>response. SendStunPacket response t \<in> set out \<and> sp_klass response = SUCCESS_RESPONSE)"
proof -
  let ?nom = "if sp_hasNomination p then sp_nomination p else 0"
  obtain buffer response' where r: "length buffer = 65536" "sp_klass response' = SUCCESS_RESPONSE"
    "process_request hmacSha1 p t s =
      map_option (\<lambda>(s3, out3). (s3, out1 @ [SendStunPacket response' t] @ out3))
        (HandleTuple t (sp_hasUseCandidate p) (sp_hasNomination p) ?nom (s1\<lparr>stunSerializeBuffer := buffer\<rparr>))"
    by (rule process_request_continues [OF p t hmac complete auth inv1]) (rule that; assumption)
  let ?s2 = "s1\<lparr>stunSerializeBuffer := buffer\<rparr>"
  have inv2: "ice_inv ?s2" using inv1 r(1) by (rule ice_inv_buffer)
  have "sp_hasNomination p \<longrightarrow> tuples ?s2 \<noteq> [] \<or> remoteNomination ?s2 < ?nom"
    using nom by (auto simp: nomination_ok_def same)
  from HandleTuple_post [OF inv2 this, of t "sp_hasUseCandidate p"] obtain s3 out3 where
    h: "HandleTuple t (sp_hasUseCandidate p) (sp_hasNomination p) ?nom ?s2 = Some (s3, out3)"
      "ice_inv s3" "balanced ?s2 out3 s3"
      "handled t (sp_hasUseCandidate p) (sp_hasNomination p) ?nom ?s2 s3" by blast
  have "balanced s (out1 @ [SendStunPacket response' t] @ out3) s3"
    using bal1 ice_inv_buffer(2) h(3) by (blast intro: balanced_trans)
  moreover have "handled t (sp_hasUseCandidate p) (sp_hasNomination p) (sp_nomination p) s s3"
    by (rule handled_cong [THEN iffD2, OF _ _ _ _ h(4)]) (simp_all add: same)
  moreover have "process_request hmacSha1 p t s = Some (s3, out1 @ [SendStunPacket response' t] @ out3)"
    using r(3) h(1) by simp
  ultimately show ?thesis using h(2) r(2) by (intro exI [of _ s3] exI conjI) auto
qed

text \<open>The case that \<^const>\<open>nomination_ok\<close> excludes: the tuple is stored and that is all.\<close>

lemma process_request_stale:
  assumes p: "parsed p" "sp_klass p = REQUEST" and t: "address_ok t"
    and hmac: "\<forall>k d. length (hmacSha1 k d) = 20" and nom: "\<not> nomination_ok p s"
    and complete: "sp_messageIntegrity p = Some mi" "sp_priority p \<noteq> 0" "sp_username p \<noteq> []" "sp_iceControlled p = 0"
    and auth: "authenticate_request hmacSha1 p s = Some (Inr (s1, out1))" and inv1: "ice_inv s1"
    and same: "tuples s1 = tuples s" "state s1 = state s" "selectedTuple s1 = selectedTuple s"
      "remoteNomination s1 = remoteNomination s"
  shows "\<exists>s' out a. process_request hmacSha1 p t s = Some (s', out) \<and> (a, t) \<in> set (tuples s') \<and>
    selectedTuple s' = selectedTuple s \<and> state s' = state s \<and>
    (\<exists>response. SendStunPacket response t \<in> set out \<and> sp_klass response = SUCCESS_RESPONSE)"
proof -
  let ?nom = "if sp_hasNomination p then sp_nomination p else 0"
  obtain buffer response' where r: "length buffer = 65536" "sp_klass response' = SUCCESS_RESPONSE"
    "process_request hmacSha1 p t s =
      map_option (\<lambda>(s3, out3). (s3, out1 @ [SendStunPacket response' t] @ out3))
        (HandleTuple t (sp_hasUseCandidate p) (sp_hasNomination p) ?nom (s1\<lparr>stunSerializeBuffer := buffer\<rparr>))"
    by (rule process_request_continues [OF p t hmac complete auth inv1]) (rule that; assumption)
  let ?s2 = "s1\<lparr>stunSerializeBuffer := buffer\<rparr>"
  from nom have n: "tuples s1 = []" "sp_hasNomination p" "\<not> remoteNomination s1 < sp_nomination p"
    by (auto simp: nomination_ok_def same)
  moreover from inv1 n(1) have "selectedTuple s1 = None" "state s1 = NEW \<or> state s1 = DISCONNECTED"
    by (auto simp: ice_inv_def selection_ok_def split: option.splits)
  ultimately have "HandleTuple t (sp_hasUseCandidate p) (sp_hasNomination p) ?nom ?s2
      = Some (?s2\<lparr>tuples := [(nextAddress s1, t)], nextAddress := nextAddress s1 + 1\<rparr>, [TupleAdded t])"
    by (auto simp: HandleTuple_def HandleTuple_first_def AddTuple_def Let_def MaxTuples_def not_less)
  with r(2,3) show ?thesis by (auto simp: same)
qed

lemma process_request_post:
  assumes inv: "ice_inv s" and p: "parsed p" "sp_klass p = REQUEST" and t: "address_ok t"
    and hmac: "\<forall>k d. length (hmacSha1 k d) = 20" and nom: "authenticated hmacSha1 p s \<Longrightarrow> nomination_ok p s"
  obtains (rejected) s' out response where "process_request hmacSha1 p t s = Some (s', out @ [SendStunPacket response t])"
      "ice_inv s'" "balanced s (out @ [SendStunPacket response t]) s'" "unchanged s s'"
      "sp_klass response = ERROR_RESPONSE" "set out \<subseteq> range LocalUsernameFragmentRemoved"
  | (accepted) s' out where "process_request hmacSha1 p t s = Some (s', out)" "ice_inv s'" "balanced s out s'"
      "handled t (sp_hasUseCandidate p) (sp_hasNomination p) (sp_nomination p) s s'"
      "authenticated hmacSha1 p s"
proof (cases "sp_messageIntegrity p = None \<or> sp_priority p = 0 \<or> sp_username p = []")
  case True
  obtain buffer response where r: "reply_error hmacSha1 p 400 t s
      = Some (s\<lparr>stunSerializeBuffer := buffer\<rparr>, [SendStunPacket response t])"
    "length buffer = 65536" "sp_klass response = ERROR_RESPONSE"
    by (rule reply_error_post [OF inv p hmac]) (rule that; assumption)
  show thesis
    by (rule rejected [of "s\<lparr>stunSerializeBuffer := buffer\<rparr>" "[]" response])
      (use True r inv in \<open>simp_all add: process_request_def ice_inv_buffer unchanged_def\<close>)
next
  case False
  then obtain mi where complete: "sp_messageIntegrity p = Some mi" "sp_priority p \<noteq> 0" "sp_username p \<noteq> []"
    by auto
  show thesis
    using inv p(1)
  proof (cases rule: authenticate_request_post [where ?hmacSha1.0 = hmacSha1, consumes 2])
    case (error code)
    obtain buffer response where r: "reply_error hmacSha1 p code t s
        = Some (s\<lparr>stunSerializeBuffer := buffer\<rparr>, [SendStunPacket response t])"
      "length buffer = 65536" "sp_klass response = ERROR_RESPONSE"
      by (rule reply_error_post [OF inv p hmac]) (rule that; assumption)
    show thesis
      by (rule rejected [of "s\<lparr>stunSerializeBuffer := buffer\<rparr>" "[]" response])
        (use error complete r inv in \<open>simp_all add: process_request_def ice_inv_buffer unchanged_def\<close>)
  next
    case auth: (accepted s1 out1)
    have a: "authenticated hmacSha1 p s" by (fact auth)
    have same: "tuples s1 = tuples s" "state s1 = state s" "selectedTuple s1 = selectedTuple s"
      "remoteNomination s1 = remoteNomination s" by (fact auth)+
    show thesis
    proof (cases "sp_iceControlled p = 0")
      case False
      obtain buffer response where r: "reply_error hmacSha1 p 487 t s1
          = Some (s1\<lparr>stunSerializeBuffer := buffer\<rparr>, [SendStunPacket response t])"
        "length buffer = 65536" "sp_klass response = ERROR_RESPONSE"
        by (rule reply_error_post [OF auth(2) p hmac]) (rule that; assumption)
      show thesis
        by (rule rejected [of "s1\<lparr>stunSerializeBuffer := buffer\<rparr>" out1 response])
          (use auth complete False r in \<open>simp_all add: process_request_def ice_inv_buffer unchanged_def
             balanced_trans [OF auth(3) ice_inv_buffer(2)]\<close>)
    next
      case True
      from process_request_handled [OF p t hmac nom [OF a] complete True auth(1-7)] obtain s3 out where
        "process_request hmacSha1 p t s = Some (s3, out)" "ice_inv s3" "balanced s out s3"
        "handled t (sp_hasUseCandidate p) (sp_hasNomination p) (sp_nomination p) s s3" by blast
      then show thesis using a by (intro accepted)
    qed
  qed
qed

lemma ProcessStunPacket_post:
  assumes inv: "ice_inv s" and p: "parsed p" and t: "address_ok t"
    and hmac: "\<forall>k d. length (hmacSha1 k d) = 20" and nom: "authenticated hmacSha1 p s \<Longrightarrow> nomination_ok p s"
  shows "\<exists>s' out. ProcessStunPacket hmacSha1 p t s = Some (s', out) \<and> ice_inv s' \<and> balanced s out s' \<and>
    (unchanged s s' \<or>
     authenticated hmacSha1 p s \<and>
     handled t (sp_hasUseCandidate p) (sp_hasNomination p) (sp_nomination p) s s')"
proof (cases "sp_klass p = REQUEST")
  case False
  then have "ProcessStunPacket hmacSha1 p t s = Some (s, [])"
    by (cases "sp_klass p") (simp_all add: ProcessStunPacket_def)
  then show ?thesis using inv by (simp add: balanced_refl unchanged_def)
next
  case True
  show ?thesis
  proof (cases "sp_method p = BINDING \<and> sp_hasFingerprint p")
    case False
    obtain buffer response where r: "reply_error hmacSha1 p 400 t s
        = Some (s\<lparr>stunSerializeBuffer := buffer\<rparr>, [SendStunPacket response t])" "length buffer = 65536"
      by (rule reply_error_post [OF inv p True hmac]) (rule that; assumption)
    moreover have "ProcessStunPacket hmacSha1 p t s = reply_error hmacSha1 p 400 t s"
      using False True by (auto simp: ProcessStunPacket_def)
    ultimately show ?thesis using inv by (simp add: ice_inv_buffer unchanged_def)
  next
    case ok: True
    have "ProcessStunPacket hmacSha1 p t s = process_request hmacSha1 p t s"
      using True ok by (simp add: ProcessStunPacket_def)
    note eq = this
    show ?thesis
      by (rule process_request_post [OF inv p True t hmac nom]) (auto simp: eq)
  qed
qed

section \<open>Runs\<close>

text \<open>
  What the environment does: packets come out of \<^verbatim>\<open>Parse\<close>, the selection is only forced to a
  tuple \<^verbatim>\<open>IsValidTuple\<close> accepts (as \<^verbatim>\<open>WebRtcTransport\<close> does), a restart has a user name fragment. The
  last condition on a packet, for a peer with the credentials, excludes what
  \<^verbatim>\<open>IceServer_stale_nomination\<close> below shows.
\<close>

fun ice_ok :: "(bytes \<Rightarrow> bytes \<Rightarrow> bytes) \<Rightarrow> ice_server \<Rightarrow> ice_event \<Rightarrow> bool" where
  "ice_ok hmacSha1 s (StunPacketReceived p t) =
     (parsed p \<and> address_ok t \<and> (authenticated hmacSha1 p s \<longrightarrow> nomination_ok p s))"
| "ice_ok hmacSha1 s (TupleClosed t) = True"
| "ice_ok hmacSha1 s (SelectionForced t) = (IsValidTuple s t = Some True)"
| "ice_ok hmacSha1 s (IceRestarted ufrag pwd) = (ufrag \<noteq> [])"

lemma ice_step_safe:
  assumes "\<forall>k d. length (hmacSha1 k d) = 20" "ice_inv s" "ice_ok hmacSha1 s e"
  shows "\<exists>s' out. ice_step hmacSha1 s e = Some (s', out) \<and> ice_inv s' \<and> balanced s out s'"
proof (cases e)
  case (StunPacketReceived p t)
  then show ?thesis using ProcessStunPacket_post [OF assms(2) _ _ assms(1), of p t] assms(3) by auto
next
  case (TupleClosed t)
  then show ?thesis using RemoveTuple_post [OF assms(2), of t] by auto
next
  case (SelectionForced t)
  then show ?thesis using ForceSelectedTuple_post [OF assms(2), of t] assms(3) by auto
next
  case (IceRestarted ufrag pwd)
  then show ?thesis
    using RestartIce_post [OF assms(2), of ufrag pwd] assms(3) by (cases "RestartIce ufrag pwd s") auto
qed

text \<open>
  The contract of the machine needs the length of an HMAC; it is stated for the function cut to
  20 bytes and filled up, which is the function itself where it has that length.
\<close>

definition sized_hmac :: "(bytes \<Rightarrow> bytes \<Rightarrow> bytes) \<Rightarrow> bytes \<Rightarrow> bytes \<Rightarrow> bytes" where
  "sized_hmac hmacSha1 k d = take 20 (hmacSha1 k d @ replicate 20 0)"

lemma sized_hmac_length: "\<forall>k d. length (sized_hmac hmacSha1 k d) = 20"
  by (auto simp: sized_hmac_def min_def)

lemma sized_hmac_id: "\<forall>k d. length (hmacSha1 k d) = 20 \<Longrightarrow> sized_hmac hmacSha1 = hmacSha1"
  by (simp add: sized_hmac_def fun_eq_iff)

interpretation ice_machine: accounted_machine "ice_step (sized_hmac hmacSha1)" ice_inv "ice_ok (sized_hmac hmacSha1)"
  "\<lambda>s es outs s'. balanced s outs s'" for hmacSha1
proof (unfold_locales, goal_cases)
  case (1 s e)
  then show ?case using ice_step_safe [OF sized_hmac_length] by blast
next
  case (2 s)
  show ?case by (rule balanced_refl)
next
  case (3 s e s' out)
  then show ?case using ice_step_safe [of "sized_hmac hmacSha1" s e, OF sized_hmac_length] by auto
next
  case (4 s es o1 s' fs o2 s'')
  then show ?case by (rule balanced_trans)
qed

lemma IceServer_new_inv: "ufrag \<noteq> [] \<Longrightarrow> length buffer = 65536 \<Longrightarrow> ice_inv (fst (IceServer_new buffer ufrag pwd))"
  by (simp add: ice_inv_def IceServer_new_def tuples_ok_def selection_ok_def)

section \<open>Properties\<close>

text \<open>
  C1: The ICE server never fails but for one input. Over any sequence of parsed STUN packets, closed
  tuples, forced selections of valid tuples and restarts, no assertion fails and no freed tuple is
  used; there are at most eight tuples, all different; one of them is selected exactly if
  there is one; and the state is new or disconnected exactly if there is none. The one input that is
  excluded: an authenticated packet with a nomination that is not higher than the last one,
  while there is no tuple (that one does fail, see \<^verbatim>\<open>IceServer_stale_nomination\<close>). A peer without the
  credentials may send anything.
\<close>

theorem IceServer_run_safe:
  assumes "\<forall>k d. length (hmacSha1 k d) = 20" "ufrag \<noteq> []" "length buffer = 65536"
    and "ok_run (ice_step hmacSha1) (ice_ok hmacSha1) (fst (IceServer_new buffer ufrag pwd)) es"
  shows "\<exists>s outs. run_steps (ice_step hmacSha1) (fst (IceServer_new buffer ufrag pwd)) es = Some (s, outs) \<and>
    length (tuples s) \<le> 8 \<and> distinct (map (tt_hash \<circ> snd) (tuples s)) \<and>
    (case selectedTuple s of None \<Rightarrow> tuples s = [] | Some a \<Rightarrow> a \<in> fst ` set (tuples s)) \<and>
    (tuples s = [] \<longleftrightarrow> state s = NEW \<or> state s = DISCONNECTED)"
proof -
  have "\<exists>s outs. run_steps (ice_step hmacSha1) (fst (IceServer_new buffer ufrag pwd)) es = Some (s, outs) \<and> ice_inv s"
    using ice_machine.run_safe [OF IceServer_new_inv [OF assms(2,3)], of hmacSha1 pwd es] assms(4)
    unfolding sized_hmac_id [OF assms(1)] .
  then show ?thesis by (auto simp: ice_inv_def tuples_ok_def selection_ok_def MaxTuples_def)
qed

definition example_server :: ice_server where
  "example_server = fst (IceServer_new (replicate 65536 0) [0x61] [1, 2, 3])"

definition example_tuple :: transport_tuple where
  "example_tuple = TransportTuple_new UDP (AF_INET 4000 0x7F000001)"

lemma example_server_inv: "ice_inv example_server"
  unfolding example_server_def by (rule IceServer_new_inv) simp_all

lemma example_address_ok: "address_ok example_tuple"
  by (simp add: address_ok_def example_tuple_def TransportTuple_new_def)

text \<open>The example request of \<^verbatim>\<open>StunRoundtrip\<close>, as it arrives.\<close>

lemma example_arrives:
  obtains p mi where "parsed p" "sp_klass p = REQUEST" "sp_method p = BINDING" "sp_hasFingerprint p"
    "sp_messageIntegrity p = Some mi" "sp_priority p = 7" "sp_username p = [0x61, 0x3A, 0x62]"
    "sp_iceControlled p = 0" "\<not> sp_hasNomination p" "\<not> sp_hasUseCandidate p"
    "CheckAuthentication example_hmac [0x61] [1, 2, 3] p = Some AUTH_OK"
    "CheckAuthentication example_hmac [0x62] [1, 2, 3] p = Some UNAUTHORIZED"
proof -
  note ex = example_request_sendable(1)
  have buf: "serialized_size example_request \<le> length (replicate 100 (0 :: u8))"
    using example_request_sendable(2) by simp
  have add: "addMessageIntegrity example_request"
    by (simp add: addMessageIntegrity_def example_request_def StunPacket_new_def)
  obtain q data where q: "StunPacket_Serialize example_hmac (replicate 100 0) example_request = Some q"
    "StunPacket_Parse (take (sp_size q) (sp_data q)) = Some (Some (received q))"
    and qp: "q = example_request\<lparr>sp_data := data, sp_size := serialized_size example_request,
               sp_messageIntegrity := (if addMessageIntegrity example_request
                  then Some (20 + length (serialized_attributes (replicate 100 0) example_request) + 4) else None),
               sp_hasFingerprint := True\<rparr>"
    by (rule Parse_serialized [OF ex buf, of example_hmac, OF example_hmac_length]) (rule that; assumption)
  have "sp_size q = serialized_size example_request" unfolding qp by simp
  then have "parsed (received q)"
    unfolding parsed_def using q(2) serialized_size_bounds(2) [OF sendable_writable [OF ex]]
    by (intro exI [of _ "take (sp_size q) (sp_data q)"]) auto
  moreover have "CheckAuthentication example_hmac [0x61] [1, 2, 3] (received q) = Some AUTH_OK"
    using CheckAuthentication_received [OF ex buf example_hmac_length _ _ _ q(1), of "[0x61]" "[0x62]" "[1, 2, 3]"]
    by (simp add: example_request_def StunPacket_new_def)
  moreover have "CheckAuthentication example_hmac [0x62] [1, 2, 3] (received q) = Some UNAUTHORIZED"
    unfolding qp using add
    by (simp add: CheckAuthentication_def received_def with_attributes_def example_request_def StunPacket_new_def Let_def)
  moreover have "sp_messageIntegrity (received q)
      = Some (20 + length (serialized_attributes (replicate 100 0) example_request) + 4)"
    unfolding qp using add by (simp add: received_def)
  moreover have "sp_klass (received q) = REQUEST" "sp_method (received q) = BINDING" "sp_hasFingerprint (received q)"
    "sp_priority (received q) = 7" "sp_username (received q) = [0x61, 0x3A, 0x62]"
    "sp_iceControlled (received q) = 0" "\<not> sp_hasNomination (received q)" "\<not> sp_hasUseCandidate (received q)"
    unfolding qp
    by (simp_all add: received_def with_attributes_def example_request_def StunPacket_new_def Let_def)
  ultimately show thesis by (intro that)
qed

theorem IceServer_run_safe_witness:
  "\<exists>p s outs. CheckAuthentication example_hmac [0x61] [1, 2, 3] p = Some AUTH_OK \<and>
     run_steps (ice_step example_hmac) (fst (IceServer_new (replicate 65536 0) [0x61] [1, 2, 3]))
       [StunPacketReceived p example_tuple, TupleClosed example_tuple] = Some (s, outs)"
proof -
  obtain p mi where p: "parsed p" "\<not> sp_hasNomination p"
    "CheckAuthentication example_hmac [0x61] [1, 2, 3] p = Some AUTH_OK"
    by (rule example_arrives) (rule that; assumption)
  have "ok_run (ice_step example_hmac) (ice_ok example_hmac) (fst (IceServer_new (replicate 65536 0) [0x61] [1, 2, 3]))
       [StunPacketReceived p example_tuple, TupleClosed example_tuple]"
    using p example_address_ok by (simp add: nomination_ok_def split: option.split prod.split)
  then have "\<exists>s outs. run_steps (ice_step example_hmac) (fst (IceServer_new (replicate 65536 0) [0x61] [1, 2, 3]))
       [StunPacketReceived p example_tuple, TupleClosed example_tuple] = Some (s, outs)"
    using IceServer_run_safe [of example_hmac "[0x61]" "replicate 65536 0" "[1, 2, 3]"
        "[StunPacketReceived p example_tuple, TupleClosed example_tuple]"]
      example_hmac_length
    by (simp del: run_steps.simps ok_run.simps) blast
  with p(3) show ?thesis by blast
qed

text \<open>
  C13: The listener can keep its tables exactly. From the creation of an ICE server over any such
  run (without an authenticated packet that carries a stale nomination while there is no tuple) to
  its destruction, the tuples and the user name fragments announced as removed are those
  announced as added, each as often.
\<close>

theorem IceServer_balance:
  assumes "\<forall>k d. length (hmacSha1 k d) = 20" "ufrag \<noteq> []" "length buffer = 65536"
    and "ok_run (ice_step hmacSha1) (ice_ok hmacSha1) (fst (IceServer_new buffer ufrag pwd)) es"
    and "run_steps (ice_step hmacSha1) (fst (IceServer_new buffer ufrag pwd)) es = Some (s, outs)"
  shows "total tuple_in outs = total tuple_out (outs @ IceServer_delete s) \<and>
    total fragment_in (snd (IceServer_new buffer ufrag pwd) @ outs)
      = total fragment_out (outs @ IceServer_delete s)"
proof -
  have "balanced (fst (IceServer_new buffer ufrag pwd)) outs s"
    using ice_machine.run_account [OF IceServer_new_inv [OF assms(2,3)], of hmacSha1 pwd es s outs] assms(4,5)
    unfolding sized_hmac_id [OF assms(1)] by blast
  moreover have "total tuple_out (map (TupleRemoved \<circ> snd) xs) = mset (map snd xs)"
    "total fragment_out (map (TupleRemoved \<circ> snd) xs) = {#}" for xs :: "(nat \<times> transport_tuple) list"
    by (induction xs) simp_all
  ultimately show ?thesis
    by (simp add: balanced_def IceServer_new_def IceServer_delete_def stored_tuples_def fragments_def)
qed

theorem IceServer_balance_witness:
  "\<exists>s outs. run_steps (ice_step example_hmac) (fst (IceServer_new (replicate 65536 0) [0x61] [1, 2, 3]))
      [IceRestarted [0x62] [4], TupleClosed example_tuple] = Some (s, outs) \<and>
    total fragment_out (outs @ IceServer_delete s) = {#[0x61], [0x62]#}"
proof -
  let ?s0 = "fst (IceServer_new (replicate 65536 0) [0x61] [1, 2, 3])"
  let ?es = "[IceRestarted [0x62] [4], TupleClosed example_tuple]"
  have run: "run_steps (ice_step example_hmac) ?s0 ?es
      = Some (fst (RestartIce [0x62] [4] ?s0), [LocalUsernameFragmentAdded [0x62]])"
    by (simp add: RestartIce_def IceServer_new_def RemoveTuple_def)
  moreover have "ok_run (ice_step example_hmac) (ice_ok example_hmac) ?s0 ?es" by (simp split: option.split prod.split)
  ultimately show ?thesis
    using IceServer_balance [of example_hmac "[0x61]" "replicate 65536 0" "[1, 2, 3]" ?es] example_hmac_length
    by (simp add: IceServer_new_def)
qed

text \<open>
  C7: Without the credentials a peer changes nothing. A STUN packet that authenticates neither with
  the current credentials nor with the old ones, where old ones are only those of a restart that is not
  over yet (not the empty strings of a server without any), leaves the tuples, the selected
  one, the state and the nomination as they are.
\<close>

theorem IceServer_unauthenticated:
  assumes "\<forall>k d. length (hmacSha1 k d) = 20" "ice_inv s" "parsed p" "address_ok t"
    and "CheckAuthentication hmacSha1 (usernameFragment s) (password s) p \<noteq> Some AUTH_OK"
    and "\<not> (oldUsernameFragment s \<noteq> [] \<and> oldPassword s \<noteq> [] \<and>
           CheckAuthentication hmacSha1 (oldUsernameFragment s) (oldPassword s) p = Some AUTH_OK)"
  shows "\<exists>s' out. ProcessStunPacket hmacSha1 p t s = Some (s', out) \<and> tuples s' = tuples s \<and>
    selectedTuple s' = selectedTuple s \<and> state s' = state s \<and> remoteNomination s' = remoteNomination s"
proof -
  have "\<not> authenticated hmacSha1 p s" using assms(5,6) by (auto simp: authenticated_def)
  with ProcessStunPacket_post [OF assms(2-4,1)] show ?thesis by (auto simp: unchanged_def)
qed

theorem IceServer_unauthenticated_witness:
  "\<exists>p s' out. ProcessStunPacket example_hmac p example_tuple
      (fst (IceServer_new (replicate 65536 0) [0x62] [1, 2, 3])) = Some (s', out) \<and> tuples s' = []"
proof -
  obtain p mi where p: "parsed p" "CheckAuthentication example_hmac [0x62] [1, 2, 3] p = Some UNAUTHORIZED"
    "sp_klass p = REQUEST" "sp_messageIntegrity p = Some mi" "sp_username p = [0x61, 0x3A, 0x62]"
    by (rule example_arrives) (rule that; assumption)
  let ?s = "fst (IceServer_new (replicate 65536 0) [0x62] [1, 2, 3])"
  have "ice_inv ?s" by (rule IceServer_new_inv) simp_all
  then show ?thesis
    using IceServer_unauthenticated [of example_hmac ?s p example_tuple] p example_hmac_length example_address_ok
    by (auto simp: IceServer_new_def)
qed



text \<open>
  C21: The exception in the safety of a run is real. Without a tuple, a request whose nomination is
  not higher than the last one (for a new server: a nomination of zero) stores its tuple but
  selects none and leaves the state; the next valid request of any kind then fails the assertion
  that there are no tuples, which ends the worker process.
\<close>

theorem IceServer_stale_nomination:
  assumes "ice_inv s" "tuples s = []" "nomination \<le> remoteNomination s"
  shows "\<exists>s' out. HandleTuple t hasUseCandidate True nomination s = Some (s', out) \<and>
    (\<forall>t' hasUseCandidate' hasNomination' nomination'.
       HandleTuple t' hasUseCandidate' hasNomination' nomination' s' = None)"
proof -
  have "selectedTuple s = None" "state s = NEW \<or> state s = DISCONNECTED"
    using assms(1,2) by (auto simp: ice_inv_def selection_ok_def split: option.splits)
  then show ?thesis
    using assms(2,3)
    by (auto simp: HandleTuple_def HandleTuple_first_def AddTuple_def Let_def MaxTuples_def not_less)
qed

theorem IceServer_stale_nomination_witness:
  "\<exists>s' out. HandleTuple example_tuple True True 0 example_server = Some (s', out) \<and>
    HandleTuple example_tuple False False 0 s' = None"
  using IceServer_stale_nomination [OF example_server_inv, of 0 example_tuple True]
  by (auto simp: example_server_def IceServer_new_def)

end
