(* ===== verification/RateCalculator.thy ===== *)
theory RateCalculator
  imports Prelude "HOL-Library.Monad_Syntax"
begin

text \<open>
  \<^verbatim>\<open>RTC::RateCalculator\<close> and \<^verbatim>\<open>RTC::RtpDataCounter\<close> (\<^verbatim>\<open>worker/include/RTC/RateCalculator.hpp\<close>,
  \<^verbatim>\<open>worker/src/RTC/RateCalculator.cpp\<close>): the bytes seen in a sliding time window, kept in a circular
  buffer of items that each collect a few milliseconds.

  Times are milliseconds as natural numbers below \<open>2^64\<close>, and differences of times wrap as the code's
  do; counts are 64-bit words; the indices are signed because \<open>-1\<close> means none. The last
  step of \<^verbatim>\<open>GetRate\<close>, which scales a count by a \<^verbatim>\<open>float\<close> and truncates it, is the parameter \<open>toRate\<close>.
  \<open>None\<close> is the failed assertion, an access outside the buffer or a loop that does not end.
\<close>

section \<open>Definitions\<close>

record buffer_item =
  bi_count :: u64
  bi_time :: nat

record rate_calculator =
  windowSizeMs :: nat
  windowItems :: nat
  itemSizeMs :: nat
  rc_buffer :: "buffer_item list"
  newestItemStartTime :: nat
  newestItemIndex :: int
  oldestItemStartTime :: nat
  oldestItemIndex :: int
  totalCount :: u64
  rc_bytes :: u64
  lastRate :: u32
  lastTime :: nat

definition minus64 :: "nat \<Rightarrow> nat \<Rightarrow> nat" where
  "minus64 a b = (a + 2 ^ 64 - b) mod 2 ^ 64"

definition empty_item :: buffer_item where
  "empty_item = \<lparr>bi_count = 0, bi_time = 0\<rparr>"

definition RateCalculator_new :: "nat \<Rightarrow> nat \<Rightarrow> rate_calculator" where
  "RateCalculator_new sz items =
     \<lparr>windowSizeMs = sz, windowItems = items, itemSizeMs = max (sz div items) 1,
      rc_buffer = replicate items empty_item,
      newestItemStartTime = 0, newestItemIndex = -1, oldestItemStartTime = 0, oldestItemIndex = -1,
      totalCount = 0, rc_bytes = 0, lastRate = 0, lastTime = 0\<rparr>"

definition RateCalculator_Reset :: "rate_calculator \<Rightarrow> rate_calculator" where
  "RateCalculator_Reset s =
     s\<lparr>rc_buffer := replicate (length (rc_buffer s)) empty_item, newestItemStartTime := 0,
       newestItemIndex := -1, oldestItemStartTime := 0, oldestItemIndex := -1, totalCount := 0,
       lastRate := 0, lastTime := 0\<rparr>"

definition in_buffer :: "int \<Rightarrow> rate_calculator \<Rightarrow> bool" where
  "in_buffer i s \<longleftrightarrow> 0 \<le> i \<and> nat i < length (rc_buffer s)"

text \<open>The next index of the circular buffer.\<close>

definition next_index :: "int \<Rightarrow> rate_calculator \<Rightarrow> int" where
  "next_index i s = (if i + 1 \<ge> int (windowItems s) then 0 else i + 1)"

partial_function (option) remove_old_items :: "nat \<Rightarrow> rate_calculator \<Rightarrow> rate_calculator option" where
  "remove_old_items newOldestTime s =
     (if newOldestTime \<ge> oldestItemStartTime s
      then if \<not> in_buffer (oldestItemIndex s) s then None
           else
             let i = nat (oldestItemIndex s);
                 s = s\<lparr>totalCount := totalCount s - bi_count (rc_buffer s ! i),
                       rc_buffer := (rc_buffer s)[i := empty_item]\<rparr>;
                 j = next_index (oldestItemIndex s) s
             in if \<not> in_buffer j s then None
                else remove_old_items newOldestTime
                       (s\<lparr>oldestItemIndex := j, oldestItemStartTime := bi_time (rc_buffer s ! nat j)\<rparr>)
      else Some s)"

definition RemoveOldData :: "nat \<Rightarrow> rate_calculator \<Rightarrow> rate_calculator option" where
  "RemoveOldData nowMs s =
     (if newestItemIndex s < 0 \<or> oldestItemIndex s < 0 then Some s
      else
        let newOldestTime = minus64 nowMs (windowSizeMs s)
        in if newOldestTime < oldestItemStartTime s then Some s
           else if newOldestTime \<ge> newestItemStartTime s then Some (RateCalculator_Reset s)
           else remove_old_items newOldestTime s)"

text \<open>The item \<^verbatim>\<open>Update\<close> adds to: a new one, or the newest.\<close>

definition update_item :: "u64 \<Rightarrow> nat \<Rightarrow> rate_calculator \<Rightarrow> rate_calculator option" where
  "update_item sz nowMs s =
     (if newestItemIndex s < 0 \<or> minus64 nowMs (newestItemStartTime s) \<ge> itemSizeMs s
      then
        let i = next_index (newestItemIndex s) s
        in if \<not> (i \<noteq> oldestItemIndex s \<or> oldestItemIndex s = -1) then None
           else if \<not> in_buffer i s then None
           else Some (s\<lparr>newestItemIndex := i, newestItemStartTime := nowMs,
                        rc_buffer := (rc_buffer s)[nat i := \<lparr>bi_count = sz, bi_time = nowMs\<rparr>]\<rparr>)
      else if \<not> in_buffer (newestItemIndex s) s then None
      else
        let i = nat (newestItemIndex s)
        in Some (s\<lparr>rc_buffer := (rc_buffer s)[i := (rc_buffer s ! i)\<lparr>bi_count := bi_count (rc_buffer s ! i) + sz\<rparr>]\<rparr>))"

definition RateCalculator_Update :: "u64 \<Rightarrow> nat \<Rightarrow> rate_calculator \<Rightarrow> rate_calculator option" where
  "RateCalculator_Update sz nowMs s =
     (if nowMs < oldestItemStartTime s then Some s
      else do {
        s \<leftarrow> RemoveOldData nowMs (s\<lparr>rc_bytes := rc_bytes s + sz\<rparr>);
        s \<leftarrow> update_item sz nowMs s;
        let s = (if oldestItemIndex s < 0
                 then s\<lparr>oldestItemIndex := newestItemIndex s, oldestItemStartTime := nowMs\<rparr> else s)
        in Some (s\<lparr>totalCount := totalCount s + sz, lastRate := 0, lastTime := 0\<rparr>) })"

definition GetRate :: "(u64 \<Rightarrow> u32) \<Rightarrow> nat \<Rightarrow> rate_calculator \<Rightarrow> (u32 \<times> rate_calculator) option" where
  "GetRate toRate nowMs s =
     (if nowMs = lastTime s then Some (lastRate s, s)
      else do {
        s \<leftarrow> RemoveOldData nowMs s;
        let s = s\<lparr>lastTime := nowMs, lastRate := toRate (totalCount s)\<rparr>
        in Some (lastRate s, s) })"

record data_counter =
  dc_rate :: rate_calculator
  dc_packets :: u64

definition RtpDataCounter_new :: "nat \<Rightarrow> data_counter" where
  "RtpDataCounter_new sz = \<lparr>dc_rate = RateCalculator_new sz 100, dc_packets = 0\<rparr>"

definition RtpDataCounter_Update :: "u64 \<Rightarrow> nat \<Rightarrow> data_counter \<Rightarrow> data_counter option" where
  "RtpDataCounter_Update packetSize nowMs c = do {
     rate \<leftarrow> RateCalculator_Update packetSize nowMs (dc_rate c);
     Some \<lparr>dc_rate = rate, dc_packets = dc_packets c + 1\<rparr> }"

section \<open>The window as a list\<close>

text \<open>
  The abstract calculator: the items from the oldest to the newest, each a count and a start
  time.
\<close>

type_synonym item = "nat \<times> nat"

definition conc :: "item \<Rightarrow> buffer_item" where
  "conc x = \<lparr>bi_count = of_nat (fst x), bi_time = snd x\<rparr>"

definition in_window :: "nat \<Rightarrow> nat \<Rightarrow> item list \<Rightarrow> item list" where
  "in_window sz now xs = filter (\<lambda>x. now < snd x + sz) xs"

definition window_update :: "nat \<Rightarrow> nat \<Rightarrow> nat \<Rightarrow> nat \<Rightarrow> item list \<Rightarrow> item list" where
  "window_update sz itemSize n now xs =
     (let ys = in_window sz now xs
      in if ys = [] \<or> snd (last ys) + itemSize \<le> now then ys @ [(n, now)]
         else butlast ys @ [(fst (last ys) + n, snd (last ys))])"

definition window_count :: "item list \<Rightarrow> nat" where
  "window_count xs = sum_list (map fst xs)"

text \<open>The items are at least one item size apart and not in the future.\<close>

definition spaced :: "nat \<Rightarrow> nat \<Rightarrow> item list \<Rightarrow> bool" where
  "spaced itemSize now xs \<longleftrightarrow>
     sorted_wrt (\<lambda>x y. snd x + itemSize \<le> snd y) xs \<and> (\<forall>x\<in>set xs. snd x \<le> now)"

text \<open>The circular buffer holds the list.\<close>

definition holds :: "rate_calculator \<Rightarrow> item list \<Rightarrow> bool" where
  "holds s xs \<longleftrightarrow>
     length (rc_buffer s) = windowItems s \<and> 0 < windowItems s \<and> length xs \<le> windowItems s \<and>
     totalCount s = of_nat (window_count xs) \<and>
     (if xs = []
      then newestItemIndex s = -1 \<and> oldestItemIndex s = -1 \<and> newestItemStartTime s = 0 \<and>
           oldestItemStartTime s = 0
      else \<exists>o1 < windowItems s. oldestItemIndex s = int o1 \<and>
             newestItemIndex s = int ((o1 + length xs - 1) mod windowItems s) \<and>
             take (length xs) (rotate o1 (rc_buffer s)) = map conc xs \<and>
             oldestItemStartTime s = snd (hd xs) \<and> newestItemStartTime s = snd (last xs))"

lemma mod_shift_inj:
  fixes i j k n :: nat
  assumes "j < n" "k < n"
  shows "(i + j) mod n = (i + k) mod n \<longleftrightarrow> j = k"
proof -
  have le: "a = b" if "(i + a) mod n = (i + b) mod n" "a \<le> b" "b < n" for a b
  proof -
    have "n dvd b - a" using that mod_eq_dvd_iff_nat [of "i + a" "i + b" n] by simp
    then show ?thesis using that by (auto dest: dvd_imp_le)
  qed
  show ?thesis using assms le [of j k] le [of k j] by (cases "j \<le> k") auto
qed

lemma rotate_update:
  assumes "j < length xs"
  shows "rotate i (xs[(i + j) mod length xs := x]) = (rotate i xs)[j := x]"
proof (rule nth_equalityI)
  fix k
  assume "k < length (rotate i (xs[(i + j) mod length xs := x]))"
  then have k: "k < length xs" by simp
  have "(i + j) mod length xs = (i + k) mod length xs \<longleftrightarrow> j = k" using assms k by (rule mod_shift_inj)
  moreover have "(i + k) mod length xs < length xs" using k by (intro mod_less_divisor) auto
  ultimately show "rotate i (xs[(i + j) mod length xs := x]) ! k = (rotate i xs)[j := x] ! k"
    using assms k by (auto simp: nth_rotate nth_list_update)
qed simp

lemma next_index_nat:
  "i < windowItems s \<Longrightarrow> next_index (int i) s = int ((i + 1) mod windowItems s)"
  by (cases "i + 1 = windowItems s") (auto simp: next_index_def)

lemma next_index_cong [simp]:
  "next_index i (s\<lparr>totalCount := t, rc_buffer := b\<rparr>) = next_index i s"
  "next_index i (s\<lparr>rc_bytes := u\<rparr>) = next_index i s"
  by (simp_all add: next_index_def)

definition same_config :: "rate_calculator \<Rightarrow> rate_calculator \<Rightarrow> bool" where
  "same_config s s' \<longleftrightarrow> windowSizeMs s' = windowSizeMs s \<and> windowItems s' = windowItems s \<and>
     itemSizeMs s' = itemSizeMs s \<and> rc_bytes s' = rc_bytes s"

lemma same_config_trans: "same_config s s' \<Longrightarrow> same_config s' s'' \<Longrightarrow> same_config s s''"
  by (simp add: same_config_def)

lemma holdsE:
  assumes "holds s xs" "xs \<noteq> []"
  obtains o1 where "o1 < windowItems s" "oldestItemIndex s = int o1"
    "newestItemIndex s = int ((o1 + length xs - 1) mod windowItems s)"
    "take (length xs) (rotate o1 (rc_buffer s)) = map conc xs"
    "oldestItemStartTime s = snd (hd xs)" "newestItemStartTime s = snd (last xs)"
    "length (rc_buffer s) = windowItems s" "length xs \<le> windowItems s" "totalCount s = of_nat (window_count xs)"
  using assms unfolding holds_def by auto

lemma nth_of_window:
  assumes "take (length xs) (rotate o1 buf) = map conc xs" "j < length xs" "length xs \<le> length buf"
  shows "buf ! ((o1 + j) mod length buf) = conc (xs ! j)"
proof -
  have "rotate o1 buf ! j = take (length xs) (rotate o1 buf) ! j" using assms(2) by simp
  also have "\<dots> = conc (xs ! j)" unfolding assms(1) using assms(2) by simp
  finally show ?thesis using assms(2,3) by (simp add: nth_rotate)
qed

lemma holds_pop:
  assumes h: "holds s (x # xs)" and ne: "xs \<noteq> []" and old: "oldestItemStartTime s \<le> c"
  obtains s' where "remove_old_items c s = remove_old_items c s'" "holds s' xs" "same_config s s'"
proof -
  obtain o1 where o1: "o1 < windowItems s" "oldestItemIndex s = int o1"
    and new: "newestItemIndex s = int ((o1 + length (x # xs) - 1) mod windowItems s)"
    and win: "take (length (x # xs)) (rotate o1 (rc_buffer s)) = map conc (x # xs)"
    and times: "newestItemStartTime s = snd (last (x # xs))"
    and len: "length (rc_buffer s) = windowItems s" "length (x # xs) \<le> windowItems s"
    and tot: "totalCount s = of_nat (window_count (x # xs))"
    using holdsE [OF h] by (metis list.distinct(1))
  let ?n = "windowItems s" and ?buf = "rc_buffer s"
  have first: "?buf ! o1 = conc x"
    using nth_of_window [OF win, of 0] len o1(1) by simp
  define j where "j = (o1 + 1) mod ?n"
  have j: "j < ?n" using o1 by (simp add: j_def)
  define buf' where "buf' = ?buf[o1 := empty_item]"
  define s' where "s' = s\<lparr>totalCount := totalCount s - bi_count (?buf ! o1), rc_buffer := buf',
    oldestItemIndex := int j, oldestItemStartTime := bi_time (buf' ! j)\<rparr>"
  have rot: "rotate o1 ?buf = conc x # rotate1_tail" if "rotate1_tail = tl (rotate o1 ?buf)" for rotate1_tail
    using that win len o1 by (cases "rotate o1 ?buf") auto
  have buf': "rotate o1 buf' = empty_item # tl (rotate o1 ?buf)"
    using rotate_update [of 0 ?buf o1 empty_item] len o1 rot [OF refl]
    by (simp add: buf'_def) (metis list.collapse list_update_code(2))
  have "rotate (Suc o1) buf' = tl (rotate o1 ?buf) @ [empty_item]"
    using buf' by (simp add: rotate_Suc)
  moreover have "rotate (Suc o1) buf' = rotate j buf'"
    using len by (subst rotate_conv_mod) (simp add: j_def buf'_def del: rotate_Suc)
  ultimately have rj: "rotate j buf' = tl (rotate o1 ?buf) @ [empty_item]" by simp
  have win': "take (length xs) (rotate j buf') = map conc xs"
    using win rot [OF refl] len length_rotate [of o1 ?buf] unfolding rj by (cases "rotate o1 ?buf") auto
  have "buf' ! j = conc (hd xs)"
    using nth_of_window [OF win', of 0] len ne j by (simp add: buf'_def hd_conv_nth)
  moreover have "(o1 + length xs) mod ?n = (j + length xs - 1) mod ?n"
    using ne mod_add_left_eq [of "Suc o1" ?n "length xs - 1"] by (cases xs) (simp_all add: j_def)
  moreover have "remove_old_items c s = remove_old_items c s'"
    using old o1 len j
    by (subst remove_old_items.simps) (simp add: s'_def in_buffer_def buf'_def j_def next_index_nat Let_def)
  ultimately show thesis
    using that [of s'] j new len tot times ne win' first
    by (auto simp: s'_def holds_def same_config_def buf'_def conc_def window_count_def)
qed

lemma remove_old_items_holds:
  assumes "holds s xs" "xs \<noteq> []" "c < snd (last xs)"
  shows "\<exists>s'. remove_old_items c s = Some s' \<and> holds s' (dropWhile (\<lambda>x. snd x \<le> c) xs) \<and> same_config s s'"
  using assms
proof (induction xs arbitrary: s)
  case (Cons x xs)
  have first: "oldestItemStartTime s = snd x" using holdsE [OF Cons.prems(1)] by force
  show ?case
  proof (cases "snd x \<le> c")
    case True
    then have ne: "xs \<noteq> []" using Cons.prems(3) by auto
    with first True obtain s1 where s1: "remove_old_items c s = remove_old_items c s1" "holds s1 xs" "same_config s s1"
      using holds_pop [OF Cons.prems(1) ne] by metis
    with Cons.IH [OF s1(2) ne] Cons.prems(3) ne True show ?thesis by (auto intro: same_config_trans)
  next
    case False
    then show ?thesis
      using Cons.prems(1) first by (subst remove_old_items.simps) (simp add: same_config_def)
  qed
qed simp

lemma in_window_dropWhile:
  assumes "spaced itemSize now xs" "sz \<le> now"
  shows "in_window sz now xs = dropWhile (\<lambda>x. snd x \<le> now - sz) xs"
proof -
  have "sorted_wrt (\<lambda>x y. snd x + itemSize \<le> snd y) xs" using assms(1) by (simp add: spaced_def)
  then have "sorted_wrt (\<lambda>x y. snd y \<le> now - sz \<longrightarrow> snd x \<le> now - sz) xs"
    by (rule sorted_wrt_mono_rel [rotated]) simp
  then have "dropWhile (\<lambda>x. snd x \<le> now - sz) xs = filter (\<lambda>x. \<not> snd x \<le> now - sz) xs"
    by (rule takeWhile_eq_filter_sorted [THEN conjunct2])
  also have "\<dots> = in_window sz now xs"
    unfolding in_window_def using assms(2) by (intro filter_cong) auto
  finally show ?thesis by simp
qed

lemma spaced_filter: "spaced itemSize now xs \<Longrightarrow> spaced itemSize now (filter P xs)"
  by (auto simp: spaced_def intro: sorted_wrt_filter)

lemma spaced_last: "spaced itemSize now xs \<Longrightarrow> x \<in> set xs \<Longrightarrow> snd x \<le> snd (last xs)"
proof (induction xs)
  case (Cons a xs)
  then show ?case
    by (cases "xs = []") (auto simp: spaced_def dest: bspec [where x = "last xs"] intro: order_trans [OF le_add1])
qed simp

lemma minus64_le: "b \<le> a \<Longrightarrow> a < 2 ^ 64 \<Longrightarrow> minus64 a b = a - b"
  unfolding minus64_def using mod_add_self2 [of "a - b" "2 ^ 64 :: nat"] by simp

lemma Reset_holds: "holds s xs \<Longrightarrow> holds (RateCalculator_Reset s) [] \<and> same_config s (RateCalculator_Reset s)"
  by (simp add: holds_def RateCalculator_Reset_def same_config_def window_count_def)

lemma RemoveOldData_holds:
  assumes h: "holds s xs" and sp: "spaced itemSize now xs" and now: "windowSizeMs s \<le> now" "now < 2 ^ 64"
  shows "\<exists>s'. RemoveOldData now s = Some s' \<and> holds s' (in_window (windowSizeMs s) now xs) \<and> same_config s s'"
proof (cases "xs = []")
  case True
  then show ?thesis using h by (simp add: RemoveOldData_def holds_def in_window_def same_config_def)
next
  case False
  let ?c = "now - windowSizeMs s"
  obtain o1 where o1: "oldestItemIndex s = int o1" "newestItemIndex s = int ((o1 + length xs - 1) mod windowItems s)"
    "oldestItemStartTime s = snd (hd xs)" "newestItemStartTime s = snd (last xs)"
    by (rule holdsE [OF h False])
  have win: "in_window (windowSizeMs s) now xs = dropWhile (\<lambda>x. snd x \<le> ?c) xs"
    using sp now(1) by (rule in_window_dropWhile)
  have eq: "RemoveOldData now s = (if ?c < snd (hd xs) then Some s
      else if ?c \<ge> snd (last xs) then Some (RateCalculator_Reset s) else remove_old_items ?c s)"
    using now o1 by (simp add: RemoveOldData_def minus64_le Let_def)
  consider "?c < snd (hd xs)" | "\<not> ?c < snd (hd xs)" "?c \<ge> snd (last xs)" | "\<not> ?c < snd (hd xs)" "?c < snd (last xs)"
    by linarith
  then show ?thesis
  proof cases
    case 1
    then have "dropWhile (\<lambda>x. snd x \<le> ?c) xs = xs" using False by (cases xs) auto
    then show ?thesis using eq 1 h win by (simp add: same_config_def)
  next
    case 2
    then have "dropWhile (\<lambda>x. snd x \<le> ?c) xs = []"
      using spaced_last [OF sp] by (auto simp: dropWhile_eq_Nil_conv intro: order_trans)
    with win have "in_window (windowSizeMs s) now xs = []" by simp
    then show ?thesis using eq 2 Reset_holds [OF h] by simp
  next
    case 3
    then show ?thesis using eq remove_old_items_holds [OF h False] win by simp
  qed
qed

lemma spaced_span:
  "sorted_wrt (\<lambda>x y. snd x + itemSize \<le> snd y) xs \<Longrightarrow> xs \<noteq> [] \<Longrightarrow>
   snd (hd xs) + itemSize * (length xs - 1) \<le> snd (last xs)"
proof (induction xs)
  case (Cons x xs)
  show ?case
  proof (cases "xs = []")
    case False
    then have "snd x + itemSize \<le> snd (hd xs)" "snd (hd xs) + itemSize * (length xs - 1) \<le> snd (last xs)"
      using Cons by auto
    moreover have "itemSize * length xs = itemSize + itemSize * (length xs - 1)"
      using False by (cases xs) auto
    ultimately show ?thesis using False by simp
  qed simp
qed simp

lemma window_room:
  assumes "spaced itemSize now ys" "ys \<noteq> []" "\<forall>y\<in>set ys. now < snd y + sz" "snd (last ys) + itemSize \<le> now"
    and "sz \<le> n * itemSize"
  shows "length ys < n"
proof -
  have "snd (hd ys) + itemSize * (length ys - 1) \<le> snd (last ys)"
    using assms(1,2) by (intro spaced_span) (simp_all add: spaced_def)
  moreover have "itemSize * length ys = itemSize + itemSize * (length ys - 1)"
    using assms(2) by (cases ys) auto
  moreover have "now < snd (hd ys) + sz" using assms(2,3) by auto
  ultimately have "itemSize * length ys < itemSize * n"
    using assms(4,5) by (simp add: mult.commute)
  then show ?thesis by simp
qed

text \<open>After the old items are gone: add to the window.\<close>

definition add_to_window :: "nat \<Rightarrow> nat \<Rightarrow> nat \<Rightarrow> item list \<Rightarrow> item list" where
  "add_to_window itemSize n now ys =
     (if ys = [] \<or> snd (last ys) + itemSize \<le> now then ys @ [(n, now)]
      else butlast ys @ [(fst (last ys) + n, snd (last ys))])"

definition finish_update :: "u64 \<Rightarrow> nat \<Rightarrow> rate_calculator \<Rightarrow> rate_calculator" where
  "finish_update sz nowMs s =
     (let s = (if oldestItemIndex s < 0
               then s\<lparr>oldestItemIndex := newestItemIndex s, oldestItemStartTime := nowMs\<rparr> else s)
      in s\<lparr>totalCount := totalCount s + sz, lastRate := 0, lastTime := 0\<rparr>)"

lemma rotate_append:
  assumes "take (length xs) (rotate o1 buf) = map conc xs" "length xs < length buf"
  shows "take (Suc (length xs)) (rotate o1 (buf[(o1 + length xs) mod length buf := b])) = map conc xs @ [b]"
  using assms rotate_update [of "length xs" buf o1 b] by (simp add: take_Suc_conv_app_nth)

lemma rotate_last:
  assumes "take (length xs) (rotate o1 buf) = map conc xs" "xs \<noteq> []" "length xs \<le> length buf"
  shows "take (length xs) (rotate o1 (buf[(o1 + (length xs - 1)) mod length buf := b]))
    = map conc (butlast xs) @ [b]"
proof -
  have "take (length xs) ((rotate o1 buf)[length xs - 1 := b]) = (map conc xs)[length xs - 1 := b]"
    using assms(1) by (simp add: take_update_swap)
  also have "\<dots> = map conc (butlast xs) @ [b]"
    using assms(2) by (cases xs rule: rev_cases) (simp_all add: list_update_append)
  finally have "take (length xs) ((rotate o1 buf)[length xs - 1 := b]) = map conc (butlast xs) @ [b]" .
  moreover have "length xs - 1 < length buf" using assms(2,3) by (cases xs) auto
  ultimately show ?thesis by (simp only: rotate_update)
qed

lemma update_item_holds:
  assumes h: "holds s ys" and sp: "spaced (itemSizeMs s) now ys" and now: "now < 2 ^ 64"
    and room: "ys \<noteq> [] \<Longrightarrow> snd (last ys) + itemSizeMs s \<le> now \<Longrightarrow> length ys < windowItems s"
  shows "\<exists>s'. update_item sz now s = Some s' \<and> same_config s s' \<and>
    holds (finish_update sz now s') (add_to_window (itemSizeMs s) (unat sz) now ys)"
proof (cases "ys = []")
  case True
  then have "update_item sz now s = Some (s\<lparr>newestItemIndex := 0, newestItemStartTime := now,
      rc_buffer := (rc_buffer s)[0 := \<lparr>bi_count = sz, bi_time = now\<rparr>]\<rparr>)"
    using h by (simp add: update_item_def holds_def next_index_def in_buffer_def)
  then show ?thesis
    using h True
    by (cases "rc_buffer s")
      (auto simp: holds_def same_config_def finish_update_def add_to_window_def conc_def window_count_def)
next
  case False
  obtain o1 where o1: "o1 < windowItems s" "oldestItemIndex s = int o1"
    and new: "newestItemIndex s = int ((o1 + length ys - 1) mod windowItems s)"
    and win: "take (length ys) (rotate o1 (rc_buffer s)) = map conc ys"
    and times: "oldestItemStartTime s = snd (hd ys)" "newestItemStartTime s = snd (last ys)"
    and len: "length (rc_buffer s) = windowItems s" "length ys \<le> windowItems s"
    and tot: "totalCount s = of_nat (window_count ys)"
    by (rule holdsE [OF h False])
  let ?n = "windowItems s" and ?k = "length ys"
  have k: "0 < ?k" using False by simp
  have last_le: "snd (last ys) \<le> now" using sp False by (simp add: spaced_def)
  then have diff: "minus64 now (snd (last ys)) = now - snd (last ys)" using now by (rule minus64_le)
  have newlt: "(o1 + ?k - 1) mod ?n < ?n" using o1 by (intro mod_less_divisor) auto
  show ?thesis
  proof (cases "snd (last ys) + itemSizeMs s \<le> now")
    case True
    have kn: "?k < ?n" using room [OF False True] .
    have idx: "next_index (newestItemIndex s) s = int ((o1 + ?k) mod ?n)"
      unfolding new using newlt k by (simp add: next_index_nat mod_Suc_eq)
    have "(o1 + ?k) mod ?n \<noteq> o1" using mod_shift_inj [of ?k ?n 0 o1] kn k o1 by simp
    then have "update_item sz now s = Some (s\<lparr>newestItemIndex := int ((o1 + ?k) mod ?n), newestItemStartTime := now,
        rc_buffer := (rc_buffer s)[(o1 + ?k) mod ?n := \<lparr>bi_count = sz, bi_time = now\<rparr>]\<rparr>)"
      using True diff times o1 idx len by (simp add: update_item_def in_buffer_def new)
    moreover have "take (Suc ?k) (rotate o1 ((rc_buffer s)[(o1 + ?k) mod ?n := \<lparr>bi_count = sz, bi_time = now\<rparr>]))
        = map conc (ys @ [(unat sz, now)])"
      using rotate_append [OF win] kn len by (simp add: conc_def)
    ultimately show ?thesis
      using True False o1 len kn tot times k
      by (auto simp: holds_def same_config_def finish_update_def add_to_window_def window_count_def)
  next
    case merge: False
    define i where "i = (o1 + (?k - 1)) mod ?n"
    have e: "o1 + ?k - 1 = o1 + (?k - 1)" using k by linarith
    then have i: "newestItemIndex s = int i" "i < ?n" using new newlt by (simp_all only: i_def)
    have "rc_buffer s ! ((o1 + (?k - 1)) mod length (rc_buffer s)) = conc (ys ! (?k - 1))"
      by (rule nth_of_window [OF win]) (use k len in auto)
    then have item: "rc_buffer s ! i = conc (last ys)"
      unfolding len(1) last_conv_nth [OF False] i_def .
    let ?b = "(conc (last ys))\<lparr>bi_count := bi_count (conc (last ys)) + sz\<rparr>"
    have "\<not> minus64 now (newestItemStartTime s) \<ge> itemSizeMs s" using merge diff times last_le by simp
    then have "update_item sz now s = Some (s\<lparr>rc_buffer := (rc_buffer s)[i := ?b]\<rparr>)"
      using i len by (simp add: update_item_def in_buffer_def item)
    moreover have "take ?k (rotate o1 ((rc_buffer s)[i := ?b]))
        = map conc (butlast ys @ [(fst (last ys) + unat sz, snd (last ys))])"
      using rotate_last [OF win False] len by (simp add: conc_def i_def)
    moreover have "window_count (butlast ys @ [(fst (last ys) + unat sz, snd (last ys))]) = window_count ys + unat sz"
      using False by (cases ys rule: rev_cases) (simp_all add: window_count_def)
    moreover have "snd (hd (butlast ys @ [(fst (last ys) + unat sz, snd (last ys))])) = snd (hd ys)"
      using False by (cases ys) auto
    moreover have "newestItemIndex s = int ((o1 + length (butlast ys @ [(fst (last ys) + unat sz, snd (last ys))]) - 1) mod ?n)"
      using i(1) k e by (simp add: i_def)
    ultimately show ?thesis
      using merge False o1 len tot times k
      by (auto simp: holds_def same_config_def finish_update_def add_to_window_def)
  qed
qed

section \<open>Updates and readings\<close>

lemma window_update_eq:
  "window_update sz itemSize n now xs = add_to_window itemSize n now (in_window sz now xs)"
  by (simp add: window_update_def add_to_window_def Let_def)

lemma add_to_window_spaced:
  assumes "spaced itemSize now ys"
  shows "spaced itemSize now (add_to_window itemSize n now ys)"
proof (cases "ys = [] \<or> snd (last ys) + itemSize \<le> now")
  case True
  have "snd y + itemSize \<le> now" if "y \<in> set ys" for y
    using spaced_last [OF assms that] True that by auto
  with True show ?thesis
    using assms by (auto simp: spaced_def add_to_window_def sorted_wrt_append)
next
  case False
  then show ?thesis
    using assms by (cases ys rule: rev_cases) (auto simp: spaced_def add_to_window_def sorted_wrt_append)
qed

lemma spaced_later: "spaced itemSize t xs \<Longrightarrow> t \<le> now \<Longrightarrow> spaced itemSize now xs"
  by (auto simp: spaced_def)

lemma Update_eq:
  "RateCalculator_Update sz nowMs s =
     (if nowMs < oldestItemStartTime s then Some s
      else RemoveOldData nowMs (s\<lparr>rc_bytes := rc_bytes s + sz\<rparr>) \<bind> update_item sz nowMs
        \<bind> (\<lambda>s. Some (finish_update sz nowMs s)))"
  by (simp add: RateCalculator_Update_def finish_update_def Let_def split: bind_splits)

lemma Update_holds:
  assumes h: "holds s xs" and sp: "spaced (itemSizeMs s) now xs"
    and now: "windowSizeMs s \<le> now" "now < 2 ^ 64"
    and room: "windowSizeMs s \<le> windowItems s * itemSizeMs s"
  shows "\<exists>s'. RateCalculator_Update sz now s = Some s' \<and> same_config (s\<lparr>rc_bytes := rc_bytes s + sz\<rparr>) s' \<and>
    holds s' (window_update (windowSizeMs s) (itemSizeMs s) (unat sz) now xs) \<and> lastTime s' = 0"
proof -
  let ?s = "s\<lparr>rc_bytes := rc_bytes s + sz\<rparr>"
  let ?ys = "in_window (windowSizeMs s) now xs"
  have "oldestItemStartTime s \<le> now"
    using h sp by (cases xs) (auto simp: holds_def spaced_def)
  moreover have "holds ?s xs" using h by (cases "xs = []") (simp_all add: holds_def)
  then obtain s1 where s1: "RemoveOldData now ?s = Some s1" "holds s1 ?ys" "same_config ?s s1"
    using RemoveOldData_holds [of ?s xs "itemSizeMs s" now] sp now by auto
  moreover have cfg: "windowSizeMs s1 = windowSizeMs s" "windowItems s1 = windowItems s" "itemSizeMs s1 = itemSizeMs s"
    using s1(3) by (simp_all add: same_config_def)
  have spy: "spaced (itemSizeMs s1) now ?ys" unfolding cfg in_window_def using sp by (rule spaced_filter)
  have "length ?ys < windowItems s1" if "?ys \<noteq> []" "snd (last ?ys) + itemSizeMs s1 \<le> now"
    using that by (intro window_room [OF spy]) (use room cfg in \<open>auto simp: in_window_def\<close>)
  then obtain s2 where s2: "update_item sz now s1 = Some s2" "same_config s1 s2"
    "holds (finish_update sz now s2) (add_to_window (itemSizeMs s1) (unat sz) now ?ys)"
    using update_item_holds [OF s1(2) spy now(2)] by blast
  moreover have "same_config ?s (finish_update sz now s2)" "lastTime (finish_update sz now s2) = 0"
    using s1(3) s2(2) by (simp_all add: same_config_def finish_update_def Let_def)
  ultimately show ?thesis by (simp add: Update_eq window_update_eq cfg)
qed

datatype rate_event = RateUpdate nat u64 | RateRead nat

fun event_time :: "rate_event \<Rightarrow> nat" where
  "event_time (RateUpdate t n) = t"
| "event_time (RateRead t) = t"

fun rate_step :: "(u64 \<Rightarrow> u32) \<Rightarrow> rate_calculator \<Rightarrow> rate_event \<Rightarrow> rate_calculator option" where
  "rate_step toRate s (RateUpdate t n) = RateCalculator_Update n t s"
| "rate_step toRate s (RateRead t) = map_option snd (GetRate toRate t s)"

fun rate_run :: "(u64 \<Rightarrow> u32) \<Rightarrow> rate_calculator \<Rightarrow> rate_event list \<Rightarrow> rate_calculator option" where
  "rate_run toRate s [] = Some s"
| "rate_run toRate s (e # es) = do { s \<leftarrow> rate_step toRate s e; rate_run toRate s es }"

text \<open>The bytes of the updates at times that satisfy a predicate.\<close>

fun bytes_at :: "(nat \<Rightarrow> bool) \<Rightarrow> rate_event list \<Rightarrow> nat" where
  "bytes_at P [] = 0"
| "bytes_at P (RateUpdate t n # es) = (if P t then unat n else 0) + bytes_at P es"
| "bytes_at P (RateRead t # es) = bytes_at P es"

lemma bytes_at_append: "bytes_at P (es @ fs) = bytes_at P es + bytes_at P fs"
  by (induction P es rule: bytes_at.induct) simp_all

text \<open>
  The items of the list account for the updates: counting the items that start after \<open>c\<close> counts every
  update at least one item size after \<open>c\<close>, and only updates after \<open>c\<close>.
\<close>

definition count_after :: "nat \<Rightarrow> item list \<Rightarrow> nat" where
  "count_after c xs = window_count (filter (\<lambda>x. c < snd x) xs)"

definition accounts :: "nat \<Rightarrow> nat \<Rightarrow> nat \<Rightarrow> rate_event list \<Rightarrow> item list \<Rightarrow> bool" where
  "accounts sz itemSize now es xs \<longleftrightarrow>
     (\<forall>c. now \<le> c + sz \<longrightarrow>
        bytes_at (\<lambda>t. c + itemSize \<le> t) es \<le> count_after c xs \<and> count_after c xs \<le> bytes_at (\<lambda>t. c < t) es)"

lemma accounts_window:
  assumes "accounts sz itemSize t es xs" "t \<le> now"
  shows "accounts sz itemSize now es (in_window sz now xs)"
proof -
  have "count_after c (in_window sz now xs) = count_after c xs" if "now \<le> c + sz" for c
    unfolding count_after_def in_window_def filter_filter
    by (intro arg_cong [of _ _ window_count] filter_cong) (use that in auto)
  then show ?thesis using assms by (auto simp: accounts_def)
qed

lemma accounts_add:
  assumes acc: "accounts sz itemSize now es ys" and sp: "spaced itemSize now ys" and pos: "0 < itemSize"
  shows "accounts sz itemSize now (es @ [RateUpdate now n]) (add_to_window itemSize (unat n) now ys)"
  unfolding accounts_def
proof (intro allI impI)
  fix c
  assume c: "now \<le> c + sz"
  have old: "bytes_at (\<lambda>t. c + itemSize \<le> t) es \<le> count_after c ys" "count_after c ys \<le> bytes_at (\<lambda>t. c < t) es"
    using acc c by (auto simp: accounts_def)
  show "bytes_at (\<lambda>t. c + itemSize \<le> t) (es @ [RateUpdate now n]) \<le> count_after c (add_to_window itemSize (unat n) now ys) \<and>
    count_after c (add_to_window itemSize (unat n) now ys) \<le> bytes_at (\<lambda>t. c < t) (es @ [RateUpdate now n])"
  proof (cases "ys = [] \<or> snd (last ys) + itemSize \<le> now")
    case True
    then have "count_after c (add_to_window itemSize (unat n) now ys) = count_after c ys + (if c < now then unat n else 0)"
      by (auto simp: add_to_window_def count_after_def window_count_def)
    then show ?thesis using old pos by (auto simp: bytes_at_append)
  next
    case False
    then obtain zs m t where ys: "ys = zs @ [(m, t)]" by (cases ys rule: rev_cases) auto
    then have "count_after c (add_to_window itemSize (unat n) now ys) = count_after c ys + (if c < t then unat n else 0)"
      using False by (auto simp: add_to_window_def count_after_def window_count_def)
    moreover have "t \<le> now" using sp ys by (simp add: spaced_def)
    ultimately show ?thesis using old False ys by (auto simp: bytes_at_append)
  qed
qed

text \<open>A rate that was read is still right at the time it was read for.\<close>

definition cache_ok :: "(u64 \<Rightarrow> u32) \<Rightarrow> rate_calculator \<Rightarrow> item list \<Rightarrow> bool" where
  "cache_ok toRate s xs \<longleftrightarrow> lastTime s = 0 \<or>
     (lastRate s = toRate (totalCount s) \<and> in_window (windowSizeMs s) (lastTime s) xs = xs)"

lemma GetRate_holds:
  assumes h: "holds s xs" and sp: "spaced (itemSizeMs s) now xs" and c: "cache_ok toRate s xs"
    and now: "windowSizeMs s \<le> now" "now < 2 ^ 64" and pos: "0 < windowSizeMs s"
  shows "\<exists>s'. GetRate toRate now s = Some (toRate (of_nat (window_count (in_window (windowSizeMs s) now xs))), s') \<and>
    same_config s s' \<and> holds s' (in_window (windowSizeMs s) now xs) \<and>
    cache_ok toRate s' (in_window (windowSizeMs s) now xs)"
proof (cases "now = lastTime s")
  case True
  then have "in_window (windowSizeMs s) now xs = xs" "lastRate s = toRate (totalCount s)"
    using c now pos by (simp_all add: cache_ok_def)
  moreover have "totalCount s = of_nat (window_count xs)" using h by (simp add: holds_def)
  ultimately show ?thesis using True h c by (simp add: GetRate_def same_config_def)
next
  case False
  obtain s1 where s1: "RemoveOldData now s = Some s1" "holds s1 (in_window (windowSizeMs s) now xs)" "same_config s s1"
    using RemoveOldData_holds [OF h sp now] by blast
  define s2 where "s2 = s1\<lparr>lastTime := now, lastRate := toRate (totalCount s1)\<rparr>"
  have h2: "holds s2 (in_window (windowSizeMs s) now xs)"
    using s1(2) by (cases "in_window (windowSizeMs s) now xs = []") (simp_all add: holds_def s2_def)
  have "in_window (windowSizeMs s) now (in_window (windowSizeMs s) now xs) = in_window (windowSizeMs s) now xs"
    by (simp add: in_window_def)
  then have "cache_ok toRate s2 (in_window (windowSizeMs s) now xs)"
    using s1(3) by (simp add: cache_ok_def s2_def same_config_def)
  moreover have "totalCount s1 = of_nat (window_count (in_window (windowSizeMs s) now xs))"
    using s1(2) by (simp add: holds_def)
  ultimately show ?thesis
    using False s1 h2 by (auto simp: GetRate_def s2_def same_config_def)
qed

definition rate_inv :: "(u64 \<Rightarrow> u32) \<Rightarrow> nat \<Rightarrow> nat \<Rightarrow> nat \<Rightarrow> rate_event list \<Rightarrow> rate_calculator \<Rightarrow> bool" where
  "rate_inv toRate sz itemSize now es s \<longleftrightarrow>
     windowSizeMs s = sz \<and> itemSizeMs s = itemSize \<and> 0 < sz \<and> 0 < itemSize \<and> sz \<le> windowItems s * itemSize \<and>
     (\<exists>xs. holds s xs \<and> spaced itemSize now xs \<and> accounts sz itemSize now es xs \<and> cache_ok toRate s xs)"

lemma rate_step_inv:
  assumes inv: "rate_inv toRate sz itemSize t es s" and "t \<le> event_time e" "sz \<le> event_time e" "event_time e < 2 ^ 64"
  shows "\<exists>s'. rate_step toRate s e = Some s' \<and> rate_inv toRate sz itemSize (event_time e) (es @ [e]) s'"
proof -
  obtain xs where xs: "holds s xs" "spaced itemSize t xs" "accounts sz itemSize t es xs" "cache_ok toRate s xs"
    and cfg: "windowSizeMs s = sz" "itemSizeMs s = itemSize" "0 < sz" "0 < itemSize" "sz \<le> windowItems s * itemSize"
    using inv by (auto simp: rate_inv_def)
  let ?now = "event_time e"
  have sp: "spaced itemSize ?now xs" using xs(2) assms(2) by (rule spaced_later)
  have spw: "spaced itemSize ?now (in_window sz ?now xs)" unfolding in_window_def using sp by (rule spaced_filter)
  have acc: "accounts sz itemSize ?now es (in_window sz ?now xs)" using xs(3) assms(2) by (rule accounts_window)
  show ?thesis
  proof (cases e)
    case (RateUpdate now n)
    then obtain s' where s': "RateCalculator_Update n now s = Some s'" "same_config (s\<lparr>rc_bytes := rc_bytes s + n\<rparr>) s'"
      "holds s' (window_update sz itemSize (unat n) now xs)" "lastTime s' = 0"
      using Update_holds [OF xs(1), of now n] sp assms(3,4) cfg by auto
    moreover have "accounts sz itemSize now (es @ [e]) (window_update sz itemSize (unat n) now xs)"
      using accounts_add [OF acc spw cfg(4), of n] RateUpdate by (simp add: window_update_eq)
    moreover have "spaced itemSize now (window_update sz itemSize (unat n) now xs)"
      using add_to_window_spaced [OF spw] RateUpdate by (simp add: window_update_eq)
    ultimately show ?thesis
      using cfg RateUpdate by (auto simp: rate_inv_def same_config_def cache_ok_def)
  next
    case (RateRead now)
    then obtain r s' where "GetRate toRate now s = Some (r, s')" "same_config s s'"
      "holds s' (in_window sz now xs)" "cache_ok toRate s' (in_window sz now xs)"
      using GetRate_holds [OF xs(1) _ xs(4), of now] sp assms(3,4) cfg by auto
    moreover have "accounts sz itemSize now (es @ [e]) (in_window sz now xs)"
      using acc RateRead by (simp add: accounts_def bytes_at_append)
    ultimately show ?thesis
      using cfg RateRead spw by (auto simp: rate_inv_def same_config_def)
  qed
qed

lemma rate_run_inv:
  assumes "rate_inv toRate sz itemSize t es0 s" "sorted (map event_time es)"
    and "\<forall>e\<in>set es. t \<le> event_time e \<and> sz \<le> event_time e \<and> event_time e \<le> now" "t \<le> now" "now < 2 ^ 64"
  shows "\<exists>s' t'. rate_run toRate s es = Some s' \<and> t' \<le> now \<and> rate_inv toRate sz itemSize t' (es0 @ es) s'"
  using assms
proof (induction es arbitrary: s t es0)
  case (Cons e es)
  obtain s1 where s1: "rate_step toRate s e = Some s1" "rate_inv toRate sz itemSize (event_time e) (es0 @ [e]) s1"
    using rate_step_inv [OF Cons.prems(1), of e] Cons.prems(3,5) by auto
  have "\<forall>e'\<in>set es. event_time e \<le> event_time e' \<and> sz \<le> event_time e' \<and> event_time e' \<le> now"
    using Cons.prems(2,3) by auto
  with Cons.IH [OF s1(2)] Cons.prems(2,3,5) s1(1) show ?case by auto
qed auto

lemma RateCalculator_new_inv:
  assumes "0 < items" "0 < sz" "items dvd sz"
  shows "rate_inv toRate sz (sz div items) 0 [] (RateCalculator_new sz items)"
proof -
  have "0 < sz div items" using assms by (auto simp: dvd_div_eq_0_iff)
  moreover have "sz = items * (sz div items)" using assms(3) by simp
  ultimately show ?thesis
    using assms by (auto simp: rate_inv_def RateCalculator_new_def holds_def spaced_def accounts_def
        count_after_def window_count_def cache_ok_def)
qed

section \<open>Properties\<close>

text \<open>
  C8: The rate is the rate of the window, up to one item. For a calculator whose window is a
  multiple of its items, any sequence of updates and readings at times that do not go back (and are
  not smaller than the window) is processed without a failed assertion, and a reading at the end
  is computed from a number of bytes that counts every update of the last window size less one
  item size and no update older than the window size.
\<close>

theorem RateCalculator_window:
  assumes "0 < items" "0 < sz" "items dvd sz" "sorted (map event_time es)"
    and "\<forall>e\<in>set es. sz \<le> event_time e \<and> event_time e \<le> now" "sz \<le> now" "now < 2 ^ 64"
  shows "\<exists>s n s'. rate_run toRate (RateCalculator_new sz items) es = Some s \<and>
    GetRate toRate now s = Some (toRate (of_nat n), s') \<and>
    bytes_at (\<lambda>t. now + sz div items \<le> t + sz) es \<le> n \<and> n \<le> bytes_at (\<lambda>t. now < t + sz) es"
proof -
  let ?I = "sz div items"
  obtain s t' where s: "rate_run toRate (RateCalculator_new sz items) es = Some s" "t' \<le> now"
    "rate_inv toRate sz ?I t' es s"
    using rate_run_inv [OF RateCalculator_new_inv [OF assms(1-3), of toRate] assms(4), of now] assms(5,7) by auto
  obtain xs where xs: "holds s xs" "spaced ?I t' xs" "accounts sz ?I t' es xs" "cache_ok toRate s xs"
    and cfg: "windowSizeMs s = sz" "itemSizeMs s = ?I"
    using s(3) by (auto simp: rate_inv_def)
  have "spaced ?I now xs" using xs(2) s(2) by (rule spaced_later)
  then obtain s' where "GetRate toRate now s = Some (toRate (of_nat (window_count (in_window sz now xs))), s')"
    using GetRate_holds [OF xs(1) _ xs(4), of now] assms(2,6,7) cfg by auto
  moreover have "count_after (now - sz) xs = window_count (in_window sz now xs)"
    unfolding count_after_def in_window_def
    by (intro arg_cong [of _ _ window_count] filter_cong) (use assms(6) in auto)
  moreover have "bytes_at (\<lambda>t. now - sz + ?I \<le> t) es \<le> count_after (now - sz) xs \<and>
      count_after (now - sz) xs \<le> bytes_at (\<lambda>t. now - sz < t) es"
    by (rule xs(3) [unfolded accounts_def, rule_format]) (use s(2) assms(6) in simp)
  moreover have "(\<lambda>t. now - sz + ?I \<le> t) = (\<lambda>t. now + ?I \<le> t + sz)" "(\<lambda>t. now - sz < t) = (\<lambda>t. now < t + sz)"
    using assms(6) by auto
  ultimately show ?thesis using s(1) by auto
qed

text \<open>A thousand bytes a second ago, then two updates: only the last two count.\<close>

theorem RateCalculator_window_witness:
  "\<exists>s s'. rate_run (\<lambda>n. ucast n) (RateCalculator_new 1000 100)
      [RateUpdate 5000 1000, RateRead 5500, RateUpdate 6100 20, RateUpdate 6110 30] = Some s \<and>
    GetRate (\<lambda>n. ucast n) 6200 s = Some (50, s')"
  using RateCalculator_window [of 100 1000
      "[RateUpdate 5000 1000, RateRead 5500, RateUpdate 6100 20, RateUpdate 6110 30]" 6200 "\<lambda>n. ucast n"]
  by auto

end
