(* ===== verification/RtpPacket.thy ===== *)
theory RtpPacket
  imports Utils StateMachine
begin

unbundle bit_operations_syntax

text \<open>
  \<^verbatim>\<open>RTC::RtpPacket\<close> (\<^verbatim>\<open>worker/include/RTC/RtpPacket.hpp\<close>, \<^verbatim>\<open>worker/src/RTC/RtpPacket.cpp\<close>): the view
  the worker has of an RTP packet in a buffer, and every operation that rewrites it in place.

  The memory the packet lives in is a byte list that starts at the RTP header and goes on to the
  end of the buffer, past the end of the packet; the pointers of the class are positions in it. An
  access outside this memory, a failed assertion, and a read of the array \<^verbatim>\<open>oneByteExtensions\<close> before
  it was filled are \<open>None\<close>. The payload descriptor handler is an object of a codec: it has a type of
  its own and its virtual methods are arguments of the operations that call them.
\<close>

section \<open>Definitions\<close>

subsection \<open>Memory\<close>

definition write_bytes :: "bytes \<Rightarrow> nat \<Rightarrow> bytes \<Rightarrow> bytes option" where
  "write_bytes mem dst bs =
     (if dst + length bs \<le> length mem
      then Some (take dst mem @ bs @ drop (dst + length bs) mem) else None)"

definition read_bytes :: "bytes \<Rightarrow> nat \<Rightarrow> nat \<Rightarrow> bytes option" where
  "read_bytes mem src n = (if src + n \<le> length mem then Some (take n (drop src mem)) else None)"

text \<open>\<^verbatim>\<open>std::memmove\<close> inside one buffer.\<close>

definition memmove :: "bytes \<Rightarrow> nat \<Rightarrow> nat \<Rightarrow> nat \<Rightarrow> bytes option" where
  "memmove mem dst src n = do { bs \<leftarrow> read_bytes mem src n; write_bytes mem dst bs }"

subsection \<open>State\<close>

definition MtuSize :: nat where "MtuSize = 1500"
definition MidMaxLength :: nat where "MidMaxLength = 8"
definition HeaderSize :: nat where "HeaderSize = 12"

record generic_extension =
  ge_id :: u8
  ge_len :: u8
  ge_value :: bytes

record frame_marking =
  fm_start :: bool
  fm_end :: bool
  fm_independent :: bool
  fm_discardable :: bool
  fm_base :: bool
  fm_tid :: u8

record 'h packet =
  pk_mem :: bytes
  pk_csrcList :: "nat option"
  pk_headerExtension :: "nat option"
  pk_oneByteExtensions :: "nat option list option"
  pk_mapTwoBytesExtensions :: "u8 \<rightharpoonup> nat"
  pk_midExtensionId :: u8
  pk_ridExtensionId :: u8
  pk_rridExtensionId :: u8
  pk_absSendTimeExtensionId :: u8
  pk_transportWideCc01ExtensionId :: u8
  pk_frameMarking07ExtensionId :: u8
  pk_frameMarkingExtensionId :: u8
  pk_ssrcAudioLevelExtensionId :: u8
  pk_videoOrientationExtensionId :: u8
  pk_payload :: nat
  pk_payloadLength :: nat
  pk_payloadPadding :: u8
  pk_size :: nat
  pk_payloadDescriptorHandler :: "'h option"

subsection \<open>Fields of the header\<close>

text \<open>The bit fields of the first two bytes.\<close>

definition csrcCount :: "u8 \<Rightarrow> nat" where "csrcCount b0 = unat (b0 AND 0x0F)"
definition extension_bit :: "u8 \<Rightarrow> bool" where "extension_bit b0 = bit b0 4"
definition padding_bit :: "u8 \<Rightarrow> bool" where "padding_bit b0 = bit b0 5"
definition version_bits :: "u8 \<Rightarrow> u8" where "version_bits b0 = drop_bit 6 b0"

definition write_bit :: "u8 \<Rightarrow> nat \<Rightarrow> bool \<Rightarrow> u8" where
  "write_bit b i flag = (if flag then set_bit i b else unset_bit i b)"

text \<open>Replaces the memory by the result of a write.\<close>

definition with_mem :: "'h packet \<Rightarrow> bytes option \<Rightarrow> 'h packet option" where
  "with_mem p m = map_option (\<lambda>mem. p\<lparr>pk_mem := mem\<rparr>) m"

definition GetPayloadType :: "'h packet \<Rightarrow> u8 option" where
  "GetPayloadType p = map_option (\<lambda>b. b AND 0x7F) (Get1Byte (pk_mem p) 1)"

definition SetPayloadType :: "u8 \<Rightarrow> 'h packet \<Rightarrow> 'h packet option" where
  "SetPayloadType payloadType p = do {
     b \<leftarrow> Get1Byte (pk_mem p) 1;
     with_mem p (Set1Byte (pk_mem p) 1 ((b AND 0x80) OR (payloadType AND 0x7F))) }"

definition HasMarker :: "'h packet \<Rightarrow> bool option" where
  "HasMarker p = map_option (\<lambda>b. bit b 7) (Get1Byte (pk_mem p) 1)"

definition SetMarker :: "bool \<Rightarrow> 'h packet \<Rightarrow> 'h packet option" where
  "SetMarker marker p = do {
     b \<leftarrow> Get1Byte (pk_mem p) 1;
     with_mem p (Set1Byte (pk_mem p) 1 (write_bit b 7 marker)) }"

definition SetPayloadPaddingFlag :: "bool \<Rightarrow> 'h packet \<Rightarrow> 'h packet option" where
  "SetPayloadPaddingFlag flag p = do {
     b \<leftarrow> Get1Byte (pk_mem p) 0;
     with_mem p (Set1Byte (pk_mem p) 0 (write_bit b 5 flag)) }"

definition GetSequenceNumber :: "'h packet \<Rightarrow> u16 option" where
  "GetSequenceNumber p = Get2Bytes (pk_mem p) 2"

definition SetSequenceNumber :: "u16 \<Rightarrow> 'h packet \<Rightarrow> 'h packet option" where
  "SetSequenceNumber seq p = with_mem p (Set2Bytes (pk_mem p) 2 seq)"

definition GetTimestamp :: "'h packet \<Rightarrow> u32 option" where
  "GetTimestamp p = Get4Bytes (pk_mem p) 4"

definition SetTimestamp :: "u32 \<Rightarrow> 'h packet \<Rightarrow> 'h packet option" where
  "SetTimestamp timestamp p = with_mem p (Set4Bytes (pk_mem p) 4 timestamp)"

definition GetSsrc :: "'h packet \<Rightarrow> u32 option" where
  "GetSsrc p = Get4Bytes (pk_mem p) 8"

definition SetSsrc :: "u32 \<Rightarrow> 'h packet \<Rightarrow> 'h packet option" where
  "SetSsrc ssrc p = with_mem p (Set4Bytes (pk_mem p) 8 ssrc)"

definition HasHeaderExtension :: "'h packet \<Rightarrow> bool" where
  "HasHeaderExtension p = (pk_headerExtension p \<noteq> None)"

definition GetHeaderExtensionId :: "'h packet \<Rightarrow> u16 option" where
  "GetHeaderExtensionId p =
     (case pk_headerExtension p of None \<Rightarrow> Some 0 | Some h \<Rightarrow> Get2Bytes (pk_mem p) h)"

definition GetHeaderExtensionLength :: "'h packet \<Rightarrow> nat option" where
  "GetHeaderExtensionLength p =
     (case pk_headerExtension p of
        None \<Rightarrow> Some 0
      | Some h \<Rightarrow> map_option (\<lambda>n. unat n * 4) (Get2Bytes (pk_mem p) (h + 2)))"

definition GetHeaderExtensionValue :: "'h packet \<Rightarrow> nat option" where
  "GetHeaderExtensionValue p = map_option (\<lambda>h. h + 4) (pk_headerExtension p)"

definition HasOneByteExtensions :: "'h packet \<Rightarrow> bool option" where
  "HasOneByteExtensions p = map_option (\<lambda>i. i = 0xBEDE) (GetHeaderExtensionId p)"

definition HasTwoBytesExtensions :: "'h packet \<Rightarrow> bool option" where
  "HasTwoBytesExtensions p = map_option (\<lambda>i. i AND 0xFFF0 = 0x1000) (GetHeaderExtensionId p)"

subsection \<open>Reading the header extensions\<close>

text \<open>A pointer in the array of One-Byte extensions; \<open>None\<close> outside it or before it was filled.\<close>

definition one_byte_entry :: "'h packet \<Rightarrow> u8 \<Rightarrow> nat option option" where
  "one_byte_entry p i = do {
     entries \<leftarrow> pk_oneByteExtensions p;
     (if unat i - 1 < length entries then Some (entries ! (unat i - 1)) else None) }"

definition HasExtension :: "'h packet \<Rightarrow> u8 \<Rightarrow> bool option" where
  "HasExtension p i =
     (if i = 0 then Some False
      else do {
        one \<leftarrow> HasOneByteExtensions p;
        two \<leftarrow> HasTwoBytesExtensions p;
        (if one then
           if i > 14 then Some False
           else do { entry \<leftarrow> one_byte_entry p i; Some (entry \<noteq> None) }
         else if two then
           (case pk_mapTwoBytesExtensions p i of
              None \<Rightarrow> Some False
            | Some q \<Rightarrow> do { len \<leftarrow> Get1Byte (pk_mem p) (q + 1); Some (len \<noteq> 0) })
         else Some False) })"

text \<open>The position of the value, or \<open>None\<close> for a null pointer, and the length.\<close>

definition GetExtension :: "'h packet \<Rightarrow> u8 \<Rightarrow> (nat option \<times> u8) option" where
  "GetExtension p i =
     (if i = 0 then Some (None, 0)
      else do {
        one \<leftarrow> HasOneByteExtensions p;
        two \<leftarrow> HasTwoBytesExtensions p;
        (if one then
           if i > 14 then Some (None, 0)
           else do {
             entry \<leftarrow> one_byte_entry p i;
             (case entry of
                None \<Rightarrow> Some (None, 0)
              | Some q \<Rightarrow> do {
                  b \<leftarrow> Get1Byte (pk_mem p) q;
                  Some (Some (q + 1), (b AND 0x0F) + 1) }) }
         else if two then
           (case pk_mapTwoBytesExtensions p i of
              None \<Rightarrow> Some (None, 0)
            | Some q \<Rightarrow> do {
                len \<leftarrow> Get1Byte (pk_mem p) (q + 1);
                Some (if len = 0 then None else Some (q + 2), len) })
         else Some (None, 0)) })"

text \<open>
  The readers return an outer \<open>None\<close> for an invalid access and an inner one where the method
  returns \<^verbatim>\<open>false\<close>.
\<close>

definition ReadMid :: "'h packet \<Rightarrow> bytes option option" where
  "ReadMid p = do {
     (extenValue, extenLen) \<leftarrow> GetExtension p (pk_midExtensionId p);
     (case extenValue of
        None \<Rightarrow> Some None
      | Some v \<Rightarrow> if extenLen = 0 then Some None
                  else map_option Some (read_bytes (pk_mem p) v (unat extenLen))) }"

definition ReadRid :: "'h packet \<Rightarrow> bytes option option" where
  "ReadRid p = do {
     (extenValue, extenLen) \<leftarrow> GetExtension p (pk_ridExtensionId p);
     (case (if extenLen > 0 then extenValue else None) of
        Some v \<Rightarrow> map_option Some (read_bytes (pk_mem p) v (unat extenLen))
      | None \<Rightarrow> do {
          (extenValue, extenLen) \<leftarrow> GetExtension p (pk_rridExtensionId p);
          (case (if extenLen > 0 then extenValue else None) of
             Some v \<Rightarrow> map_option Some (read_bytes (pk_mem p) v (unat extenLen))
           | None \<Rightarrow> Some None) }) }"

definition ReadAbsSendTime :: "'h packet \<Rightarrow> u32 option option" where
  "ReadAbsSendTime p = do {
     (extenValue, extenLen) \<leftarrow> GetExtension p (pk_absSendTimeExtensionId p);
     (case extenValue of
        None \<Rightarrow> Some None
      | Some v \<Rightarrow> if extenLen \<noteq> 3 then Some None else map_option Some (Get3Bytes (pk_mem p) v)) }"

definition UpdateAbsSendTime :: "u64 \<Rightarrow> 'h packet \<Rightarrow> (bool \<times> 'h packet) option" where
  "UpdateAbsSendTime ms p = do {
     (extenValue, extenLen) \<leftarrow> GetExtension p (pk_absSendTimeExtensionId p);
     (case extenValue of
        None \<Rightarrow> Some (False, p)
      | Some v \<Rightarrow>
          if extenLen \<noteq> 3 then Some (False, p)
          else map_option (Pair True)
                 (with_mem p (Set3Bytes (pk_mem p) v (TimeMsToAbsSendTime ms)))) }"

definition ReadTransportWideCc01 :: "'h packet \<Rightarrow> u16 option option" where
  "ReadTransportWideCc01 p = do {
     (extenValue, extenLen) \<leftarrow> GetExtension p (pk_transportWideCc01ExtensionId p);
     (case extenValue of
        None \<Rightarrow> Some None
      | Some v \<Rightarrow> if extenLen \<noteq> 2 then Some None else map_option Some (Get2Bytes (pk_mem p) v)) }"

definition UpdateTransportWideCc01 :: "u16 \<Rightarrow> 'h packet \<Rightarrow> (bool \<times> 'h packet) option" where
  "UpdateTransportWideCc01 wideSeqNumber p = do {
     (extenValue, extenLen) \<leftarrow> GetExtension p (pk_transportWideCc01ExtensionId p);
     (case extenValue of
        None \<Rightarrow> Some (False, p)
      | Some v \<Rightarrow>
          if extenLen \<noteq> 2 then Some (False, p)
          else map_option (Pair True) (with_mem p (Set2Bytes (pk_mem p) v wideSeqNumber))) }"

text \<open>
  The pointer to the frame marking and its length; the bit fields of the structure are read through
  the pointer by \<open>frame_marking_at\<close>.
\<close>

definition ReadFrameMarking :: "'h packet \<Rightarrow> (nat \<times> u8) option option" where
  "ReadFrameMarking p = do {
     (extenValue, extenLen) \<leftarrow> GetExtension p (pk_frameMarkingExtensionId p);
     (extenValue, extenLen) \<leftarrow>
       (if extenValue = None then GetExtension p (pk_frameMarking07ExtensionId p)
        else Some (extenValue, extenLen));
     (case extenValue of
        None \<Rightarrow> Some None
      | Some v \<Rightarrow> Some (if extenLen > 3 then None else Some (v, extenLen))) }"

definition frame_marking_at :: "'h packet \<Rightarrow> nat \<Rightarrow> frame_marking option" where
  "frame_marking_at p v = map_option (\<lambda>b.
     \<lparr>fm_start = bit b 7, fm_end = bit b 6, fm_independent = bit b 5, fm_discardable = bit b 4,
      fm_base = bit b 3, fm_tid = b AND 0x07\<rparr>) (Get1Byte (pk_mem p) v)"

definition ReadSsrcAudioLevel :: "'h packet \<Rightarrow> (u8 \<times> bool) option option" where
  "ReadSsrcAudioLevel p = do {
     (extenValue, extenLen) \<leftarrow> GetExtension p (pk_ssrcAudioLevelExtensionId p);
     (case extenValue of
        None \<Rightarrow> Some None
      | Some v \<Rightarrow>
          if extenLen \<noteq> 1 then Some None
          else do {
            volume \<leftarrow> Get1Byte (pk_mem p) v;
            Some (Some (volume AND NOT (push_bit 7 1), volume AND push_bit 7 1 \<noteq> 0)) }) }"

definition ReadVideoOrientation :: "'h packet \<Rightarrow> (bool \<times> bool \<times> u16) option option" where
  "ReadVideoOrientation p = do {
     (extenValue, extenLen) \<leftarrow> GetExtension p (pk_videoOrientationExtensionId p);
     (case extenValue of
        None \<Rightarrow> Some None
      | Some v \<Rightarrow>
          if extenLen \<noteq> 1 then Some None
          else do {
            cvoByte \<leftarrow> Get1Byte (pk_mem p) v;
            (let cameraValue = drop_bit 3 (cvoByte AND 0x08);
                 flipValue = drop_bit 2 (cvoByte AND 0x04);
                 rotationValue = cvoByte AND 0x03
             in Some (Some (cameraValue \<noteq> 0, flipValue \<noteq> 0,
                  if rotationValue = 3 then 270 else if rotationValue = 2 then 180
                  else if rotationValue = 1 then 90 else 0))) }) }"

subsection \<open>Parsing\<close>

definition IsRtp :: "bytes \<Rightarrow> nat \<Rightarrow> bool option" where
  "IsRtp data len =
     (if len < HeaderSize then Some False
      else do {
        b0 \<leftarrow> Get1Byte data 0;
        Some (b0 > 127 \<and> b0 < 192 \<and> version_bits b0 = 2) })"

text \<open>The loops that skip padding bytes up to the end \<open>stop\<close> of the extensions.\<close>

function skip_padding :: "bytes \<Rightarrow> nat \<Rightarrow> nat \<Rightarrow> nat option" where
  "skip_padding mem stop ptr =
     (if ptr < stop
      then do {
        b \<leftarrow> Get1Byte mem ptr;
        (if b = 0 then skip_padding mem stop (ptr + 1) else Some ptr) }
      else Some ptr)"
  by pat_completeness auto
termination
  by (relation "measure (\<lambda>(mem, stop, ptr). stop - ptr)") auto

declare skip_padding.simps [simp del]

lemma skip_padding_ge: "skip_padding mem stop ptr = Some r \<Longrightarrow> ptr \<le> r"
proof (induction mem stop ptr rule: skip_padding.induct)
  case (1 mem stop ptr)
  from 1(2) show ?case
    unfolding skip_padding.simps [of mem stop ptr]
    using 1(1) by (cases "Get1Byte mem ptr") (auto split: if_splits dest: Suc_leD)
qed

function parse_one_byte :: "bytes \<Rightarrow> nat \<Rightarrow> nat \<Rightarrow> nat option list \<Rightarrow> nat option list option" where
  "parse_one_byte mem extensionEnd ptr entries =
     (if ptr < extensionEnd
      then do {
        b \<leftarrow> Get1Byte mem ptr;
        (let i = drop_bit 4 (b AND 0xF0); len = unat (b AND 0x0F) + 1
         in if i = 15 then Some entries
            else if i \<noteq> 0 \<and> ptr + 1 + len > extensionEnd then Some entries
            else do {
              ptr' \<leftarrow> skip_padding mem extensionEnd (if i \<noteq> 0 then ptr + (1 + len) else ptr + 1);
              parse_one_byte mem extensionEnd ptr'
                (if i \<noteq> 0 then entries[unat i - 1 := Some ptr] else entries) }) }
      else Some entries)"
  by pat_completeness auto
termination
  by (relation "measure (\<lambda>(mem, stop, ptr, entries). stop - ptr)")
     (auto dest!: skip_padding_ge split: if_splits)

function parse_two_bytes :: "bytes \<Rightarrow> nat \<Rightarrow> nat \<Rightarrow> (u8 \<rightharpoonup> nat) \<Rightarrow> (u8 \<rightharpoonup> nat) option" where
  "parse_two_bytes mem extensionEnd ptr entries =
     (if ptr + 1 < extensionEnd
      then do {
        i \<leftarrow> Get1Byte mem ptr;
        len \<leftarrow> Get1Byte mem (ptr + 1);
        (if i \<noteq> 0 \<and> ptr + 2 + unat len > extensionEnd then Some entries
         else do {
           ptr' \<leftarrow> skip_padding mem extensionEnd (if i \<noteq> 0 then ptr + (2 + unat len) else ptr + 1);
           parse_two_bytes mem extensionEnd ptr'
             (if i \<noteq> 0 then entries(i \<mapsto> ptr) else entries) }) }
      else Some entries)"
  by pat_completeness auto
termination
  by (relation "measure (\<lambda>(mem, stop, ptr, entries). stop - ptr)")
     (auto dest!: skip_padding_ge split: if_splits)

declare parse_one_byte.simps [simp del] parse_two_bytes.simps [simp del]

definition ParseExtensions :: "'h packet \<Rightarrow> 'h packet option" where
  "ParseExtensions p = do {
     one \<leftarrow> HasOneByteExtensions p;
     two \<leftarrow> HasTwoBytesExtensions p;
     len \<leftarrow> GetHeaderExtensionLength p;
     (case pk_headerExtension p of
        None \<Rightarrow> Some p
      | Some h \<Rightarrow>
          if one then do {
            entries \<leftarrow> parse_one_byte (pk_mem p) (h + 4 + len) (h + 4) (replicate 14 None);
            Some (p\<lparr>pk_oneByteExtensions := Some entries\<rparr>) }
          else if two then do {
            entries \<leftarrow> parse_two_bytes (pk_mem p) (h + 4 + len) (h + 4) Map.empty;
            Some (p\<lparr>pk_mapTwoBytesExtensions := entries\<rparr>) }
          else Some p) }"

text \<open>The constructor.\<close>

definition RtpPacket_new ::
  "bytes \<Rightarrow> nat option \<Rightarrow> nat \<Rightarrow> nat \<Rightarrow> u8 \<Rightarrow> nat \<Rightarrow> 'h packet option" where
  "RtpPacket_new mem headerExtension payload payloadLength payloadPadding sz = do {
     b0 \<leftarrow> Get1Byte mem 0;
     ParseExtensions
       \<lparr>pk_mem = mem,
        pk_csrcList = (if csrcCount b0 \<noteq> 0 then Some HeaderSize else None),
        pk_headerExtension = headerExtension,
        pk_oneByteExtensions = None, pk_mapTwoBytesExtensions = Map.empty,
        pk_midExtensionId = 0, pk_ridExtensionId = 0, pk_rridExtensionId = 0,
        pk_absSendTimeExtensionId = 0, pk_transportWideCc01ExtensionId = 0,
        pk_frameMarking07ExtensionId = 0, pk_frameMarkingExtensionId = 0,
        pk_ssrcAudioLevelExtensionId = 0, pk_videoOrientationExtensionId = 0,
        pk_payload = payload, pk_payloadLength = payloadLength,
        pk_payloadPadding = payloadPadding, pk_size = sz,
        pk_payloadDescriptorHandler = None\<rparr> }"

text \<open>The header extension: its position and the position of the payload, or rejection.\<close>

definition parse_header_extension ::
  "bytes \<Rightarrow> nat \<Rightarrow> u8 \<Rightarrow> nat \<Rightarrow> (nat option \<times> nat) option option" where
  "parse_header_extension data len b0 ptr =
     (if \<not> extension_bit b0 then Some (Some (None, ptr))
      else if len < ptr + 4 then Some None
      else do {
        n \<leftarrow> Get2Bytes data (ptr + 2);
        (let extensionValueSize = unat n * 4
         in if len < ptr + 4 + extensionValueSize then Some None
            else Some (Some (Some ptr, ptr + (4 + extensionValueSize)))) })"

text \<open>Length of the payload without padding, and the padding, or rejection.\<close>

definition parse_padding :: "bytes \<Rightarrow> nat \<Rightarrow> u8 \<Rightarrow> nat \<Rightarrow> (nat \<times> u8) option option" where
  "parse_padding data len b0 payloadLength =
     (if \<not> padding_bit b0 then Some (Some (payloadLength, 0))
      else if payloadLength = 0 then Some None
      else do {
        payloadPadding \<leftarrow> Get1Byte data (len - 1);
        (if payloadPadding = 0 then Some None
         else if payloadLength < unat payloadPadding then Some None
         else Some (Some (payloadLength - unat payloadPadding, payloadPadding))) })"

definition RtpPacket_Parse :: "bytes \<Rightarrow> nat \<Rightarrow> 'h packet option option" where
  "RtpPacket_Parse data len = do {
     isRtp \<leftarrow> IsRtp data len;
     (if \<not> isRtp then Some None
      else do {
        b0 \<leftarrow> Get1Byte data 0;
        (let csrcListSize = (if csrcCount b0 \<noteq> 0 then csrcCount b0 * 4 else 0)
         in if csrcCount b0 \<noteq> 0 \<and> len < HeaderSize + csrcListSize then Some None
            else do {
              ext \<leftarrow> parse_header_extension data len b0 (HeaderSize + csrcListSize);
              (case ext of
                 None \<Rightarrow> Some None
               | Some (headerExtension, payload) \<Rightarrow>
                   if len < payload then None
                   else do {
                     pad \<leftarrow> parse_padding data len b0 (len - payload);
                     (case pad of
                        None \<Rightarrow> Some None
                      | Some (payloadLength, payloadPadding) \<Rightarrow>
                          if len \<noteq> HeaderSize + csrcListSize
                               + (payload - (HeaderSize + csrcListSize))
                               + payloadLength + unat payloadPadding
                          then None
                          else map_option Some
                            (RtpPacket_new data headerExtension payload payloadLength
                               payloadPadding len)) }) }) }) }"

subsection \<open>Replacing the header extensions\<close>

definition skip_extension :: "u8 \<Rightarrow> generic_extension \<Rightarrow> bool" where
  "skip_extension ty e =
     (if ty = 1 then ge_id e = 0 \<or> ge_id e > 14 \<or> ge_len e = 0 \<or> ge_len e > 16 else ge_id e = 0)"

definition extension_size :: "u8 \<Rightarrow> generic_extension \<Rightarrow> nat" where
  "extension_size ty e =
     (if skip_extension ty e then 0 else (if ty = 1 then 1 else 2) + unat (ge_len e))"

definition extension_id :: "u8 \<Rightarrow> u16" where
  "extension_id ty = (if ty = 1 then 0xBEDE else 0x1000)"

definition reset_extensions :: "'h packet \<Rightarrow> 'h packet" where
  "reset_extensions p = p\<lparr>
     pk_midExtensionId := 0, pk_ridExtensionId := 0, pk_rridExtensionId := 0,
     pk_absSendTimeExtensionId := 0, pk_transportWideCc01ExtensionId := 0,
     pk_frameMarking07ExtensionId := 0, pk_frameMarkingExtensionId := 0,
     pk_ssrcAudioLevelExtensionId := 0, pk_videoOrientationExtensionId := 0,
     pk_oneByteExtensions := Some (replicate 14 None), pk_mapTwoBytesExtensions := Map.empty\<rparr>"

text \<open>The move of the payload; \<^verbatim>\<open>shift\<close> is an \<^verbatim>\<open>int16_t\<close>.\<close>

definition shift_payload :: "16 word \<Rightarrow> 'h packet \<Rightarrow> 'h packet option" where
  "shift_payload shift p =
     (let payload = int (pk_payload p) + sint shift
      in if payload < 0 then None
         else do {
           mem \<leftarrow> memmove (pk_mem p) (nat payload) (pk_payload p)
                    (pk_payloadLength p + unat (pk_payloadPadding p));
           Some (p\<lparr>pk_mem := mem, pk_payload := nat payload,
                   pk_size := nat (int (pk_size p) + sint shift)\<rparr>) })"

fun write_extensions ::
  "u8 \<Rightarrow> generic_extension list \<Rightarrow> 'h packet \<Rightarrow> nat \<Rightarrow> ('h packet \<times> nat) option" where
  "write_extensions ty [] p ptr = Some (p, ptr)"
| "write_extensions ty (e # es) p ptr =
     (if skip_extension ty e then write_extensions ty es p ptr
      else if ty = 1 then do {
        entries \<leftarrow> pk_oneByteExtensions p;
        mem \<leftarrow> Set1Byte (pk_mem p) ptr (push_bit 4 (ge_id e) OR ((ge_len e - 1) AND 0x0F));
        bs \<leftarrow> read_bytes (ge_value e) 0 (unat (ge_len e));
        mem \<leftarrow> write_bytes mem (ptr + 1) bs;
        write_extensions ty es
          (p\<lparr>pk_mem := mem,
             pk_oneByteExtensions := Some (entries[unat (ge_id e) - 1 := Some ptr])\<rparr>)
          (ptr + 1 + unat (ge_len e)) }
      else do {
        mem \<leftarrow> Set1Byte (pk_mem p) ptr (ge_id e);
        mem \<leftarrow> Set1Byte mem (ptr + 1) (ge_len e);
        bs \<leftarrow> read_bytes (ge_value e) 0 (unat (ge_len e));
        mem \<leftarrow> write_bytes mem (ptr + 2) bs;
        write_extensions ty es
          (p\<lparr>pk_mem := mem,
             pk_mapTwoBytesExtensions := (pk_mapTwoBytesExtensions p)(ge_id e \<mapsto> ptr)\<rparr>)
          (ptr + 2 + unat (ge_len e)) })"

text \<open>Makes room for extensions of \<open>room\<close> bytes in all, padding included.\<close>

definition resize_extensions :: "u8 \<Rightarrow> nat \<Rightarrow> 'h packet \<Rightarrow> 'h packet option" where
  "resize_extensions ty room p =
     (case pk_headerExtension p of
        Some h \<Rightarrow> do {
          len \<leftarrow> GetHeaderExtensionLength p;
          (let shift = of_nat room - of_nat len
           in if shift = 0 then Some p
              else do {
                p \<leftarrow> shift_payload shift p;
                with_mem p (Set2Bytes (pk_mem p) (h + 2) (of_nat (room div 4))) }) }
      | None \<Rightarrow> do {
          b0 \<leftarrow> Get1Byte (pk_mem p) 0;
          p \<leftarrow> with_mem p (Set1Byte (pk_mem p) 0 (set_bit 4 b0));
          (let h = pk_payload p; p = p\<lparr>pk_headerExtension := Some h\<rparr>
           in do {
             p \<leftarrow> shift_payload (4 + of_nat room) p;
             p \<leftarrow> with_mem p (Set2Bytes (pk_mem p) h (extension_id ty));
             with_mem p (Set2Bytes (pk_mem p) (h + 2) (of_nat (room div 4))) }) })"

text \<open>Resets ids and tables, and gives an existing header extension the id of the kind.\<close>

definition start_extensions :: "u8 \<Rightarrow> 'h packet \<Rightarrow> 'h packet option" where
  "start_extensions ty p = do {
     one \<leftarrow> HasOneByteExtensions p;
     two \<leftarrow> HasTwoBytesExtensions p;
     (if (ty = 1 \<and> one) \<or> (ty = 2 \<and> two) then Some (reset_extensions p)
      else (case pk_headerExtension p of
              None \<Rightarrow> Some (reset_extensions p)
            | Some h \<Rightarrow> with_mem (reset_extensions p)
                          (Set2Bytes (pk_mem p) h (extension_id ty)))) }"

definition SetExtensions :: "u8 \<Rightarrow> generic_extension list \<Rightarrow> 'h packet \<Rightarrow> 'h packet option" where
  "SetExtensions ty extensions p =
     (if ty \<noteq> 1 \<and> ty \<noteq> 2 then None
      else do {
        p \<leftarrow> start_extensions ty p;
        (let extensionsTotalSize = sum_list (map (extension_size ty) extensions);
             padded = unat (PadTo4Bytes16 (of_nat extensionsTotalSize));
             padding = of_nat padded - of_nat extensionsTotalSize :: u64
         in do {
           p \<leftarrow> resize_extensions ty padded p;
           h \<leftarrow> pk_headerExtension p;
           (p, ptr) \<leftarrow> write_extensions ty extensions p (h + 4);
           (if ptr + unat padding \<noteq> pk_payload p then None
            else with_mem p (write_bytes (pk_mem p) ptr (replicate (unat padding) 0))) }) })"

definition SetExtensionLength :: "u8 \<Rightarrow> u8 \<Rightarrow> 'h packet \<Rightarrow> (bool \<times> 'h packet) option" where
  "SetExtensionLength i len p =
     (if len = 0 then Some (False, p)
      else if i = 0 then Some (False, p)
      else do {
        one \<leftarrow> HasOneByteExtensions p;
        two \<leftarrow> HasTwoBytesExtensions p;
        (if one then do {
           entry \<leftarrow> one_byte_entry p i;
           (case entry of
              None \<Rightarrow> Some (False, p)
            | Some q \<Rightarrow> do {
                b \<leftarrow> Get1Byte (pk_mem p) q;
                (let currentLen = unat (b AND 0x0F) + 1
                 in do {
                   mem \<leftarrow> (if unat len < currentLen
                          then write_bytes (pk_mem p) (q + 1 + unat len)
                                 (replicate (currentLen - unat len) 0)
                          else Some (pk_mem p));
                   p \<leftarrow> with_mem p (Set1Byte mem q ((b AND 0xF0) OR ((len - 1) AND 0x0F)));
                   Some (True, p) }) }) }
         else if two then
           (case pk_mapTwoBytesExtensions p i of
              None \<Rightarrow> Some (False, p)
            | Some q \<Rightarrow> do {
                currentLen \<leftarrow> Get1Byte (pk_mem p) (q + 1);
                mem \<leftarrow> (if len < currentLen
                       then write_bytes (pk_mem p) (q + 2 + unat len)
                              (replicate (unat currentLen - unat len) 0)
                       else Some (pk_mem p));
                p \<leftarrow> with_mem p (Set1Byte mem (q + 1) len);
                Some (True, p) })
         else Some (False, p)) })"

definition UpdateMid :: "bytes \<Rightarrow> 'h packet \<Rightarrow> 'h packet option" where
  "UpdateMid mid p = do {
     (extenValue, extenLen) \<leftarrow> GetExtension p (pk_midExtensionId p);
     (case extenValue of
        None \<Rightarrow> Some p
      | Some v \<Rightarrow>
          if length mid > MidMaxLength then Some p
          else do {
            p \<leftarrow> with_mem p (write_bytes (pk_mem p) v mid);
            map_option snd (SetExtensionLength (pk_midExtensionId p) (of_nat (length mid)) p) }) }"

subsection \<open>Rewriting the payload\<close>

definition SetPayloadLength :: "nat \<Rightarrow> 'h packet \<Rightarrow> 'h packet option" where
  "SetPayloadLength len p =
     (let len = unat (PadTo4Bytes16 (of_nat len))
      in SetPayloadPaddingFlag False
           (p\<lparr>pk_size := pk_size p - pk_payloadLength p - unat (pk_payloadPadding p) + len,
              pk_payloadLength := len, pk_payloadPadding := 0\<rparr>))"

text \<open>The ids and the handler a clone takes over.\<close>

definition keep_ids :: "'h packet \<Rightarrow> 'h packet \<Rightarrow> 'h packet" where
  "keep_ids p packet = packet\<lparr>
     pk_midExtensionId := pk_midExtensionId p,
     pk_ridExtensionId := pk_ridExtensionId p,
     pk_rridExtensionId := pk_rridExtensionId p,
     pk_absSendTimeExtensionId := pk_absSendTimeExtensionId p,
     pk_transportWideCc01ExtensionId := pk_transportWideCc01ExtensionId p,
     pk_frameMarking07ExtensionId := pk_frameMarking07ExtensionId p,
     pk_frameMarkingExtensionId := pk_frameMarkingExtensionId p,
     pk_ssrcAudioLevelExtensionId := pk_ssrcAudioLevelExtensionId p,
     pk_videoOrientationExtensionId := pk_videoOrientationExtensionId p,
     pk_payloadDescriptorHandler := pk_payloadDescriptorHandler p\<rparr>"

text \<open>
  The clone gets a buffer of its own, of a fixed size whatever the size of the packet; the bytes
  it contains before the copy are indeterminate, \<open>fresh\<close>. A write past its end is \<open>None\<close>.
\<close>

definition Clone :: "(nat \<Rightarrow> u8) \<Rightarrow> 'h packet \<Rightarrow> 'h packet option" where
  "Clone fresh p = do {
     bs \<leftarrow> read_bytes (pk_mem p) 0 HeaderSize;
     mem \<leftarrow> write_bytes (map fresh [0..<MtuSize + 100]) 0 bs;
     b0 \<leftarrow> Get1Byte (pk_mem p) 0;
     (mem, ptr) \<leftarrow>
       (case pk_csrcList p of
          None \<Rightarrow> Some (mem, HeaderSize)
        | Some c \<Rightarrow> do {
            bs \<leftarrow> read_bytes (pk_mem p) c (csrcCount b0 * 4);
            mem \<leftarrow> write_bytes mem HeaderSize bs;
            Some (mem, HeaderSize + csrcCount b0 * 4) });
     (mem, newHeaderExtension, ptr) \<leftarrow>
       (case pk_headerExtension p of
          None \<Rightarrow> Some (mem, None, ptr)
        | Some h \<Rightarrow> do {
            len \<leftarrow> GetHeaderExtensionLength p;
            bs \<leftarrow> read_bytes (pk_mem p) h (4 + len);
            mem \<leftarrow> write_bytes mem ptr bs;
            Some (mem, Some ptr, ptr + (4 + len)) });
     bs \<leftarrow> read_bytes (pk_mem p) (pk_payload p) (pk_payloadLength p);
     mem \<leftarrow> write_bytes mem ptr bs;
     mem \<leftarrow>
       (if pk_payloadPadding p \<noteq> 0
        then Set1Byte mem (ptr + pk_payloadLength p + unat (pk_payloadPadding p) - 1)
               (pk_payloadPadding p)
        else Some mem);
     (if ptr + pk_payloadLength p + unat (pk_payloadPadding p) \<noteq> pk_size p then None
      else do {
        packet \<leftarrow> RtpPacket_new mem newHeaderExtension ptr (pk_payloadLength p)
                   (pk_payloadPadding p) (pk_size p);
        Some (keep_ids p packet) }) }"

text \<open>The last step of both RTX operations.\<close>

definition remove_padding :: "'h packet \<Rightarrow> 'h packet option" where
  "remove_padding p =
     (if pk_payloadPadding p \<noteq> 0
      then do {
        p \<leftarrow> SetPayloadPaddingFlag False p;
        Some (p\<lparr>pk_size := pk_size p - unat (pk_payloadPadding p), pk_payloadPadding := 0\<rparr>) }
      else Some p)"

definition RtxEncode :: "u8 \<Rightarrow> u32 \<Rightarrow> u16 \<Rightarrow> 'h packet \<Rightarrow> 'h packet option" where
  "RtxEncode payloadType ssrc seq p = do {
     p \<leftarrow> SetPayloadType payloadType p;
     p \<leftarrow> SetSsrc ssrc p;
     mem \<leftarrow> memmove (pk_mem p) (pk_payload p + 2) (pk_payload p) (pk_payloadLength p);
     original \<leftarrow> GetSequenceNumber p;
     mem \<leftarrow> Set2Bytes mem (pk_payload p) original;
     p \<leftarrow> SetSequenceNumber seq (p\<lparr>pk_mem := mem\<rparr>);
     remove_padding
       (p\<lparr>pk_payloadLength := pk_payloadLength p + 2, pk_size := pk_size p + 2\<rparr>) }"

definition RtxDecode :: "u8 \<Rightarrow> u32 \<Rightarrow> 'h packet \<Rightarrow> (bool \<times> 'h packet) option" where
  "RtxDecode payloadType ssrc p =
     (if pk_payloadLength p < 2 then Some (False, p)
      else do {
        p \<leftarrow> SetPayloadType payloadType p;
        seq \<leftarrow> Get2Bytes (pk_mem p) (pk_payload p);
        p \<leftarrow> SetSequenceNumber seq p;
        p \<leftarrow> SetSsrc ssrc p;
        mem \<leftarrow> memmove (pk_mem p) (pk_payload p) (pk_payload p + 2) (pk_payloadLength p - 2);
        p \<leftarrow> remove_padding
          (p\<lparr>pk_mem := mem, pk_payloadLength := pk_payloadLength p - 2, pk_size := pk_size p - 2\<rparr>);
        Some (True, p) })"

definition ShiftPayload :: "nat \<Rightarrow> nat \<Rightarrow> bool \<Rightarrow> 'h packet \<Rightarrow> 'h packet option" where
  "ShiftPayload payloadOffset shift expand p =
     (if shift = 0 then Some p
      else if \<not> payloadOffset < pk_payloadLength p then None
      else if \<not> expand \<and> \<not> shift \<le> pk_payloadLength p - payloadOffset then None
      else
        let ptr = pk_payload p + payloadOffset;
            rest = pk_payloadLength p + unat (pk_payloadPadding p) - payloadOffset
        in if expand
           then do {
             mem \<leftarrow> memmove (pk_mem p) (ptr + shift) ptr rest;
             Some (p\<lparr>pk_mem := mem, pk_payloadLength := pk_payloadLength p + shift,
                     pk_size := pk_size p + shift\<rparr>) }
           else do {
             mem \<leftarrow> memmove (pk_mem p) ptr (ptr + shift) (rest - shift);
             Some (p\<lparr>pk_mem := mem, pk_payloadLength := pk_payloadLength p - shift,
                     pk_size := pk_size p - shift\<rparr>) })"

text \<open>
  The codec's handler reads and rewrites the memory from the payload on; \<open>process\<close> and \<open>restore\<close>
  are its virtual methods.
\<close>

definition ProcessPayload ::
  "('h \<Rightarrow> 'c \<Rightarrow> bytes \<Rightarrow> nat \<Rightarrow> bool \<Rightarrow> (bool \<times> 'h \<times> 'c \<times> bytes \<times> bool) option)
     \<Rightarrow> 'c \<Rightarrow> bool \<Rightarrow> 'h packet \<Rightarrow> (bool \<times> 'h packet \<times> 'c \<times> bool) option" where
  "ProcessPayload process context marker p =
     (case pk_payloadDescriptorHandler p of
        None \<Rightarrow> Some (True, p, context, marker)
      | Some handler \<Rightarrow> do {
          (ok, handler, context, mem, marker) \<leftarrow>
            process handler context (pk_mem p) (pk_payload p) marker;
          Some (ok, p\<lparr>pk_mem := mem, pk_payloadDescriptorHandler := Some handler\<rparr>, context, marker) })"

definition RestorePayload ::
  "('h \<Rightarrow> bytes \<Rightarrow> nat \<Rightarrow> bytes option) \<Rightarrow> 'h packet \<Rightarrow> 'h packet option" where
  "RestorePayload restore p =
     (case pk_payloadDescriptorHandler p of
        None \<Rightarrow> Some p
      | Some handler \<Rightarrow> with_mem p (restore handler (pk_mem p) (pk_payload p)))"

subsection \<open>Extension ids\<close>

definition SetMidExtensionId :: "u8 \<Rightarrow> 'h packet \<Rightarrow> 'h packet" where
  "SetMidExtensionId i p = p\<lparr>pk_midExtensionId := i\<rparr>"

definition SetRidExtensionId :: "u8 \<Rightarrow> 'h packet \<Rightarrow> 'h packet" where
  "SetRidExtensionId i p = p\<lparr>pk_ridExtensionId := i\<rparr>"

definition SetRepairedRidExtensionId :: "u8 \<Rightarrow> 'h packet \<Rightarrow> 'h packet" where
  "SetRepairedRidExtensionId i p = p\<lparr>pk_rridExtensionId := i\<rparr>"

definition SetAbsSendTimeExtensionId :: "u8 \<Rightarrow> 'h packet \<Rightarrow> 'h packet" where
  "SetAbsSendTimeExtensionId i p = p\<lparr>pk_absSendTimeExtensionId := i\<rparr>"

definition SetTransportWideCc01ExtensionId :: "u8 \<Rightarrow> 'h packet \<Rightarrow> 'h packet" where
  "SetTransportWideCc01ExtensionId i p = p\<lparr>pk_transportWideCc01ExtensionId := i\<rparr>"

definition SetFrameMarking07ExtensionId :: "u8 \<Rightarrow> 'h packet \<Rightarrow> 'h packet" where
  "SetFrameMarking07ExtensionId i p = p\<lparr>pk_frameMarking07ExtensionId := i\<rparr>"

definition SetFrameMarkingExtensionId :: "u8 \<Rightarrow> 'h packet \<Rightarrow> 'h packet" where
  "SetFrameMarkingExtensionId i p = p\<lparr>pk_frameMarkingExtensionId := i\<rparr>"

definition SetSsrcAudioLevelExtensionId :: "u8 \<Rightarrow> 'h packet \<Rightarrow> 'h packet" where
  "SetSsrcAudioLevelExtensionId i p = p\<lparr>pk_ssrcAudioLevelExtensionId := i\<rparr>"

definition SetVideoOrientationExtensionId :: "u8 \<Rightarrow> 'h packet \<Rightarrow> 'h packet" where
  "SetVideoOrientationExtensionId i p = p\<lparr>pk_videoOrientationExtensionId := i\<rparr>"

definition GetPayload :: "'h packet \<Rightarrow> nat option" where
  "GetPayload p = (if pk_payloadLength p \<noteq> 0 then Some (pk_payload p) else None)"

definition SetPayloadDescriptorHandler :: "'h option \<Rightarrow> 'h packet \<Rightarrow> 'h packet" where
  "SetPayloadDescriptorHandler handler p = p\<lparr>pk_payloadDescriptorHandler := handler\<rparr>"

text \<open>\<open>getSpatialLayer\<close>, \<open>getTemporalLayer\<close> and \<open>isKeyFrame\<close> are virtual methods of the handler.\<close>

definition GetSpatialLayer :: "('h \<Rightarrow> u8) \<Rightarrow> 'h packet \<Rightarrow> u8" where
  "GetSpatialLayer getSpatialLayer p =
     (case pk_payloadDescriptorHandler p of None \<Rightarrow> 0 | Some handler \<Rightarrow> getSpatialLayer handler)"

definition GetTemporalLayer :: "('h \<Rightarrow> u8) \<Rightarrow> 'h packet \<Rightarrow> u8" where
  "GetTemporalLayer getTemporalLayer p =
     (case pk_payloadDescriptorHandler p of None \<Rightarrow> 0 | Some handler \<Rightarrow> getTemporalLayer handler)"

definition IsKeyFrame :: "('h \<Rightarrow> bool) \<Rightarrow> 'h packet \<Rightarrow> bool" where
  "IsKeyFrame isKeyFrame p =
     (case pk_payloadDescriptorHandler p of None \<Rightarrow> False | Some handler \<Rightarrow> isKeyFrame handler)"

end
