(* ===== verification/RtpPacketSafety.thy ===== *)
theory RtpPacketSafety
  imports RtpPacket
begin

unbundle bit_operations_syntax

text \<open>
  The invariant of \<^verbatim>\<open>RTC::RtpPacket\<close> and that every operation keeps it. The pointers of the class
  agree with the bytes in memory, the elements of the header extension lie inside it and do not
  overlap, and the sizes add up. A packet that satisfies it parses back to itself.
\<close>

section \<open>The invariant\<close>

text \<open>Both tables of extension elements as one map.\<close>

definition entries_map :: "nat option list \<Rightarrow> u8 \<rightharpoonup> nat" where
  "entries_map es i = (if i = 0 \<or> i > 14 then None else es ! (unat i - 1))"

definition element_end :: "bool \<Rightarrow> bytes \<Rightarrow> nat \<Rightarrow> nat" where
  "element_end two mem q =
     q + 2 + (if two then unat (mem ! (q + 1)) else unat (mem ! q AND 0x0F))"

definition table_ok :: "bool \<Rightarrow> bytes \<Rightarrow> nat \<Rightarrow> nat \<Rightarrow> (u8 \<rightharpoonup> nat) \<Rightarrow> bool" where
  "table_ok two mem lo hi t \<longleftrightarrow>
     (\<forall>i q. t i = Some q \<longrightarrow> lo \<le> q \<and> element_end two mem q \<le> hi) \<and>
     (\<forall>i j q r. t i = Some q \<longrightarrow> t j = Some r \<longrightarrow> i \<noteq> j
        \<longrightarrow> element_end two mem q \<le> r \<or> element_end two mem r \<le> q)"

definition tables_ok :: "'h packet \<Rightarrow> nat \<Rightarrow> bool" where
  "tables_ok p h \<longleftrightarrow>
     (HasOneByteExtensions p = Some True \<longrightarrow>
        (\<exists>es. pk_oneByteExtensions p = Some es \<and> length es = 14 \<and>
              table_ok False (pk_mem p) (h + 4) (pk_payload p) (entries_map es))) \<and>
     (HasTwoBytesExtensions p = Some True \<longrightarrow>
        table_ok True (pk_mem p) (h + 4) (pk_payload p) (pk_mapTwoBytesExtensions p))"

text \<open>Header and header extension, up to the payload.\<close>

definition csrc_end :: "bytes \<Rightarrow> nat" where
  "csrc_end mem = HeaderSize + csrcCount (mem ! 0) * 4"

definition frame_ok :: "'h packet \<Rightarrow> bool" where
  "frame_ok p \<longleftrightarrow>
     pk_payload p \<le> length (pk_mem p) \<and>
     version_bits (pk_mem p ! 0) = 2 \<and>
     pk_csrcList p = (if csrcCount (pk_mem p ! 0) \<noteq> 0 then Some HeaderSize else None) \<and>
     extension_bit (pk_mem p ! 0) = (pk_headerExtension p \<noteq> None) \<and>
     (case pk_headerExtension p of
        None \<Rightarrow> pk_payload p = csrc_end (pk_mem p)
      | Some h \<Rightarrow> h = csrc_end (pk_mem p) \<and> h + 4 \<le> pk_payload p \<and>
          GetHeaderExtensionLength p = Some (pk_payload p - (h + 4)))"

definition layout_ok :: "'h packet \<Rightarrow> bool" where
  "layout_ok p \<longleftrightarrow> frame_ok p \<and> (\<forall>h. pk_headerExtension p = Some h \<longrightarrow> tables_ok p h)"

text \<open>Payload and padding.\<close>

definition tail_ok :: "'h packet \<Rightarrow> bool" where
  "tail_ok p \<longleftrightarrow>
     pk_size p = pk_payload p + pk_payloadLength p + unat (pk_payloadPadding p) \<and>
     pk_size p \<le> length (pk_mem p) \<and>
     padding_bit (pk_mem p ! 0) = (pk_payloadPadding p \<noteq> 0) \<and>
     (pk_payloadPadding p \<noteq> 0 \<longrightarrow> pk_mem p ! (pk_size p - 1) = pk_payloadPadding p)"

definition packet_ok :: "'h packet \<Rightarrow> bool" where
  "packet_ok p \<longleftrightarrow> layout_ok p \<and> tail_ok p"

section \<open>Memory\<close>

lemma Get1Byte_Some_iff: "Get1Byte mem i = Some b \<longleftrightarrow> i < length mem \<and> b = mem ! i"
  by (auto simp: Get1Byte_def)

lemma Get1Byte_in [simp]: "i < length mem \<Longrightarrow> Get1Byte mem i = Some (mem ! i)"
  by (simp add: Get1Byte_def)

lemma Set1Byte_in [simp]: "i < length mem \<Longrightarrow> Set1Byte mem i b = Some (mem[i := b])"
  by (simp add: Set1Byte_def)

lemma Get2Bytes_in: "i + 1 < length mem \<Longrightarrow>
  Get2Bytes mem i = Some (ucast (mem ! (i + 1)) OR push_bit 8 (ucast (mem ! i)))"
  by (simp add: Get2Bytes_def)

lemma Get2Bytes_cong:
  assumes "mem ! i = mem' ! i" and "mem ! (i + 1) = mem' ! (i + 1)"
    and "i + 1 < length mem" and "i + 1 < length mem'"
  shows "Get2Bytes mem i = Get2Bytes mem' i"
  using assms by (simp add: Get2Bytes_in)

lemma read_bytes_in [simp]:
  "src + n \<le> length mem \<Longrightarrow> read_bytes mem src n = Some (take n (drop src mem))"
  by (simp add: read_bytes_def)

text \<open>The memory after a write, byte by byte.\<close>

definition written :: "bytes \<Rightarrow> nat \<Rightarrow> bytes \<Rightarrow> bytes" where
  "written mem dst bs = take dst mem @ bs @ drop (dst + length bs) mem"

lemma length_written: "dst + length bs \<le> length mem \<Longrightarrow> length (written mem dst bs) = length mem"
  by (simp add: written_def)

lemma nth_written:
  "dst + length bs \<le> length mem \<Longrightarrow> j < length mem \<Longrightarrow>
   written mem dst bs ! j = (if dst \<le> j \<and> j < dst + length bs then bs ! (j - dst) else mem ! j)"
  by (auto simp: written_def nth_append)

lemma written_outside:
  "dst + length bs \<le> length mem \<Longrightarrow> j < length mem \<Longrightarrow> j < dst \<or> dst + length bs \<le> j \<Longrightarrow>
   written mem dst bs ! j = mem ! j"
  by (auto simp: nth_written)

lemma memmove_in:
  "src + n \<le> length mem \<Longrightarrow> dst + n \<le> length mem \<Longrightarrow>
   memmove mem dst src n = Some (written mem dst (take n (drop src mem)))"
  by (simp add: memmove_def written_def write_bytes_def)

lemma write_bytes_written:
  "dst + length bs \<le> length mem \<Longrightarrow> write_bytes mem dst bs = Some (written mem dst bs)"
  by (simp add: written_def write_bytes_def)

lemma Set2Bytes_written:
  "i + 2 \<le> length mem \<Longrightarrow> Set2Bytes mem i v = Some (written mem i (enc2 v))"
  using byte2.set_eq [of mem i v] byte2.enc_length [of v] by (simp add: written_def)

lemma Set4Bytes_written:
  "i + 4 \<le> length mem \<Longrightarrow> Set4Bytes mem i v = Some (written mem i (enc4 v))"
  using byte4.set_eq [of mem i v] byte4.enc_length [of v] by (simp add: written_def)

lemma Get2Bytes_written:
  "i + 2 \<le> length mem \<Longrightarrow> Get2Bytes (written mem i (enc2 v)) i = Some v"
  using byte2.get_enc_at [of "take i mem" i v "drop (i + length (enc2 v)) mem"]
  by (simp add: written_def)

lemma list_update_written: "i < length mem \<Longrightarrow> mem[i := b] = written mem i [b]"
  by (simp add: written_def upd_conv_take_nth_drop)

lemmas written_simps = length_written nth_written memmove_in write_bytes_written
  Set2Bytes_written Set4Bytes_written Get2Bytes_written byte2.enc_length byte4.enc_length

section \<open>Writes that keep the invariant\<close>

lemma low_nibble_mask: "(0x0F :: u8) = mask 4"
  by (simp add: mask_eq_exp_minus_1)

lemma write_bit_fields [simp]:
  "i = 4 \<or> i = 5 \<Longrightarrow> csrcCount (write_bit b i f) = csrcCount b"
  "i = 4 \<or> i = 5 \<Longrightarrow> version_bits (write_bit b i f) = version_bits b"
  "extension_bit (write_bit b i f) = (if i = 4 then f else extension_bit b)"
  "padding_bit (write_bit b i f) = (if i = 5 then f else padding_bit b)"
proof -
  assume i: "i = 4 \<or> i = 5"
  then have "write_bit b i f AND mask 4 = b AND mask 4"
    by (intro bit_word_eqI) (auto simp: write_bit_def bit_simps)
  then show "csrcCount (write_bit b i f) = csrcCount b"
    unfolding csrcCount_def low_nibble_mask by simp
  show "version_bits (write_bit b i f) = version_bits b"
    unfolding version_bits_def using i
    by (intro bit_word_eqI) (auto simp: write_bit_def bit_simps)
next
  show "extension_bit (write_bit b i f) = (if i = 4 then f else extension_bit b)"
    by (auto simp: extension_bit_def write_bit_def bit_simps)
  show "padding_bit (write_bit b i f) = (if i = 5 then f else padding_bit b)"
    by (auto simp: padding_bit_def write_bit_def bit_simps)
qed

lemma set_bit_4: "set_bit 4 b = write_bit b 4 True"
  by (simp add: write_bit_def)

lemma element_end_gt: "q + 1 < element_end two mem q"
  by (simp add: element_end_def)

lemma table_ok_cong:
  assumes "table_ok two mem lo hi t" and "\<And>j. lo \<le> j \<Longrightarrow> j < hi \<Longrightarrow> mem' ! j = mem ! j"
  shows "table_ok two mem' lo hi t"
proof -
  have "element_end two mem' q = element_end two mem q" if "t i = Some q" for i q
  proof -
    from assms(1) that have q: "lo \<le> q" "element_end two mem q \<le> hi" by (auto simp: table_ok_def)
    with element_end_gt [of q two mem] have "q + 1 < hi" by simp
    with q assms(2) [of q] assms(2) [of "q + 1"] show ?thesis by (simp add: element_end_def)
  qed
  with assms(1) show ?thesis by (simp add: table_ok_def)
qed

text \<open>What the layout is a function of.\<close>

definition same_pointers :: "'h packet \<Rightarrow> 'h packet \<Rightarrow> bool" where
  "same_pointers p p' \<longleftrightarrow>
     pk_csrcList p' = pk_csrcList p \<and> pk_headerExtension p' = pk_headerExtension p \<and>
     pk_oneByteExtensions p' = pk_oneByteExtensions p \<and>
     pk_mapTwoBytesExtensions p' = pk_mapTwoBytesExtensions p \<and> pk_payload p' = pk_payload p"

definition same_layout_bytes :: "bytes \<Rightarrow> bytes \<Rightarrow> nat \<Rightarrow> bool" where
  "same_layout_bytes mem mem' n \<longleftrightarrow> n \<le> length mem' \<and>
     csrcCount (mem' ! 0) = csrcCount (mem ! 0) \<and> version_bits (mem' ! 0) = version_bits (mem ! 0) \<and>
     extension_bit (mem' ! 0) = extension_bit (mem ! 0) \<and>
     (\<forall>j. HeaderSize \<le> j \<and> j < n \<longrightarrow> mem' ! j = mem ! j)"

lemma layout_header: "layout_ok p \<Longrightarrow> HeaderSize \<le> pk_payload p \<and> HeaderSize \<le> length (pk_mem p)"
  by (auto simp: layout_ok_def frame_ok_def csrc_end_def split: option.splits)

lemma extension_fields_cong:
  assumes "layout_ok p" and "same_pointers p p'"
    and "same_layout_bytes (pk_mem p) (pk_mem p') (pk_payload p)"
  shows "GetHeaderExtensionLength p' = GetHeaderExtensionLength p"
    and "GetHeaderExtensionId p' = GetHeaderExtensionId p"
proof -
  have "GetHeaderExtensionLength p' = GetHeaderExtensionLength p \<and>
    GetHeaderExtensionId p' = GetHeaderExtensionId p"
  proof (cases "pk_headerExtension p")
    case None
    with assms(2) show ?thesis
      by (simp add: same_pointers_def GetHeaderExtensionLength_def GetHeaderExtensionId_def)
  next
    case (Some h)
    with assms(1) have h: "HeaderSize \<le> h" "h + 4 \<le> pk_payload p" "pk_payload p \<le> length (pk_mem p)"
      by (auto simp: layout_ok_def frame_ok_def csrc_end_def)
    with assms(3) have "Get2Bytes (pk_mem p') i = Get2Bytes (pk_mem p) i" if "i = h \<or> i = h + 2" for i
      using that by (intro Get2Bytes_cong) (auto simp: same_layout_bytes_def)
    with Some assms(2) show ?thesis
      by (simp add: same_pointers_def GetHeaderExtensionLength_def GetHeaderExtensionId_def)
  qed
  then show "GetHeaderExtensionLength p' = GetHeaderExtensionLength p"
    and "GetHeaderExtensionId p' = GetHeaderExtensionId p" by simp_all
qed

lemma layout_ok_cong:
  assumes ok: "layout_ok p" and same: "same_pointers p p'"
    and bytes: "same_layout_bytes (pk_mem p) (pk_mem p') (pk_payload p)"
  shows "layout_ok p'"
proof -
  note fields = extension_fields_cong [OF assms]
  have "tables_ok p' h" if h: "pk_headerExtension p = Some h" for h
  proof -
    from ok h have t: "tables_ok p h" "HeaderSize \<le> h + 4" by (auto simp: layout_ok_def frame_ok_def csrc_end_def)
    have "table_ok two (pk_mem p') (h + 4) (pk_payload p) t"
      if "table_ok two (pk_mem p) (h + 4) (pk_payload p) t" for two t
      using that t(2) bytes by (intro table_ok_cong [OF that]) (auto simp: same_layout_bytes_def)
    with t(1) fields same show ?thesis
      by (auto simp: tables_ok_def same_pointers_def HasOneByteExtensions_def HasTwoBytesExtensions_def)
  qed
  with ok same bytes fields show ?thesis
    by (auto simp: layout_ok_def frame_ok_def same_pointers_def same_layout_bytes_def csrc_end_def split: option.splits)
qed

text \<open>A write inside the fixed header past its first byte.\<close>

lemma packet_ok_header_write:
  assumes ok: "packet_ok p" and i: "0 < i" "i + length bs \<le> HeaderSize"
  shows "packet_ok (p\<lparr>pk_mem := written (pk_mem p) i bs\<rparr>)" (is "packet_ok ?p")
proof -
  from ok have lay: "layout_ok p" and tail: "tail_ok p" by (simp_all add: packet_ok_def)
  from layout_header [OF lay] have n: "HeaderSize \<le> pk_payload p" "i + length bs \<le> length (pk_mem p)"
    "0 < length (pk_mem p)" "pk_payload p \<le> length (pk_mem p)"
    using i lay by (auto simp: HeaderSize_def layout_ok_def frame_ok_def)
  have "layout_ok ?p"
    by (rule layout_ok_cong [OF lay])
       (use i n in \<open>auto simp: same_pointers_def same_layout_bytes_def length_written nth_written\<close>)
  moreover have "tail_ok ?p"
    using tail i n by (auto simp: tail_ok_def length_written nth_written unat_gt_0 [symmetric])
  ultimately show ?thesis by (simp add: packet_ok_def)
qed

text \<open>A write after the start of the payload, together with new sizes.\<close>

lemma packet_ok_tail:
  assumes lay: "layout_ok p" and same: "same_pointers p p'"
    and len: "length (pk_mem p') = length (pk_mem p)"
    and head: "\<And>j. j < pk_payload p \<Longrightarrow> j \<noteq> 0 \<Longrightarrow> pk_mem p' ! j = pk_mem p ! j"
    and b0: "pk_mem p' ! 0 = pk_mem p ! 0 \<or> pk_mem p' ! 0 = write_bit (pk_mem p ! 0) 5 f"
    and tail: "tail_ok p'"
  shows "packet_ok p'"
proof -
  have "layout_ok p'"
    by (rule layout_ok_cong [OF lay same])
       (use b0 head len lay layout_header [OF lay] in \<open>auto simp: same_layout_bytes_def HeaderSize_def layout_ok_def frame_ok_def\<close>)
  with tail show ?thesis by (simp add: packet_ok_def)
qed

lemma SetPayloadType_ok:
  assumes "packet_ok p"
  shows "SetPayloadType t p =
      Some (p\<lparr>pk_mem := written (pk_mem p) 1 [(pk_mem p ! 1 AND 0x80) OR (t AND 0x7F)]\<rparr>)"
    and "packet_ok (p\<lparr>pk_mem := written (pk_mem p) 1 [b]\<rparr>)"
  using assms layout_header [of p] packet_ok_header_write [OF assms, of 1 "[b]"]
  by (auto simp: SetPayloadType_def with_mem_def packet_ok_def HeaderSize_def list_update_written)

lemma SetMarker_ok:
  assumes "packet_ok p"
  shows "SetMarker m p = Some (p\<lparr>pk_mem := written (pk_mem p) 1 [write_bit (pk_mem p ! 1) 7 m]\<rparr>)"
  using assms layout_header [of p]
  by (auto simp: SetMarker_def with_mem_def packet_ok_def HeaderSize_def list_update_written)

lemma SetSequenceNumber_ok:
  assumes "packet_ok p"
  shows "SetSequenceNumber v p = Some (p\<lparr>pk_mem := written (pk_mem p) 2 (enc2 v)\<rparr>)"
    and "packet_ok (p\<lparr>pk_mem := written (pk_mem p) 2 (enc2 v)\<rparr>)"
  using assms layout_header [of p] packet_ok_header_write [OF assms, of 2 "enc2 v"]
  by (auto simp: SetSequenceNumber_def with_mem_def packet_ok_def HeaderSize_def written_simps)

lemma SetTimestamp_ok:
  assumes "packet_ok p"
  shows "SetTimestamp v p = Some (p\<lparr>pk_mem := written (pk_mem p) 4 (enc4 v)\<rparr>)"
    and "packet_ok (p\<lparr>pk_mem := written (pk_mem p) 4 (enc4 v)\<rparr>)"
  using assms layout_header [of p] packet_ok_header_write [OF assms, of 4 "enc4 v"]
  by (auto simp: SetTimestamp_def with_mem_def packet_ok_def HeaderSize_def written_simps)

lemma SetSsrc_ok:
  assumes "packet_ok p"
  shows "SetSsrc v p = Some (p\<lparr>pk_mem := written (pk_mem p) 8 (enc4 v)\<rparr>)"
    and "packet_ok (p\<lparr>pk_mem := written (pk_mem p) 8 (enc4 v)\<rparr>)"
  using assms layout_header [of p] packet_ok_header_write [OF assms, of 8 "enc4 v"]
  by (auto simp: SetSsrc_def with_mem_def packet_ok_def HeaderSize_def written_simps)

section \<open>Parsing\<close>

lemma table_ok_empty [simp]: "table_ok two mem lo hi Map.empty" "table_ok two mem lo hi (\<lambda>i. None)"
  by (simp_all add: table_ok_def)

lemma table_ok_mono: "table_ok two mem lo hi t \<Longrightarrow> hi \<le> hi' \<Longrightarrow> table_ok two mem lo hi' t"
  by (fastforce simp: table_ok_def)

lemma table_ok_insert:
  assumes "table_ok two mem lo hi t" and "lo \<le> hi" and "hi \<le> q" and "element_end two mem q \<le> hi'"
  shows "table_ok two mem lo hi' (t(i \<mapsto> q))"
proof -
  have "q < element_end two mem q" by (simp add: element_end_def)
  with assms show ?thesis unfolding table_ok_def
    by (auto split: if_splits) (meson le_trans nat_less_le order.strict_trans1)+
qed

lemma entries_map_update:
  assumes "length es = 14" and "i \<noteq> 0" and "i \<le> 14"
  shows "entries_map (es[unat i - 1 := Some q]) = (entries_map es)(i \<mapsto> q)"
proof
  fix j
  have i: "0 < unat i" "unat i \<le> 14"
    using assms(2,3) by (simp_all add: unat_gt_0 word_le_nat_alt)
  show "entries_map (es[unat i - 1 := Some q]) j = ((entries_map es)(i \<mapsto> q)) j"
  proof (cases "j = 0 \<or> j > 14")
    case True
    with assms show ?thesis by (auto simp: entries_map_def)
  next
    case False
    then have j: "0 < unat j" "unat j \<le> 14" by (auto simp: unat_gt_0 word_less_nat_alt)
    have "i = j \<longleftrightarrow> unat i - 1 = unat j - 1"
    proof
      assume "unat i - 1 = unat j - 1"
      with i(1) j(1) have "unat i = unat j" by linarith
      then show "i = j" by (simp only: word_unat_eq_iff)
    qed simp
    with assms i j False show ?thesis by (auto simp: entries_map_def nth_list_update)
  qed
qed

lemma entries_map_replicate [simp]: "entries_map (replicate 14 None) = (\<lambda>i. None)"
proof
  fix i :: u8
  show "entries_map (replicate 14 None) i = None"
  proof (cases "i = 0 \<or> i > 14")
    case False
    then have "unat i - 1 < 14" by (auto simp: word_less_nat_alt)
    then show ?thesis by (simp add: entries_map_def)
  qed (auto simp: entries_map_def)
qed

lemma skip_padding_total:
  assumes "stop \<le> length mem" and "ptr \<le> stop"
  shows "\<exists>r. skip_padding mem stop ptr = Some r \<and> ptr \<le> r \<and> r \<le> stop"
  using assms
proof (induction mem stop ptr rule: skip_padding.induct)
  case (1 mem stop ptr)
  show ?case
  proof (cases "ptr < stop \<and> mem ! ptr = 0")
    case True
    with 1 have "\<exists>r. skip_padding mem stop (ptr + 1) = Some r \<and> ptr + 1 \<le> r \<and> r \<le> stop" by simp
    with True 1(2) show ?thesis unfolding skip_padding.simps [of mem stop ptr] by auto
  next
    case False
    with 1(2,3) show ?thesis unfolding skip_padding.simps [of mem stop ptr] by auto
  qed
qed

lemma high_nibble_bound: "unat (drop_bit 4 b :: u8) < 16"
proof -
  have "unat (drop_bit 4 b) = drop_bit 4 (unat b)"
    by (simp only: unsigned_drop_bit_eq take_bit_nat_eq_self [OF unsigned_less])
  moreover have "unat b < 256" using unsigned_less [of b] by simp
  ultimately show ?thesis by (simp add: drop_bit_eq_div)
qed

lemma high_nibble_le:
  assumes "drop_bit 4 b \<noteq> (15 :: u8)"
  shows "drop_bit 4 b \<le> (14 :: u8)"
proof -
  from assms have "unat (drop_bit 4 b) \<noteq> 15" by (simp add: word_unat_eq_iff)
  with high_nibble_bound [of b] show ?thesis by (simp only: word_le_nat_alt) simp
qed

lemma parse_one_byte_ok:
  assumes "stop \<le> length mem" and "lo \<le> ptr" and "ptr \<le> stop" and "length es = 14"
    and "table_ok False mem lo ptr (entries_map es)"
  shows "\<exists>es'. parse_one_byte mem stop ptr es = Some es' \<and> length es' = 14 \<and>
    table_ok False mem lo stop (entries_map es')"
  using assms
proof (induction mem stop ptr es rule: parse_one_byte.induct)
  case (1 mem stop ptr es)
  note unfold = parse_one_byte.simps [of mem stop ptr es]
  let ?i = "drop_bit 4 (mem ! ptr AND 0xF0)" and ?len = "unat (mem ! ptr AND 0x0F) + 1"
  let ?ptr = "if ?i \<noteq> 0 then ptr + (1 + ?len) else ptr + 1"
  let ?es = "if ?i \<noteq> 0 then es[unat ?i - 1 := Some ptr] else es"
  show ?case
  proof (cases "ptr < stop \<and> ?i \<noteq> 15 \<and> (?i \<noteq> 0 \<longrightarrow> ptr + 1 + ?len \<le> stop)")
    case False
    then have "parse_one_byte mem stop ptr es = Some es"
      unfolding unfold using 1(2,4) by (auto simp: Let_def)
    with 1(4-6) show ?thesis by (auto intro: table_ok_mono)
  next
    case True
    then have "?ptr \<le> stop" by auto
    then obtain r where r: "skip_padding mem stop ?ptr = Some r" "?ptr \<le> r" "r \<le> stop"
      using skip_padding_total [OF 1(2)] by blast
    have "?i \<le> 14" using True by (intro high_nibble_le) simp
    then have "table_ok False mem lo ?ptr (entries_map ?es)"
      using table_ok_insert [OF 1(6), of ptr "ptr + (1 + ?len)" ?i] table_ok_mono [OF 1(6)] 1(3)
        entries_map_update [OF 1(5), of ?i ptr]
      by (auto simp: element_end_def)
    then have t: "table_ok False mem lo r (entries_map ?es)" by (rule table_ok_mono) (rule r(2))
    have "\<exists>es'. parse_one_byte mem stop r ?es = Some es' \<and> length es' = 14 \<and>
      table_ok False mem lo stop (entries_map es')"
      by (rule 1(1) [of "mem ! ptr" ?i ?len r])
         (use True r 1(2,3,5) t in \<open>auto split: if_splits\<close>)
    moreover have "parse_one_byte mem stop ptr es = parse_one_byte mem stop r ?es"
      unfolding unfold using True r(1) 1(2) by (cases "?i = 0") (simp_all add: Let_def)
    ultimately show ?thesis by simp
  qed
qed

lemma parse_two_bytes_ok:
  assumes "stop \<le> length mem" and "lo \<le> ptr" and "ptr \<le> stop" and "table_ok True mem lo ptr t"
  shows "\<exists>t'. parse_two_bytes mem stop ptr t = Some t' \<and> table_ok True mem lo stop t'"
  using assms
proof (induction mem stop ptr t rule: parse_two_bytes.induct)
  case (1 mem stop ptr t)
  note unfold = parse_two_bytes.simps [of mem stop ptr t]
  let ?i = "mem ! ptr" and ?len = "mem ! (ptr + 1)"
  let ?ptr = "if ?i \<noteq> 0 then ptr + (2 + unat ?len) else ptr + 1"
  let ?t = "if ?i \<noteq> 0 then t(?i \<mapsto> ptr) else t"
  show ?case
  proof (cases "ptr + 1 < stop \<and> (?i \<noteq> 0 \<longrightarrow> ptr + 2 + unat ?len \<le> stop)")
    case False
    then have "parse_two_bytes mem stop ptr t = Some t"
      unfolding unfold using 1(2) by auto
    with 1(4-5) show ?thesis by (auto intro: table_ok_mono)
  next
    case True
    then have "?ptr \<le> stop" by auto
    then obtain r where r: "skip_padding mem stop ?ptr = Some r" "?ptr \<le> r" "r \<le> stop"
      using skip_padding_total [OF 1(2)] by blast
    have "table_ok True mem lo ?ptr ?t"
      using table_ok_insert [OF 1(5), of ptr "ptr + (2 + unat ?len)" ?i] table_ok_mono [OF 1(5)] 1(3)
      by (auto simp: element_end_def)
    then have t: "table_ok True mem lo r ?t" by (rule table_ok_mono) (rule r(2))
    have "\<exists>t'. parse_two_bytes mem stop r ?t = Some t' \<and> table_ok True mem lo stop t'"
      by (rule 1(1) [of ?i ?len r]) (use True r 1(2,3) t in \<open>auto split: if_splits\<close>)
    moreover have "parse_two_bytes mem stop ptr t = parse_two_bytes mem stop r ?t"
      unfolding unfold using True r(1) 1(2) by (cases "?i = 0") simp_all
    ultimately show ?thesis by simp
  qed
qed

lemma extension_kinds:
  "HasOneByteExtensions p = Some True \<Longrightarrow> HasTwoBytesExtensions p = Some False"
  by (auto simp: HasOneByteExtensions_def HasTwoBytesExtensions_def)

text \<open>\<open>p'\<close> is \<open>p\<close> up to the tables.\<close>

definition up_to_tables :: "'h packet \<Rightarrow> 'h packet \<Rightarrow> bool" where
  "up_to_tables p p' \<longleftrightarrow> (\<exists>es t. p' = p\<lparr>pk_oneByteExtensions := es, pk_mapTwoBytesExtensions := t\<rparr>)"

lemma ParseExtensions_ok:
  assumes "frame_ok p"
  shows "\<exists>p'. ParseExtensions p = Some p' \<and> layout_ok p' \<and> up_to_tables p p'"
proof (cases "pk_headerExtension p")
  case None
  then have "ParseExtensions p = Some p"
    by (simp add: ParseExtensions_def HasOneByteExtensions_def HasTwoBytesExtensions_def
        GetHeaderExtensionId_def GetHeaderExtensionLength_def)
  moreover have "up_to_tables p p"
    unfolding up_to_tables_def by (intro exI [of _ "pk_oneByteExtensions p"]
        exI [of _ "pk_mapTwoBytesExtensions p"]) simp
  ultimately show ?thesis using assms None by (simp add: layout_ok_def)
next
  case (Some h)
  let ?len = "pk_payload p - (h + 4)"
  from assms Some have h: "h + 4 \<le> pk_payload p" "pk_payload p \<le> length (pk_mem p)"
    "GetHeaderExtensionLength p = Some ?len" by (auto simp: frame_ok_def)
  then obtain i where i: "GetHeaderExtensionId p = Some i"
    using Some by (simp add: GetHeaderExtensionId_def Get2Bytes_in)
  obtain es where es: "parse_one_byte (pk_mem p) (h + 4 + ?len) (h + 4) (replicate 14 None) = Some es"
    "length es = 14" "table_ok False (pk_mem p) (h + 4) (pk_payload p) (entries_map es)"
    using parse_one_byte_ok [of "h + 4 + ?len" "pk_mem p" "h + 4" "h + 4" "replicate 14 None"] h by auto
  obtain t where t: "parse_two_bytes (pk_mem p) (h + 4 + ?len) (h + 4) Map.empty = Some t"
    "table_ok True (pk_mem p) (h + 4) (pk_payload p) t"
    using parse_two_bytes_ok [of "h + 4 + ?len" "pk_mem p" "h + 4" "h + 4" Map.empty] h by auto
  let ?p = "if i = 0xBEDE then p\<lparr>pk_oneByteExtensions := Some es\<rparr>
    else if i AND 0xFFF0 = 0x1000 then p\<lparr>pk_mapTwoBytesExtensions := t\<rparr> else p"
  have "ParseExtensions p = Some ?p"
    using Some i h(3) es(1) t(1)
    by (simp add: ParseExtensions_def HasOneByteExtensions_def HasTwoBytesExtensions_def)
  moreover have "tables_ok ?p h"
    using Some i es t by (auto simp: tables_ok_def HasOneByteExtensions_def HasTwoBytesExtensions_def
        GetHeaderExtensionId_def)
  moreover have "frame_ok ?p"
    using assms Some by (auto simp: frame_ok_def GetHeaderExtensionLength_def)
  moreover have "up_to_tables p ?p"
    unfolding up_to_tables_def
    by (intro exI [of _ "pk_oneByteExtensions ?p"] exI [of _ "pk_mapTwoBytesExtensions ?p"]) simp
  ultimately show ?thesis using Some by (auto simp: layout_ok_def)
qed

lemma RtpPacket_new_ok:
  assumes "0 < length mem" and "payload \<le> length mem" and "version_bits (mem ! 0) = 2"
    and "extension_bit (mem ! 0) = (ext \<noteq> None)"
    and "case ext of None \<Rightarrow> payload = csrc_end mem
         | Some h \<Rightarrow> h = csrc_end mem \<and> h + 4 \<le> payload \<and>
             map_option (\<lambda>n. unat n * 4) (Get2Bytes mem (h + 2)) = Some (payload - (h + 4))"
    and "sz = payload + n + unat pad" and "sz \<le> length mem"
    and "padding_bit (mem ! 0) = (pad \<noteq> 0)" and "pad \<noteq> 0 \<Longrightarrow> mem ! (sz - 1) = pad"
  shows "\<exists>p :: 'h packet. RtpPacket_new mem ext payload n pad sz = Some p \<and> packet_ok p \<and> pk_mem p = mem \<and>
    pk_headerExtension p = ext \<and> pk_payload p = payload \<and> pk_payloadLength p = n \<and>
    pk_payloadPadding p = pad \<and> pk_size p = sz"
proof -
  obtain q :: "'h packet" where q: "RtpPacket_new mem ext payload n pad sz = ParseExtensions q"
    "pk_mem q = mem" "pk_headerExtension q = ext" "pk_payload q = payload" "pk_payloadLength q = n"
    "pk_payloadPadding q = pad" "pk_size q = sz"
    "pk_csrcList q = (if csrcCount (mem ! 0) \<noteq> 0 then Some HeaderSize else None)"
    using assms(1) by (simp add: RtpPacket_new_def)
  from assms q have "frame_ok q"
    by (auto simp: frame_ok_def GetHeaderExtensionLength_def split: option.splits)
  then obtain p where p: "ParseExtensions q = Some p" "layout_ok p" "up_to_tables q p"
    using ParseExtensions_ok by blast
  then have "tail_ok p" using assms q by (auto simp: up_to_tables_def tail_ok_def)
  with p q show ?thesis
    by (intro exI [of _ p]) (auto simp: up_to_tables_def packet_ok_def)
qed

lemma version_2_range: "version_bits b = 2 \<longleftrightarrow> 127 < b \<and> b < 192"
proof -
  have "unat (drop_bit 6 b) = drop_bit 6 (unat b)"
    by (simp only: unsigned_drop_bit_eq take_bit_nat_eq_self [OF unsigned_less])
  then have "version_bits b = 2 \<longleftrightarrow> unat b div 64 = 2"
    unfolding version_bits_def word_unat_eq_iff by (simp add: drop_bit_eq_div)
  also have "\<dots> \<longleftrightarrow> 127 < unat b \<and> unat b < 192" by linarith
  finally show ?thesis by (simp add: word_less_nat_alt)
qed

text \<open>When a buffer is an RTP packet.\<close>

definition accepted :: "bytes \<Rightarrow> nat \<Rightarrow> nat \<Rightarrow> bool" where
  "accepted data len payload \<longleftrightarrow>
     HeaderSize \<le> len \<and> version_bits (data ! 0) = 2 \<and> payload \<le> len \<and>
     (if extension_bit (data ! 0)
      then csrc_end data + 4 \<le> len \<and>
           map_option (\<lambda>n. unat n * 4) (Get2Bytes data (csrc_end data + 2))
             = Some (payload - (csrc_end data + 4)) \<and> csrc_end data + 4 \<le> payload
      else payload = csrc_end data) \<and>
     (padding_bit (data ! 0) \<longrightarrow> data ! (len - 1) \<noteq> 0 \<and> payload + unat (data ! (len - 1)) \<le> len)"

lemma accepted_unique: "accepted data len a \<Longrightarrow> accepted data len b \<Longrightarrow> a = b"
  by (auto simp: accepted_def split: if_splits)

lemma IsRtp_iff:
  "len \<le> length data \<Longrightarrow> IsRtp data len = Some (HeaderSize \<le> len \<and> version_bits (data ! 0) = 2)"
  by (cases "len < HeaderSize") (auto simp: IsRtp_def HeaderSize_def version_2_range Get1Byte_def)

lemma parse_header_extension_eq:
  assumes "len \<le> length data" and "HeaderSize \<le> len"
  shows "parse_header_extension data len (data ! 0) (csrc_end data) =
    Some (if \<not> extension_bit (data ! 0) then Some (None, csrc_end data)
          else case Get2Bytes data (csrc_end data + 2) of
                 None \<Rightarrow> None
               | Some n \<Rightarrow>
                   if len < csrc_end data + 4 + unat n * 4 then None
                   else Some (Some (csrc_end data), csrc_end data + 4 + unat n * 4))"
  using assms by (auto simp: parse_header_extension_def Let_def Get2Bytes_in byte2.get_None_iff
      split: option.split bind_split)

lemma parse_padding_eq:
  assumes "len \<le> length data" and "payload \<le> len" and "0 < len"
  shows "parse_padding data len (data ! 0) (len - payload) =
    Some (if \<not> padding_bit (data ! 0) then Some (len - payload, 0)
          else if data ! (len - 1) \<noteq> 0 \<and> payload + unat (data ! (len - 1)) \<le> len
          then Some (len - payload - unat (data ! (len - 1)), data ! (len - 1)) else None)"
proof -
  have "unat (data ! (len - 1)) \<noteq> 0 \<longleftrightarrow> data ! (len - 1) \<noteq> 0" by (simp add: unat_eq_0)
  with assms show ?thesis by (auto simp: parse_padding_def)
qed

lemma RtpPacket_Parse_steps:
  assumes "len \<le> length data" and "HeaderSize \<le> len" and "version_bits (data ! 0) = 2"
  shows "RtpPacket_Parse data len =
    (if len < csrc_end data then Some None
     else do {
       ext \<leftarrow> parse_header_extension data len (data ! 0) (csrc_end data);
       (case ext of
          None \<Rightarrow> Some None
        | Some (headerExtension, payload) \<Rightarrow>
            if len < payload then None
            else do {
              pad \<leftarrow> parse_padding data len (data ! 0) (len - payload);
              (case pad of
                 None \<Rightarrow> Some None
               | Some (payloadLength, payloadPadding) \<Rightarrow>
                   if len \<noteq> csrc_end data + (payload - csrc_end data) + payloadLength + unat payloadPadding
                   then None
                   else map_option Some
                     (RtpPacket_new data headerExtension payload payloadLength payloadPadding len)) }) })"
proof -
  have "0 < length data" using assms(1,2) unfolding HeaderSize_def by linarith
  then have "Get1Byte data 0 = Some (data ! 0)" by (rule Get1Byte_in)
  note b0 = this
  have ce: "HeaderSize + (if csrcCount (data ! 0) \<noteq> 0 then csrcCount (data ! 0) * 4 else 0) = csrc_end data"
    by (simp add: csrc_end_def)
  have cond: "csrcCount (data ! 0) \<noteq> 0 \<and> len < csrc_end data \<longleftrightarrow> len < csrc_end data"
    using assms(2) by (auto simp: csrc_end_def)
  show ?thesis
    unfolding RtpPacket_Parse_def IsRtp_iff [OF assms(1)]
    by (simp only: assms b0 bind.bind_lunit Let_def ce cond simp_thms if_False)
qed

lemma RtpPacket_Parse_reject:
  assumes len: "len \<le> length data" and no: "\<nexists>payload. accepted data len payload"
  shows "RtpPacket_Parse data len = Some None"
proof (cases "HeaderSize \<le> len \<and> version_bits (data ! 0) = 2 \<and> csrc_end data \<le> len")
  case False
  then show ?thesis
    using RtpPacket_Parse_steps [OF len] IsRtp_iff [OF len] by (auto simp: RtpPacket_Parse_def)
next
  case True
  then have "0 < len" by (simp add: HeaderSize_def)
  have "accepted data len payload" if ext: "parse_header_extension data len (data ! 0) (csrc_end data) = Some (Some (h, payload))"
    and pad: "parse_padding data len (data ! 0) (len - payload) = Some (Some x)"
    and "payload \<le> len" for h payload x
  proof -
    from ext True len have "if extension_bit (data ! 0) then csrc_end data + 4 \<le> len \<and>
        map_option (\<lambda>n. unat n * 4) (Get2Bytes data (csrc_end data + 2))
             = Some (payload - (csrc_end data + 4)) \<and> csrc_end data + 4 \<le> payload
      else payload = csrc_end data"
      by (auto simp: parse_header_extension_eq split: if_splits option.splits)
    moreover from pad True len \<open>0 < len\<close> \<open>payload \<le> len\<close> have
      "padding_bit (data ! 0) \<longrightarrow> data ! (len - 1) \<noteq> 0 \<and> payload + unat (data ! (len - 1)) \<le> len"
      by (auto simp: parse_padding_eq split: if_splits)
    ultimately show ?thesis using True \<open>payload \<le> len\<close> by (simp add: accepted_def)
  qed
  note none = this
  note steps = RtpPacket_Parse_steps [OF len conjunct1 [OF True] conjunct1 [OF conjunct2 [OF True]]]
  obtain ext where ext: "parse_header_extension data len (data ! 0) (csrc_end data) = Some ext"
    using True len by (simp add: parse_header_extension_eq)
  show ?thesis
  proof (cases ext)
    case None
    with ext True show ?thesis unfolding steps by simp
  next
    case (Some r)
    obtain h payload where r: "r = (h, payload)" by (cases r)
    with ext Some have e: "parse_header_extension data len (data ! 0) (csrc_end data) = Some (Some (h, payload))"
      by simp
    then have le: "payload \<le> len"
      using True len by (auto simp: parse_header_extension_eq split: if_splits option.splits)
    with len \<open>0 < len\<close> obtain pad where pad: "parse_padding data len (data ! 0) (len - payload) = Some pad"
      by (simp add: parse_padding_eq)
    with none [OF e _ le] no have "pad = None" by (cases pad) auto
    with e pad le True show ?thesis unfolding steps by simp
  qed
qed

lemma RtpPacket_Parse_accept:
  assumes len: "len \<le> length data" and acc: "accepted data len payload"
  shows "\<exists>p :: 'h packet. RtpPacket_Parse data len = Some (Some p) \<and> packet_ok p \<and> pk_mem p = data \<and>
    pk_size p = len \<and> pk_payload p = payload"
proof -
  define ext where "ext = (if extension_bit (data ! 0) then Some (csrc_end data) else None)"
  define pad where "pad = (if padding_bit (data ! 0) then data ! (len - 1) else 0)"
  define n where "n = len - payload - unat pad"
  from acc have a: "HeaderSize \<le> len" "version_bits (data ! 0) = 2" "payload \<le> len" "0 < length data"
    using len by (auto simp: accepted_def HeaderSize_def)
  have ce: "csrc_end data \<le> payload" using acc by (auto simp: accepted_def split: if_splits)
  have ext: "parse_header_extension data len (data ! 0) (csrc_end data) = Some (Some (ext, payload))"
    using acc len a(1) by (auto simp: parse_header_extension_eq accepted_def ext_def split: if_splits)
  have pad: "parse_padding data len (data ! 0) (len - payload) = Some (Some (n, pad))"
    using acc len a by (auto simp: parse_padding_eq accepted_def HeaderSize_def n_def pad_def)
  have sz: "len = payload + n + unat pad" using acc a(3) by (auto simp: accepted_def n_def pad_def)
  have "csrc_end data + (payload - csrc_end data) + n + unat pad = len" using sz ce by linarith
  then have "(RtpPacket_Parse data len :: 'h packet option option) =
      map_option Some (RtpPacket_new data ext payload n pad len)"
    using ext pad ce a(3) unfolding RtpPacket_Parse_steps [OF len a(1,2)] by simp
  moreover have "\<exists>p :: 'h packet. RtpPacket_new data ext payload n pad len = Some p \<and> packet_ok p \<and>
    pk_mem p = data \<and> pk_headerExtension p = ext \<and> pk_payload p = payload \<and> pk_payloadLength p = n \<and>
    pk_payloadPadding p = pad \<and> pk_size p = len"
    by (rule RtpPacket_new_ok [OF a(4) _ a(2) _ _ sz len])
       (use acc len a(3) in \<open>auto simp: accepted_def ext_def pad_def split: if_splits\<close>)
  ultimately show ?thesis by auto
qed

text \<open>A packet that satisfies the invariant is what parsing its bytes gives.\<close>

lemma packet_ok_accepted:
  assumes "packet_ok p"
  shows "accepted (pk_mem p) (pk_size p) (pk_payload p)"
proof -
  from assms have lay: "layout_ok p" and fr: "frame_ok p" and tail: "tail_ok p"
    by (simp_all add: packet_ok_def layout_ok_def)
  have "HeaderSize \<le> pk_size p" using layout_header [OF lay] tail by (simp add: tail_ok_def)
  moreover have "if extension_bit (pk_mem p ! 0)
      then csrc_end (pk_mem p) + 4 \<le> pk_size p \<and>
           map_option (\<lambda>n. unat n * 4) (Get2Bytes (pk_mem p) (csrc_end (pk_mem p) + 2))
             = Some (pk_payload p - (csrc_end (pk_mem p) + 4)) \<and> csrc_end (pk_mem p) + 4 \<le> pk_payload p
      else pk_payload p = csrc_end (pk_mem p)"
    using fr tail by (auto simp: frame_ok_def tail_ok_def GetHeaderExtensionLength_def split: option.splits)
  ultimately show ?thesis using fr tail by (auto simp: accepted_def frame_ok_def tail_ok_def)
qed

lemma packet_ok_determined:
  assumes "packet_ok p" and "packet_ok q" and "pk_mem q = pk_mem p" and "pk_size q = pk_size p"
  shows "pk_payload q = pk_payload p" and "pk_headerExtension q = pk_headerExtension p"
    and "pk_payloadLength q = pk_payloadLength p" and "pk_payloadPadding q = pk_payloadPadding p"
    and "pk_csrcList q = pk_csrcList p"
proof -
  show payload: "pk_payload q = pk_payload p"
    using packet_ok_accepted [OF assms(1)] packet_ok_accepted [OF assms(2)] assms(3,4)
    by (auto intro: accepted_unique)
  show "pk_headerExtension q = pk_headerExtension p" and "pk_csrcList q = pk_csrcList p"
    using assms(1-3) by (auto simp: packet_ok_def layout_ok_def frame_ok_def split: option.splits)
  show pad: "pk_payloadPadding q = pk_payloadPadding p"
    using assms by (cases "pk_payloadPadding p = 0") (auto simp: packet_ok_def tail_ok_def)
  show "pk_payloadLength q = pk_payloadLength p"
    using assms payload pad by (simp add: packet_ok_def tail_ok_def)
qed

section \<open>Rewriting the payload\<close>

lemma nth_moved_up:
  "a + n + k \<le> length mem \<Longrightarrow> j < length mem \<Longrightarrow> written mem (a + k) (take n (drop a mem)) ! j =
     (if a + k \<le> j \<and> j < a + k + n then mem ! (j - k) else mem ! j)"
  by (auto simp: nth_written)

lemma nth_moved_down:
  "a + n + k \<le> length mem \<Longrightarrow> j < length mem \<Longrightarrow> written mem a (take n (drop (a + k) mem)) ! j =
     (if a \<le> j \<and> j < a + n then mem ! (j + k) else mem ! j)"
  by (auto simp: nth_written) (simp add: add.commute add.left_commute)


text \<open>Fields byte by byte.\<close>

lemma take_drop_eq_iff:
  assumes "i + n \<le> length mem" and "length e = n"
  shows "take n (drop i mem) = e \<longleftrightarrow> (\<forall>k < n. mem ! (i + k) = e ! k)"
  using assms by (auto simp: list_eq_iff_nth_eq)

lemma Get2Bytes_nth:
  "Get2Bytes mem i = Some v \<longleftrightarrow> i + 2 \<le> length mem \<and> (\<forall>k < 2. mem ! (i + k) = enc2 v ! k)"
  using take_drop_eq_iff [of i 2 mem "enc2 v"] by (auto simp: byte2.get_iff byte2.enc_length)

lemma Get4Bytes_nth:
  "Get4Bytes mem i = Some v \<longleftrightarrow> i + 4 \<le> length mem \<and> (\<forall>k < 4. mem ! (i + k) = enc4 v ! k)"
  using take_drop_eq_iff [of i 4 mem "enc4 v"] by (auto simp: byte4.get_iff byte4.enc_length)

definition payload_bytes :: "'h packet \<Rightarrow> bytes" where
  "payload_bytes p = take (pk_payloadLength p) (drop (pk_payload p) (pk_mem p))"

lemma packet_ok_bounds:
  assumes "packet_ok p"
  shows "HeaderSize \<le> pk_payload p" and "pk_payload p + pk_payloadLength p \<le> length (pk_mem p)"
    and "pk_size p = pk_payload p + pk_payloadLength p + unat (pk_payloadPadding p)"
    and "pk_size p \<le> length (pk_mem p)"
  using assms layout_header [of p] by (auto simp: packet_ok_def tail_ok_def)

lemma remove_padding_eq:
  assumes "layout_ok p"
  shows "remove_padding p = Some (if pk_payloadPadding p = 0 then p
    else p\<lparr>pk_mem := written (pk_mem p) 0 [write_bit (pk_mem p ! 0) 5 False],
           pk_size := pk_size p - unat (pk_payloadPadding p), pk_payloadPadding := 0\<rparr>)"
  using layout_header [OF assms]
  by (auto simp: remove_padding_def SetPayloadPaddingFlag_def with_mem_def HeaderSize_def list_update_written
      Get1Byte_def Set1Byte_def)

lemma SetPayloadLength_ok:
  assumes ok: "packet_ok p" and n: "n \<le> 65532"
    and room: "pk_payload p + 4 * ((n + 3) div 4) \<le> length (pk_mem p)"
  shows "\<exists>p'. SetPayloadLength n p = Some p' \<and> packet_ok p' \<and> same_pointers p p' \<and>
    pk_payloadLength p' = 4 * ((n + 3) div 4) \<and> pk_payloadPadding p' = 0"
proof -
  let ?n = "4 * ((n + 3) div 4)"
  let ?p = "p\<lparr>pk_mem := written (pk_mem p) 0 [write_bit (pk_mem p ! 0) 5 False],
    pk_size := pk_payload p + ?n, pk_payloadLength := ?n, pk_payloadPadding := 0\<rparr>"
  from ok have lay: "layout_ok p" by (simp add: packet_ok_def)
  have len: "0 < length (pk_mem p)" using layout_header [OF lay] unfolding HeaderSize_def by linarith
  then have "SetPayloadLength n p = Some ?p"
    using packet_ok_bounds [OF ok] PadTo4Bytes16_of_nat [OF n]
    by (simp add: SetPayloadLength_def SetPayloadPaddingFlag_def with_mem_def list_update_written Let_def
        Get1Byte_def Set1Byte_def)
  moreover have "packet_ok ?p"
    by (rule packet_ok_tail [OF lay, where f = False])
       (use len room in \<open>auto simp: same_pointers_def tail_ok_def nth_written length_written Suc_le_eq\<close>)
  ultimately show ?thesis by (auto simp: same_pointers_def)
qed

text \<open>The memory after the rewritten header fields and the move of the payload.\<close>

definition rtx_header :: "bytes \<Rightarrow> u8 \<Rightarrow> u32 \<Rightarrow> bytes" where
  "rtx_header mem t ssrc = written (written mem 1 [(mem ! 1 AND 0x80) OR (t AND 0x7F)]) 8 (enc4 ssrc)"

lemma rtx_header_nth:
  assumes "HeaderSize \<le> length mem"
  shows "length (rtx_header mem t ssrc) = length mem"
    and "j < length mem \<Longrightarrow> rtx_header mem t ssrc ! j =
      (if j = 1 then (mem ! 1 AND 0x80) OR (t AND 0x7F)
       else if 8 \<le> j \<and> j < 12 then enc4 ssrc ! (j - 8) else mem ! j)"
  using assms by (auto simp: rtx_header_def HeaderSize_def length_written nth_written byte4.enc_length)

definition rtx_encoded :: "bytes \<Rightarrow> nat \<Rightarrow> nat \<Rightarrow> u8 \<Rightarrow> u32 \<Rightarrow> u16 \<Rightarrow> u16 \<Rightarrow> bytes" where
  "rtx_encoded mem payload n t ssrc seq original =
     (let m = rtx_header mem t ssrc
      in written (written (written m (payload + 2) (take n (drop payload m))) payload (enc2 original))
           2 (enc2 seq))"

lemma rtx_encoded_nth:
  assumes "HeaderSize \<le> payload" and "payload + n + 2 \<le> length mem"
  shows "length (rtx_encoded mem payload n t ssrc seq original) = length mem"
    and "j < length mem \<Longrightarrow> rtx_encoded mem payload n t ssrc seq original ! j =
      (if j = 1 then (mem ! 1 AND 0x80) OR (t AND 0x7F)
       else if 2 \<le> j \<and> j < 4 then enc2 seq ! (j - 2)
       else if 8 \<le> j \<and> j < 12 then enc4 ssrc ! (j - 8)
       else if payload \<le> j \<and> j < payload + 2 then enc2 original ! (j - payload)
       else if payload + 2 \<le> j \<and> j < payload + 2 + n then mem ! (j - 2)
       else mem ! j)"
proof -
  define m where "m = rtx_header mem t ssrc"
  define m2 where "m2 = written m (payload + 2) (take n (drop payload m))"
  define m3 where "m3 = written m2 payload (enc2 original)"
  have e: "rtx_encoded mem payload n t ssrc seq original = written m3 2 (enc2 seq)"
    by (simp only: rtx_encoded_def Let_def m_def m2_def m3_def)
  have h: "12 \<le> payload" "payload + n + 2 \<le> length mem" "HeaderSize \<le> length mem"
    using assms by (simp_all add: HeaderSize_def)
  have lm: "length m = length mem"
    using rtx_header_nth(1) [OF h(3)] by (simp only: m_def)
  then have lm2: "length m2 = length mem" using h by (simp add: m2_def length_written)
  then have lm3: "length m3 = length mem" using h by (simp add: m3_def length_written byte2.enc_length)
  then show "length (rtx_encoded mem payload n t ssrc seq original) = length mem"
    using h by (simp add: e length_written byte2.enc_length)
  have nm: "m ! k = (if k = 1 then (mem ! 1 AND 0x80) OR (t AND 0x7F)
       else if 8 \<le> k \<and> k < 12 then enc4 ssrc ! (k - 8) else mem ! k)" if "k < length mem" for k
    using rtx_header_nth(2) [OF h(3) that] by (simp only: m_def)
  have nm2: "m2 ! k = (if payload + 2 \<le> k \<and> k < payload + 2 + n then m ! (k - 2) else m ! k)"
    if "k < length mem" for k
    using nth_moved_up [of payload n 2 m k] h lm that by (simp only: m2_def)
  have nm3: "m3 ! k = (if payload \<le> k \<and> k < payload + 2 then enc2 original ! (k - payload) else m2 ! k)"
    if "k < length mem" for k
    using nth_written [of payload "enc2 original" m2 k] h lm2 that by (simp add: m3_def byte2.enc_length)
  assume j: "j < length mem"
  have w: "written m3 2 (enc2 seq) ! j = (if 2 \<le> j \<and> j < 4 then enc2 seq ! (j - 2) else m3 ! j)"
    using nth_written [of 2 "enc2 seq" m3 j] h lm3 j by (simp add: byte2.enc_length)
  show "rtx_encoded mem payload n t ssrc seq original ! j =
      (if j = 1 then (mem ! 1 AND 0x80) OR (t AND 0x7F)
       else if 2 \<le> j \<and> j < 4 then enc2 seq ! (j - 2)
       else if 8 \<le> j \<and> j < 12 then enc4 ssrc ! (j - 8)
       else if payload \<le> j \<and> j < payload + 2 then enc2 original ! (j - payload)
       else if payload + 2 \<le> j \<and> j < payload + 2 + n then mem ! (j - 2)
       else mem ! j)"
  proof (cases "payload + 2 \<le> j \<and> j < payload + 2 + n")
    case True
    with h have "j - 2 < length mem" "12 \<le> j - 2" "12 \<le> j" "\<not> j < payload + 2" by linarith+
    with True nm [of "j - 2"] show ?thesis unfolding e w nm3 [OF j] nm2 [OF j] by simp
  next
    case False
    with nm [OF j] h show ?thesis unfolding e w nm3 [OF j] nm2 [OF j] by auto
  qed
qed

definition rtx_decoded :: "bytes \<Rightarrow> nat \<Rightarrow> nat \<Rightarrow> u8 \<Rightarrow> u32 \<Rightarrow> u16 \<Rightarrow> bytes" where
  "rtx_decoded mem payload n t ssrc seq =
     (let m = written (written (written mem 1 [(mem ! 1 AND 0x80) OR (t AND 0x7F)]) 2 (enc2 seq)) 8 (enc4 ssrc)
      in written m payload (take (n - 2) (drop (payload + 2) m)))"

lemma rtx_decoded_nth:
  assumes "HeaderSize \<le> payload" and "payload + n \<le> length mem" and "2 \<le> n"
  shows "length (rtx_decoded mem payload n t ssrc seq) = length mem"
    and "j < length mem \<Longrightarrow> rtx_decoded mem payload n t ssrc seq ! j =
      (if j = 1 then (mem ! 1 AND 0x80) OR (t AND 0x7F)
       else if 2 \<le> j \<and> j < 4 then enc2 seq ! (j - 2)
       else if 8 \<le> j \<and> j < 12 then enc4 ssrc ! (j - 8)
       else if payload \<le> j \<and> j < payload + (n - 2) then mem ! (j + 2)
       else mem ! j)"
proof -
  define m1 where "m1 = written mem 1 [(mem ! 1 AND 0x80) OR (t AND 0x7F)]"
  define m2 where "m2 = written m1 2 (enc2 seq)"
  define m where "m = written m2 8 (enc4 ssrc)"
  have e: "rtx_decoded mem payload n t ssrc seq = written m payload (take (n - 2) (drop (payload + 2) m))"
    by (simp only: rtx_decoded_def Let_def m_def m1_def m2_def)
  have h: "12 \<le> length mem" "12 \<le> payload" "payload + (n - 2) + 2 \<le> length mem"
    using assms by (simp_all add: HeaderSize_def)
  then have l1: "length m1 = length mem" by (simp add: m1_def length_written)
  then have l2: "length m2 = length mem" using h by (simp add: m2_def length_written byte2.enc_length)
  then have l: "length m = length mem" using h by (simp add: m_def length_written byte4.enc_length)
  then show "length (rtx_decoded mem payload n t ssrc seq) = length mem"
    using h by (simp add: e length_written)
  have nth: "m ! k = (if k = 1 then (mem ! 1 AND 0x80) OR (t AND 0x7F)
       else if 2 \<le> k \<and> k < 4 then enc2 seq ! (k - 2)
       else if 8 \<le> k \<and> k < 12 then enc4 ssrc ! (k - 8) else mem ! k)" if "k < length mem" for k
    using h l1 l2 that by (simp add: m_def m2_def m1_def nth_written length_written byte2.enc_length byte4.enc_length)
  assume j: "j < length mem"
  have move: "written m payload (take (n - 2) (drop (payload + 2) m)) ! j =
      (if payload \<le> j \<and> j < payload + (n - 2) then m ! (j + 2) else m ! j)"
    using nth_moved_down [of payload "n - 2" 2 m j] h l j by simp
  show "rtx_decoded mem payload n t ssrc seq ! j =
      (if j = 1 then (mem ! 1 AND 0x80) OR (t AND 0x7F)
       else if 2 \<le> j \<and> j < 4 then enc2 seq ! (j - 2)
       else if 8 \<le> j \<and> j < 12 then enc4 ssrc ! (j - 8)
       else if payload \<le> j \<and> j < payload + (n - 2) then mem ! (j + 2)
       else mem ! j)"
  proof (cases "payload \<le> j \<and> j < payload + (n - 2)")
    case True
    with h have "j + 2 < length mem" "12 \<le> j" by simp_all
    with True nth [of "j + 2"] show ?thesis unfolding e move by simp
  next
    case False
    with nth [OF j] show ?thesis unfolding e move by auto
  qed
qed

text \<open>The packet after each of the two operations, before its padding goes.\<close>

lemma RtxEncode_eq:
  assumes ok: "packet_ok p" and room: "pk_payload p + pk_payloadLength p + 2 \<le> length (pk_mem p)"
    and orig: "GetSequenceNumber p = Some original"
  shows "RtxEncode t ssrc seq p = remove_padding (p\<lparr>
    pk_mem := rtx_encoded (pk_mem p) (pk_payload p) (pk_payloadLength p) t ssrc seq original,
    pk_payloadLength := pk_payloadLength p + 2, pk_size := pk_size p + 2\<rparr>)"
proof -
  let ?m = "rtx_header (pk_mem p) t ssrc"
  note b = packet_ok_bounds [OF ok]
  have h: "12 \<le> pk_payload p" "HeaderSize \<le> length (pk_mem p)" using b by (simp_all add: HeaderSize_def)
  have lm: "length ?m = length (pk_mem p)" using rtx_header_nth(1) [OF h(2)] .
  have "SetSsrc ssrc (p\<lparr>pk_mem := written (pk_mem p) 1 [(pk_mem p ! 1 AND 0x80) OR (t AND 0x7F)]\<rparr>) =
      Some (p\<lparr>pk_mem := ?m\<rparr>)"
    using SetSsrc_ok(1) [OF SetPayloadType_ok(2) [OF ok]] by (simp add: rtx_header_def)
  moreover have "Get2Bytes ?m 2 = Some original"
    using orig h rtx_header_nth(2) [OF h(2)]
    by (simp add: GetSequenceNumber_def Get2Bytes_nth lm)
  moreover have "length (written ?m (pk_payload p + 2)
      (take (pk_payloadLength p) (drop (pk_payload p) ?m))) = length (pk_mem p)"
    using lm room by (simp add: length_written)
  ultimately show ?thesis
    unfolding RtxEncode_def SetPayloadType_ok(1) [OF ok]
    using lm room h
    by (simp add: memmove_in GetSequenceNumber_def SetSequenceNumber_def Set2Bytes_written with_mem_def
        length_written byte2.enc_length rtx_encoded_def Let_def)
qed

lemma RtxDecode_eq:
  assumes ok: "packet_ok p" and n: "2 \<le> pk_payloadLength p"
    and seq: "Get2Bytes (pk_mem p) (pk_payload p) = Some seq"
  shows "RtxDecode t ssrc p = map_option (Pair True) (remove_padding (p\<lparr>
    pk_mem := rtx_decoded (pk_mem p) (pk_payload p) (pk_payloadLength p) t ssrc seq,
    pk_payloadLength := pk_payloadLength p - 2, pk_size := pk_size p - 2\<rparr>))"
proof -
  let ?m1 = "written (pk_mem p) 1 [(pk_mem p ! 1 AND 0x80) OR (t AND 0x7F)]"
  note b = packet_ok_bounds [OF ok]
  have h: "12 \<le> pk_payload p" "12 \<le> length (pk_mem p)" using b by (simp_all add: HeaderSize_def)
  note ok1 = SetPayloadType_ok(2) [OF ok, of "(pk_mem p ! 1 AND 0x80) OR (t AND 0x7F)"]
  note ok2 = SetSequenceNumber_ok [OF ok1, of seq]
  note ok3 = SetSsrc_ok [OF ok2(2), of ssrc]
  have "Get2Bytes ?m1 (pk_payload p) = Some seq"
    using seq h b n by (simp add: Get2Bytes_nth nth_written length_written)
  moreover have "pk_payload p + 2 + (pk_payloadLength p - 2) \<le> length (pk_mem p)" using b n by simp
  ultimately show ?thesis
    unfolding RtxDecode_def SetPayloadType_ok(1) [OF ok]
    using n h ok2(1) ok3(1)
    by (simp add: memmove_in length_written byte2.enc_length byte4.enc_length rtx_decoded_def Let_def
        map_option_bind map_option_case split: option.split)
qed

definition no_padding :: "'h packet \<Rightarrow> 'h packet" where
  "no_padding p = p\<lparr>
     pk_mem := (if pk_payloadPadding p = 0 then pk_mem p
                else written (pk_mem p) 0 [write_bit (pk_mem p ! 0) 5 False]),
     pk_size := pk_size p - unat (pk_payloadPadding p), pk_payloadPadding := 0\<rparr>"

lemma no_padding_fields [simp]:
  "pk_payload (no_padding p) = pk_payload p" "pk_payloadLength (no_padding p) = pk_payloadLength p"
  "pk_payloadPadding (no_padding p) = 0" "pk_headerExtension (no_padding p) = pk_headerExtension p"
  "pk_size (no_padding p) = pk_size p - unat (pk_payloadPadding p)"
  "same_pointers p (no_padding p)"
  by (simp_all add: no_padding_def same_pointers_def)

lemma no_padding_mem:
  "0 < length (pk_mem p) \<Longrightarrow> length (pk_mem (no_padding p)) = length (pk_mem p)"
  "0 < length (pk_mem p) \<Longrightarrow> j < length (pk_mem p) \<Longrightarrow> 0 < j \<Longrightarrow> pk_mem (no_padding p) ! j = pk_mem p ! j"
  by (auto simp: no_padding_def length_written nth_written Suc_le_eq)

text \<open>
  Both operations rewrite the fixed header past its first byte and the payload, and set the sizes.
\<close>

lemma remove_padding_ok:
  assumes ok: "packet_ok p" and same: "same_pointers p q"
    and len: "length (pk_mem q) = length (pk_mem p)"
    and keep: "\<And>j. j < pk_payload p \<Longrightarrow> j = 0 \<or> HeaderSize \<le> j \<Longrightarrow> pk_mem q ! j = pk_mem p ! j"
    and pad: "pk_payloadPadding q = pk_payloadPadding p"
    and sz: "pk_size q = pk_payload p + pk_payloadLength q + unat (pk_payloadPadding p)"
    and room: "pk_payload p + pk_payloadLength q \<le> length (pk_mem p)"
  shows "remove_padding q = Some (no_padding q)" and "packet_ok (no_padding q)"
proof -
  from ok have lay: "layout_ok p" by (simp add: packet_ok_def)
  have h: "HeaderSize \<le> pk_payload p" "pk_payload p \<le> length (pk_mem p)" "0 < pk_payload p"
    "pk_payload q = pk_payload p" "0 < length (pk_mem p)"
    using layout_header [OF lay] room same by (auto simp: HeaderSize_def same_pointers_def)
  have b0: "pk_mem q ! 0 = pk_mem p ! 0" using keep h(3) by simp
  have "layout_ok q"
    by (rule layout_ok_cong [OF lay same])
       (use h len keep b0 in \<open>auto simp: same_layout_bytes_def\<close>)
  then show "remove_padding q = Some (no_padding q)"
    by (simp add: remove_padding_eq no_padding_def)
  have b: "pk_mem (no_padding q) ! 0 = (if pk_payloadPadding p = 0 then pk_mem p ! 0
      else write_bit (pk_mem p ! 0) 5 False)"
    using h len b0 pad by (simp add: no_padding_def nth_written Suc_le_eq)
  have "layout_ok (no_padding q)"
    by (rule layout_ok_cong [OF \<open>layout_ok q\<close> no_padding_fields(6)])
       (use h len b b0 in \<open>auto simp: same_layout_bytes_def no_padding_mem HeaderSize_def\<close>)
  moreover have "tail_ok (no_padding q)"
    using h ok sz room pad b len no_padding_mem(1) [of q]
    by (auto simp: tail_ok_def packet_ok_def)
  ultimately show "packet_ok (no_padding q)" by (simp add: packet_ok_def)
qed

lemma packet_ok_sequence_number: "packet_ok p \<Longrightarrow> \<exists>v. GetSequenceNumber p = Some v"
  using packet_ok_bounds [of p] by (auto simp: GetSequenceNumber_def HeaderSize_def Get2Bytes_in)

lemma RtxEncode_ok:
  fixes p :: "'h packet" and t :: u8 and ssrc :: u32 and seq :: u16
  assumes ok: "packet_ok p" and room: "pk_payload p + pk_payloadLength p + 2 \<le> length (pk_mem p)"
    and orig: "GetSequenceNumber p = Some original"
  defines "q \<equiv> p\<lparr>
    pk_mem := rtx_encoded (pk_mem p) (pk_payload p) (pk_payloadLength p) t ssrc seq original,
    pk_payloadLength := pk_payloadLength p + 2, pk_size := pk_size p + 2\<rparr>"
  shows "RtxEncode t ssrc seq p = Some (no_padding q)" and "packet_ok (no_padding q)"
proof -
  note b = packet_ok_bounds [OF ok]
  note nth = rtx_encoded_nth [OF b(1), of "pk_payloadLength p" "pk_mem p"]
  have "remove_padding q = Some (no_padding q) \<and> packet_ok (no_padding q)"
    by (rule conjI; rule remove_padding_ok [OF ok])
       (use room b nth in \<open>auto simp: q_def same_pointers_def HeaderSize_def\<close>)
  then show "RtxEncode t ssrc seq p = Some (no_padding q)" and "packet_ok (no_padding q)"
    using RtxEncode_eq [OF ok room orig] by (simp_all add: q_def)
qed

lemma RtxDecode_ok:
  fixes p :: "'h packet" and t :: u8 and ssrc :: u32
  assumes ok: "packet_ok p" and n: "2 \<le> pk_payloadLength p"
    and seq: "Get2Bytes (pk_mem p) (pk_payload p) = Some seq"
  defines "q \<equiv> p\<lparr>
    pk_mem := rtx_decoded (pk_mem p) (pk_payload p) (pk_payloadLength p) t ssrc seq,
    pk_payloadLength := pk_payloadLength p - 2, pk_size := pk_size p - 2\<rparr>"
  shows "RtxDecode t ssrc p = Some (True, no_padding q)" and "packet_ok (no_padding q)"
proof -
  note b = packet_ok_bounds [OF ok]
  note nth = rtx_decoded_nth [OF b(1,2) n]
  have "remove_padding q = Some (no_padding q) \<and> packet_ok (no_padding q)"
    by (rule conjI; rule remove_padding_ok [OF ok])
       (use n b nth in \<open>auto simp: q_def same_pointers_def HeaderSize_def\<close>)
  then show "RtxDecode t ssrc p = Some (True, no_padding q)" and "packet_ok (no_padding q)"
    using RtxDecode_eq [OF ok n seq] by (simp_all add: q_def)
qed

text \<open>What the readers return is a function of the pointers and the bytes of the layout.\<close>

lemma GetExtension_cong:
  assumes ok: "layout_ok p" and same: "same_pointers p p'"
    and bytes: "same_layout_bytes (pk_mem p) (pk_mem p') (pk_payload p)"
  shows "GetExtension p' i = GetExtension p i"
proof (cases "pk_headerExtension p")
  case None
  with same show ?thesis
    by (simp add: GetExtension_def HasOneByteExtensions_def HasTwoBytesExtensions_def
        GetHeaderExtensionId_def same_pointers_def)
next
  case (Some h)
  have kinds: "HasOneByteExtensions p' = HasOneByteExtensions p"
    "HasTwoBytesExtensions p' = HasTwoBytesExtensions p"
    using extension_fields_cong [OF assms]
    by (simp_all add: HasOneByteExtensions_def HasTwoBytesExtensions_def)
  from ok Some have t: "tables_ok p h" "HeaderSize \<le> h + 4" "pk_payload p \<le> length (pk_mem p)"
    by (auto simp: layout_ok_def frame_ok_def csrc_end_def)
  have read: "Get1Byte (pk_mem p') k = Get1Byte (pk_mem p) k"
    if "table_ok two (pk_mem p) (h + 4) (pk_payload p) tab" "tab i = Some q" "k = q \<or> k = q + 1" for k q two tab
  proof -
    from that have "h + 4 \<le> q" "element_end two (pk_mem p) q \<le> pk_payload p" by (auto simp: table_ok_def)
    with element_end_gt [of q two "pk_mem p"] that(3) t(2)
    have "HeaderSize \<le> k" "k < pk_payload p" by auto
    with bytes t(3) show ?thesis by (simp add: same_layout_bytes_def Get1Byte_def)
  qed
  consider (zero) "i = 0" | (one) "i \<noteq> 0" "HasOneByteExtensions p = Some True"
    | (two) "i \<noteq> 0" "HasOneByteExtensions p \<noteq> Some True" "HasTwoBytesExtensions p = Some True"
    | (other) "HasOneByteExtensions p \<noteq> Some True" "HasTwoBytesExtensions p \<noteq> Some True" by blast
  then show ?thesis
  proof cases
    case one
    with t(1) obtain es where es: "pk_oneByteExtensions p = Some es" "length es = 14"
      "table_ok False (pk_mem p) (h + 4) (pk_payload p) (entries_map es)" by (auto simp: tables_ok_def)
    then have "Get1Byte (pk_mem p') q = Get1Byte (pk_mem p) q"
      if "\<not> i > 14" "es ! (unat i - 1) = Some q" for q
      using that one(1) read [OF es(3), of q] by (simp add: entries_map_def)
    with one es same kinds show ?thesis
      by (auto simp: GetExtension_def one_byte_entry_def same_pointers_def split: option.splits bind_splits)
  next
    case two
    with t(1) have tab: "table_ok True (pk_mem p) (h + 4) (pk_payload p) (pk_mapTwoBytesExtensions p)"
      by (auto simp: tables_ok_def)
    with read [OF tab] two same kinds show ?thesis
      by (auto simp: GetExtension_def same_pointers_def split: option.splits bind_splits)
  next
    case other
    with kinds show ?thesis by (auto simp: GetExtension_def split: bind_splits)
  qed (simp add: GetExtension_def)
qed

lemma same_layout_bytes_trans:
  "same_layout_bytes a b n \<Longrightarrow> same_layout_bytes b c n \<Longrightarrow> same_layout_bytes a c n"
  by (simp add: same_layout_bytes_def)

lemma same_pointers_trans: "same_pointers a b \<Longrightarrow> same_pointers b c \<Longrightarrow> same_pointers a c"
  by (simp add: same_pointers_def)

lemma no_padding_same_layout:
  assumes "n \<le> length (pk_mem p)" and "0 < n"
  shows "same_layout_bytes (pk_mem p) (pk_mem (no_padding p)) n"
proof -
  have l: "0 + length [x] \<le> length (pk_mem p)" for x :: u8 using assms by simp
  have "pk_mem p \<noteq> []" using assms by auto
  with assms show ?thesis
    by (auto simp: same_layout_bytes_def no_padding_def length_written [OF l] nth_written [OF l] HeaderSize_def)
qed

lemma Get4Bytes_cong:
  assumes "\<And>k. k < 4 \<Longrightarrow> mem ! (i + k) = mem' ! (i + k)" and "i + 4 \<le> length mem" and "i + 4 \<le> length mem'"
  shows "Get4Bytes mem i = Get4Bytes mem' i"
proof -
  from byte4.get_total [OF assms(2)] obtain v where "Get4Bytes mem i = Some v" by auto
  moreover from this have "Get4Bytes mem' i = Some v" using assms by (simp add: Get4Bytes_nth)
  ultimately show ?thesis by simp
qed

lemma payload_type_bits:
  fixes a t :: u8
  shows "((a AND 0x80) OR (t AND 0x7F)) AND 0x7F = t AND 0x7F"
    and "bit ((a AND 0x80) OR (t AND 0x7F)) 7 = bit a 7"
proof -
  have m: "(0x7F :: u8) = mask 7" "(0x80 :: u8) = NOT (mask 7)"
    by (simp_all add: mask_eq_exp_minus_1)
  show "((a AND 0x80) OR (t AND 0x7F)) AND 0x7F = t AND 0x7F"
    unfolding m by (rule bit_word_eqI) (auto simp: bit_simps)
  show "bit ((a AND 0x80) OR (t AND 0x7F)) 7 = bit a 7"
    unfolding m by (simp add: bit_simps)
qed

end
