(* ===== verification/RtpPacketOps.thy ===== *)
theory RtpPacketOps
  imports RtpPacketSafety
begin

unbundle bit_operations_syntax

text \<open>
  What the operations of \<^verbatim>\<open>RTC::RtpPacket\<close> do to a packet that satisfies the invariant: RTX encoding
  and decoding, the payload shift of the codecs, updates and replacement of header extensions, and
  the clone that is stored for retransmission. The last part collects them in a machine.
\<close>

section \<open>RTX\<close>

lemma RtxEncode_view:
  assumes ok: "packet_ok p" and room: "pk_payload p + pk_payloadLength p + 2 \<le> length (pk_mem p)"
    and orig: "GetSequenceNumber p = Some original"
  obtains q where "RtxEncode t ssrc seq p = Some q" and "packet_ok q" and "same_pointers p q"
    and "pk_payloadLength q = pk_payloadLength p + 2" and "pk_payloadPadding q = 0"
    and "length (pk_mem q) = length (pk_mem p)"
    and "\<And>j. 0 < j \<Longrightarrow> j < length (pk_mem p) \<Longrightarrow> pk_mem q ! j =
      rtx_encoded (pk_mem p) (pk_payload p) (pk_payloadLength p) t ssrc seq original ! j"
    and "same_layout_bytes (pk_mem p) (pk_mem q) (pk_payload p)"
proof -
  let ?m = "rtx_encoded (pk_mem p) (pk_payload p) (pk_payloadLength p) t ssrc seq original"
  let ?q = "p\<lparr>pk_mem := ?m, pk_payloadLength := pk_payloadLength p + 2, pk_size := pk_size p + 2\<rparr>"
  note b = packet_ok_bounds [OF ok]
  note nth = rtx_encoded_nth [OF b(1) room]
  have h: "0 < length (pk_mem p)" "0 < pk_payload p" using b by (auto simp: HeaderSize_def)
  have "same_layout_bytes (pk_mem p) ?m (pk_payload p)"
    using b h room nth by (auto simp: same_layout_bytes_def HeaderSize_def)
  moreover have "same_layout_bytes ?m (pk_mem (no_padding ?q)) (pk_payload p)"
    using no_padding_same_layout [of "pk_payload p" ?q] h nth(1) room by simp
  ultimately have "same_layout_bytes (pk_mem p) (pk_mem (no_padding ?q)) (pk_payload p)"
    by (rule same_layout_bytes_trans)
  then show thesis
    by (intro that [of "no_padding ?q"])
       (use RtxEncode_ok [OF ok room orig] no_padding_mem [of ?q] h nth(1) in
         \<open>auto simp: same_pointers_def no_padding_def\<close>)
qed

lemma RtxDecode_view:
  assumes ok: "packet_ok p" and n: "2 \<le> pk_payloadLength p"
    and seq: "Get2Bytes (pk_mem p) (pk_payload p) = Some seq"
  obtains q where "RtxDecode t ssrc p = Some (True, q)" and "packet_ok q" and "same_pointers p q"
    and "pk_payloadLength q = pk_payloadLength p - 2" and "pk_payloadPadding q = 0"
    and "length (pk_mem q) = length (pk_mem p)"
    and "\<And>j. 0 < j \<Longrightarrow> j < length (pk_mem p) \<Longrightarrow> pk_mem q ! j =
      rtx_decoded (pk_mem p) (pk_payload p) (pk_payloadLength p) t ssrc seq ! j"
    and "same_layout_bytes (pk_mem p) (pk_mem q) (pk_payload p)"
proof -
  let ?m = "rtx_decoded (pk_mem p) (pk_payload p) (pk_payloadLength p) t ssrc seq"
  let ?q = "p\<lparr>pk_mem := ?m, pk_payloadLength := pk_payloadLength p - 2, pk_size := pk_size p - 2\<rparr>"
  note b = packet_ok_bounds [OF ok]
  note nth = rtx_decoded_nth [OF b(1,2) n]
  have h: "0 < length (pk_mem p)" "0 < pk_payload p" using b by (auto simp: HeaderSize_def)
  have "same_layout_bytes (pk_mem p) ?m (pk_payload p)"
    using b h nth by (auto simp: same_layout_bytes_def HeaderSize_def)
  moreover have "same_layout_bytes ?m (pk_mem (no_padding ?q)) (pk_payload p)"
    using no_padding_same_layout [of "pk_payload p" ?q] h nth(1) b by simp
  ultimately have "same_layout_bytes (pk_mem p) (pk_mem (no_padding ?q)) (pk_payload p)"
    by (rule same_layout_bytes_trans)
  then show thesis
    by (intro that [of "no_padding ?q"])
       (use RtxDecode_ok [OF ok n seq] no_padding_mem [of ?q] h nth(1) in
         \<open>auto simp: same_pointers_def no_padding_def\<close>)
qed

text \<open>The fields of a packet that the two operations write, and those they leave.\<close>

definition rtx_view :: "'h packet \<Rightarrow> u32 option \<times> bool option \<times> (u8 \<Rightarrow> (nat option \<times> u8) option)" where
  "rtx_view p = (GetTimestamp p, HasMarker p, GetExtension p)"

lemma rtx_fields:
  assumes ok: "packet_ok p" and q: "packet_ok q" "same_pointers p q" "length (pk_mem q) = length (pk_mem p)"
    "same_layout_bytes (pk_mem p) (pk_mem q) (pk_payload p)"
    and nth: "\<And>j. 0 < j \<Longrightarrow> j < 12 \<Longrightarrow> pk_mem q ! j =
      (if j = 1 then (pk_mem p ! 1 AND 0x80) OR (t AND 0x7F)
       else if 2 \<le> j \<and> j < 4 then enc2 seq ! (j - 2)
       else if 8 \<le> j \<and> j < 12 then enc4 ssrc ! (j - 8) else pk_mem p ! j)"
  shows "GetSequenceNumber q = Some seq" and "GetSsrc q = Some ssrc"
    and "GetPayloadType q = Some (t AND 0x7F)" and "rtx_view q = rtx_view p"
proof -
  have h: "12 \<le> length (pk_mem p)" "12 \<le> length (pk_mem q)"
    using packet_ok_bounds [OF ok] packet_ok_bounds [OF q(1)] by (simp_all add: HeaderSize_def)
  show "GetSequenceNumber q = Some seq"
    using h nth by (simp add: GetSequenceNumber_def Get2Bytes_nth)
  show "GetSsrc q = Some ssrc"
    using h nth by (simp add: GetSsrc_def Get4Bytes_nth)
  have b1: "Get1Byte (pk_mem q) 1 = Some ((pk_mem p ! 1 AND 0x80) OR (t AND 0x7F))"
    "Get1Byte (pk_mem p) 1 = Some (pk_mem p ! 1)" using h nth [of 1] by simp_all
  then show "GetPayloadType q = Some (t AND 0x7F)" by (simp add: GetPayloadType_def payload_type_bits)
  have "GetTimestamp q = GetTimestamp p"
    unfolding GetTimestamp_def using h nth by (intro Get4Bytes_cong) simp_all
  moreover have "HasMarker q = HasMarker p"
    unfolding HasMarker_def b1 by (simp add: payload_type_bits)
  moreover have "GetExtension q = GetExtension p"
    using GetExtension_cong [OF _ q(2,4)] ok by (auto simp: packet_ok_def)
  ultimately show "rtx_view q = rtx_view p" by (simp add: rtx_view_def)
qed

lemma RtxEncode_result:
  assumes ok: "packet_ok p" and room: "pk_payload p + pk_payloadLength p + 2 \<le> length (pk_mem p)"
    and orig: "GetSequenceNumber p = Some original"
  shows "\<exists>q. RtxEncode t ssrc seq p = Some q \<and> packet_ok q \<and> payload_bytes q = enc2 original @ payload_bytes p \<and>
    GetPayloadType q = Some (t AND 0x7F) \<and> GetSsrc q = Some ssrc \<and> GetSequenceNumber q = Some seq \<and>
    rtx_view q = rtx_view p"
proof -
  note b = packet_ok_bounds [OF ok]
  note enc = rtx_encoded_nth(2) [OF b(1) room]
  have h: "12 \<le> pk_payload p" using b(1) by (simp add: HeaderSize_def)
  obtain q where q: "RtxEncode t ssrc seq p = Some q" "packet_ok q" "same_pointers p q"
    "pk_payloadLength q = pk_payloadLength p + 2" "length (pk_mem q) = length (pk_mem p)"
    "\<And>j. 0 < j \<Longrightarrow> j < length (pk_mem p) \<Longrightarrow> pk_mem q ! j =
      rtx_encoded (pk_mem p) (pk_payload p) (pk_payloadLength p) t ssrc seq original ! j"
    "same_layout_bytes (pk_mem p) (pk_mem q) (pk_payload p)"
    by (rule RtxEncode_view [OF ok room orig, of t ssrc seq]) (rule that; assumption)
  have a: "pk_payload q = pk_payload p" using q(3) by (simp add: same_pointers_def)
  have "payload_bytes q = enc2 original @ payload_bytes p"
    using h b(2) room q(4-6) enc a
    by (intro nth_equalityI) (auto simp: payload_bytes_def byte2.enc_length nth_append)
  with q(1,2) rtx_fields [OF ok q(2,3,5,7), where t = t and seq = seq and ssrc = ssrc] q(6) enc h b(2)
  show ?thesis by auto
qed

lemma RtxDecode_result:
  assumes ok: "packet_ok p" and bytes: "payload_bytes p = enc2 seq @ rest"
  shows "\<exists>q. RtxDecode t ssrc p = Some (True, q) \<and> packet_ok q \<and> payload_bytes q = rest \<and>
    GetPayloadType q = Some (t AND 0x7F) \<and> GetSsrc q = Some ssrc \<and> GetSequenceNumber q = Some seq \<and>
    rtx_view q = rtx_view p \<and> pk_payloadPadding q = 0"
proof -
  note b = packet_ok_bounds [OF ok]
  have h: "12 \<le> pk_payload p" using b(1) by (simp add: HeaderSize_def)
  have len: "pk_payloadLength p = 2 + length rest"
    using arg_cong [OF bytes, of length] b(2) by (simp add: payload_bytes_def byte2.enc_length)
  then have two: "2 \<le> pk_payloadLength p" by simp
  have at: "pk_mem p ! (pk_payload p + j) = (enc2 seq @ rest) ! j" if "j < pk_payloadLength p" for j
    using arg_cong [OF bytes, of "\<lambda>xs. xs ! j"] that b(2) by (simp add: payload_bytes_def)
  have s: "Get2Bytes (pk_mem p) (pk_payload p) = Some seq"
    using at len b(2) by (simp add: Get2Bytes_nth nth_append byte2.enc_length)
  note dec = rtx_decoded_nth(2) [OF b(1,2) two]
  obtain q where q: "RtxDecode t ssrc p = Some (True, q)" "packet_ok q" "same_pointers p q"
    "pk_payloadLength q = pk_payloadLength p - 2" "pk_payloadPadding q = 0" "length (pk_mem q) = length (pk_mem p)"
    "\<And>j. 0 < j \<Longrightarrow> j < length (pk_mem p) \<Longrightarrow> pk_mem q ! j =
      rtx_decoded (pk_mem p) (pk_payload p) (pk_payloadLength p) t ssrc seq ! j"
    "same_layout_bytes (pk_mem p) (pk_mem q) (pk_payload p)"
    by (rule RtxDecode_view [OF ok two s, of t ssrc]) (rule that; assumption)
  have a: "pk_payload q = pk_payload p" using q(3) by (simp add: same_pointers_def)
  have "payload_bytes q = rest"
  proof (rule nth_equalityI)
    show "length (payload_bytes q) = length rest" using q(4,6) len b(2) a by (simp add: payload_bytes_def)
    fix j
    assume "j < length (payload_bytes q)"
    with q(4,6) len b(2) a have j: "j < length rest" by (simp add: payload_bytes_def)
    with q(4,6,7) len b(2) a h dec at [of "j + 2"] show "payload_bytes q ! j = rest ! j"
      by (simp add: payload_bytes_def nth_append byte2.enc_length add.assoc)
  qed
  with q(1,2,5) rtx_fields [OF ok q(2,3,6,8), where t = t and seq = seq and ssrc = ssrc] q(7) dec h b(2)
  show ?thesis by auto
qed

section \<open>Shifting the payload\<close>

lemma ShiftPayload_expand:
  assumes ok: "packet_ok p" and off: "off < pk_payloadLength p" and room: "pk_size p + k \<le> length (pk_mem p)"
  shows "\<exists>q. ShiftPayload off k True p = Some q \<and> packet_ok q \<and> same_pointers p q \<and>
    pk_payloadLength q = pk_payloadLength p + k \<and> pk_payloadPadding q = pk_payloadPadding p \<and>
    (\<forall>j < pk_payload p. pk_mem q ! j = pk_mem p ! j) \<and>
    take off (payload_bytes q) = take off (payload_bytes p) \<and>
    drop (off + k) (payload_bytes q) = drop off (payload_bytes p)"
proof (cases "k = 0")
  case True
  with ok show ?thesis by (auto simp: ShiftPayload_def same_pointers_def)
next
  case False
  let ?rest = "pk_payloadLength p + unat (pk_payloadPadding p) - off"
  define m where "m = written (pk_mem p) (pk_payload p + off + k) (take ?rest (drop (pk_payload p + off) (pk_mem p)))"
  let ?q = "p\<lparr>pk_mem := m, pk_payloadLength := pk_payloadLength p + k, pk_size := pk_size p + k\<rparr>"
  note b = packet_ok_bounds [OF ok]
  have r: "pk_payload p + off + ?rest + k \<le> length (pk_mem p)" using b room off by simp
  have len: "length m = length (pk_mem p)" using r by (simp add: m_def length_written)
  have nth: "m ! j = (if pk_payload p + off + k \<le> j \<and> j < pk_payload p + off + k + ?rest
      then pk_mem p ! (j - k) else pk_mem p ! j)" if "j < length (pk_mem p)" for j
    using nth_moved_up [OF r that] by (simp only: m_def)
  have "ShiftPayload off k True p = Some ?q"
    using False off r by (simp add: ShiftPayload_def memmove_in Let_def m_def)
  moreover have keep: "m ! j = pk_mem p ! j" if "j < pk_payload p" for j using nth [of j] that b by simp
  moreover have "packet_ok ?q"
  proof (rule packet_ok_tail [where p = p and f = False])
    have "m ! (pk_size p + k - 1) = pk_mem p ! (pk_size p - 1)" if "pk_payloadPadding p \<noteq> 0"
      using that b room off nth [of "pk_size p + k - 1"] by (auto simp: HeaderSize_def add.assoc)
    then show "tail_ok ?q" using ok b room len keep [of 0]
      by (auto simp: packet_ok_def tail_ok_def HeaderSize_def)
    show "pk_mem ?q ! 0 = pk_mem p ! 0 \<or> pk_mem ?q ! 0 = write_bit (pk_mem p ! 0) 5 False"
      using keep [of 0] b by (simp add: HeaderSize_def)
  qed (use ok keep len in \<open>auto simp: packet_ok_def same_pointers_def\<close>)
  moreover have "take off (payload_bytes ?q) = take off (payload_bytes p)"
    using b len off nth room by (intro nth_equalityI) (auto simp: payload_bytes_def)
  moreover have "drop (off + k) (payload_bytes ?q) = drop off (payload_bytes p)"
    using b len off nth room by (intro nth_equalityI) (auto simp: payload_bytes_def)
  ultimately show ?thesis by (intro exI [of _ ?q]) (simp add: same_pointers_def)
qed

lemma ShiftPayload_shrink:
  assumes ok: "packet_ok p" and off: "off < pk_payloadLength p" and k: "k \<le> pk_payloadLength p - off"
  shows "\<exists>q. ShiftPayload off k False p = Some q \<and> packet_ok q \<and> same_pointers p q \<and>
    pk_payloadLength q = pk_payloadLength p - k \<and> pk_payloadPadding q = pk_payloadPadding p \<and>
    (\<forall>j < pk_payload p. pk_mem q ! j = pk_mem p ! j) \<and>
    payload_bytes q = take off (payload_bytes p) @ drop (off + k) (payload_bytes p)"
proof (cases "k = 0")
  case True
  with ok show ?thesis by (auto simp: ShiftPayload_def same_pointers_def)
next
  case False
  let ?rest = "pk_payloadLength p + unat (pk_payloadPadding p) - off - k"
  define m where "m = written (pk_mem p) (pk_payload p + off) (take ?rest (drop (pk_payload p + off + k) (pk_mem p)))"
  let ?q = "p\<lparr>pk_mem := m, pk_payloadLength := pk_payloadLength p - k, pk_size := pk_size p - k\<rparr>"
  note b = packet_ok_bounds [OF ok]
  have r: "pk_payload p + off + ?rest + k \<le> length (pk_mem p)" using b k off by simp
  have len: "length m = length (pk_mem p)" using r by (simp add: m_def length_written)
  have nth: "m ! j = (if pk_payload p + off \<le> j \<and> j < pk_payload p + off + ?rest
      then pk_mem p ! (j + k) else pk_mem p ! j)" if "j < length (pk_mem p)" for j
    using nth_moved_down [OF r that] by (simp only: m_def)
  have "ShiftPayload off k False p = Some ?q"
    using False off k r by (simp add: ShiftPayload_def memmove_in Let_def m_def)
  moreover have keep: "m ! j = pk_mem p ! j" if "j < pk_payload p" for j using nth [of j] that b by simp
  moreover have "packet_ok ?q"
  proof (rule packet_ok_tail [where p = p and f = False])
    have "m ! (pk_size p - k - 1) = pk_mem p ! (pk_size p - 1)" if "pk_payloadPadding p \<noteq> 0"
    proof -
      from that have "0 < unat (pk_payloadPadding p)" by (simp add: unat_gt_0)
      with b k off nth [of "pk_size p - k - 1"] show ?thesis by (auto simp: add.assoc)
    qed
    then show "tail_ok ?q" using ok b k len keep [of 0]
      by (auto simp: packet_ok_def tail_ok_def HeaderSize_def)
    show "pk_mem ?q ! 0 = pk_mem p ! 0 \<or> pk_mem ?q ! 0 = write_bit (pk_mem p ! 0) 5 False"
      using keep [of 0] b by (simp add: HeaderSize_def)
  qed (use ok keep len in \<open>auto simp: packet_ok_def same_pointers_def\<close>)
  moreover have "payload_bytes ?q = take off (payload_bytes p) @ drop (off + k) (payload_bytes p)"
    using b len off k nth by (intro nth_equalityI) (auto simp: payload_bytes_def nth_append ac_simps)
  ultimately show ?thesis by (intro exI [of _ ?q]) (simp add: same_pointers_def)
qed

section \<open>Header extensions\<close>

text \<open>The table that is in use, with whether it is the one of Two-Bytes extensions.\<close>

definition active_table :: "'h packet \<Rightarrow> (bool \<times> (u8 \<rightharpoonup> nat)) option" where
  "active_table p =
     (if HasOneByteExtensions p = Some True
      then map_option (\<lambda>es. (False, entries_map es)) (pk_oneByteExtensions p)
      else if HasTwoBytesExtensions p = Some True then Some (True, pk_mapTwoBytesExtensions p)
      else None)"

definition element_view :: "bool \<Rightarrow> bytes \<Rightarrow> nat \<Rightarrow> nat option \<times> u8" where
  "element_view two mem q =
     (if two then (if mem ! (q + 1) = 0 then None else Some (q + 2), mem ! (q + 1))
      else (Some (q + 1), (mem ! q AND 0x0F) + 1))"

lemma active_table_ok:
  assumes "layout_ok p" and "active_table p = Some (two, tab)"
  obtains h where "pk_headerExtension p = Some h"
    and "table_ok two (pk_mem p) (h + 4) (pk_payload p) tab"
proof (cases "pk_headerExtension p")
  case None
  with assms(2) show ?thesis
    by (simp add: active_table_def HasOneByteExtensions_def HasTwoBytesExtensions_def
        GetHeaderExtensionId_def)
next
  case (Some h)
  with assms have "table_ok two (pk_mem p) (h + 4) (pk_payload p) tab"
    by (auto simp: layout_ok_def tables_ok_def active_table_def split: if_splits)
  with Some show ?thesis by (rule that)
qed

lemma extension_id_total:
  assumes "layout_ok p"
  shows "\<exists>i. GetHeaderExtensionId p = Some i"
  using assms by (auto simp: layout_ok_def frame_ok_def GetHeaderExtensionId_def Get2Bytes_in split: option.splits)

lemma GetExtension_active:
  assumes ok: "layout_ok p" and i: "i \<noteq> 0"
  shows "GetExtension p i =
    Some (case active_table p of
            None \<Rightarrow> (None, 0)
          | Some (two, tab) \<Rightarrow>
              (case tab i of None \<Rightarrow> (None, 0) | Some q \<Rightarrow> element_view two (pk_mem p) q))"
proof -
  obtain x where x: "GetHeaderExtensionId p = Some x" using extension_id_total [OF ok] by blast
  have inside: "q + 1 < length (pk_mem p)" if t: "active_table p = Some (two, tab)" "tab i = Some q" for two tab q
  proof -
    obtain h where "table_ok two (pk_mem p) (h + 4) (pk_payload p) tab"
      using active_table_ok [OF ok t(1)] by blast
    with t(2) have "element_end two (pk_mem p) q \<le> pk_payload p" by (auto simp: table_ok_def)
    with element_end_gt [of q two "pk_mem p"] ok show ?thesis by (auto simp: layout_ok_def frame_ok_def)
  qed
  consider (one) "HasOneByteExtensions p = Some True" | (two) "HasOneByteExtensions p = Some False"
    "HasTwoBytesExtensions p = Some True" | (other) "HasOneByteExtensions p = Some False"
    "HasTwoBytesExtensions p = Some False"
    using x by (auto simp: HasOneByteExtensions_def HasTwoBytesExtensions_def)
  then show ?thesis
  proof cases
    case one
    then obtain h where h: "pk_headerExtension p = Some h"
      by (cases "pk_headerExtension p") (auto simp: HasOneByteExtensions_def GetHeaderExtensionId_def)
    with ok one obtain es where es: "pk_oneByteExtensions p = Some es" "length es = 14"
      by (auto simp: layout_ok_def tables_ok_def)
    have t: "active_table p = Some (False, entries_map es)" using one es by (simp add: active_table_def)
    show ?thesis
    proof (cases "i > 14")
      case True
      with i one x t show ?thesis
        by (auto simp: GetExtension_def HasTwoBytesExtensions_def entries_map_def)
    next
      case False
      then have "unat i - 1 < length es" using es(2) by (simp add: word_less_nat_alt)
      with i one x t es(1) inside [OF t] False show ?thesis
        by (auto simp: GetExtension_def HasTwoBytesExtensions_def one_byte_entry_def entries_map_def
            element_view_def split: option.split)
    qed
  next
    case two
    have t: "active_table p = Some (True, pk_mapTwoBytesExtensions p)" using two by (simp add: active_table_def)
    with i two inside [OF t] show ?thesis
      by (auto simp: GetExtension_def element_view_def split: option.split)
  next
    case other
    with i show ?thesis by (simp add: GetExtension_def active_table_def)
  qed
qed

lemma low_nibble_len: "unat ((b AND 0x0F :: u8) + 1) = unat (b AND 0x0F) + 1"
proof -
  have "unat (b AND 0x0F) = unat b mod 16" unfolding low_nibble_mask unat_and_mask_word by simp
  then have "unat (b AND 0x0F) < 16" by simp
  then show ?thesis by (simp add: unat_add_wrap)
qed

lemma GetExtension_element:
  assumes ok: "layout_ok p" and get: "GetExtension p i = Some (Some v, n)"
  obtains two tab q where "active_table p = Some (two, tab)" and "tab i = Some q"
    and "v = q + (if two then 2 else 1)" and "v + unat n = element_end two (pk_mem p) q" and "i \<noteq> 0"
proof -
  have i: "i \<noteq> 0" using get by (auto simp: GetExtension_def)
  from get GetExtension_active [OF ok i] obtain two tab q where t: "active_table p = Some (two, tab)"
    "tab i = Some q" "element_view two (pk_mem p) q = (Some v, n)"
    by (auto split: option.splits)
  then show thesis
    by (intro that [OF t(1,2)])
       (use i in \<open>auto simp: element_view_def element_end_def low_nibble_len split: if_splits\<close>)
qed

text \<open>A write inside the header extension that keeps the table in order.\<close>

lemma packet_ok_extension_write:
  assumes ok: "packet_ok p" and act: "active_table p = Some (two, tab)" and h: "pk_headerExtension p = Some h"
    and len: "length m = length (pk_mem p)"
    and keep: "\<And>j. j < length m \<Longrightarrow> j < h + 4 \<or> pk_payload p \<le> j \<Longrightarrow> m ! j = pk_mem p ! j"
    and tab: "table_ok two m (h + 4) (pk_payload p) tab"
  shows "packet_ok (p\<lparr>pk_mem := m\<rparr>)" and "active_table (p\<lparr>pk_mem := m\<rparr>) = Some (two, tab)"
proof -
  note b = packet_ok_bounds [OF ok]
  from ok h have fr: "h + 4 \<le> pk_payload p" "h = csrc_end (pk_mem p)"
    by (auto simp: packet_ok_def layout_ok_def frame_ok_def)
  have "0 < length m" using b(1,2) len unfolding HeaderSize_def by linarith
  then have b0: "m ! 0 = pk_mem p ! 0" using keep [of 0] by simp
  have fields: "Get2Bytes m k = Get2Bytes (pk_mem p) k" if "k = h \<or> k = h + 2" for k
    using that fr b len keep by (intro Get2Bytes_cong) auto
  then have kinds: "HasOneByteExtensions (p\<lparr>pk_mem := m\<rparr>) = HasOneByteExtensions p"
    "HasTwoBytesExtensions (p\<lparr>pk_mem := m\<rparr>) = HasTwoBytesExtensions p"
    "GetHeaderExtensionLength (p\<lparr>pk_mem := m\<rparr>) = GetHeaderExtensionLength p"
    using h by (simp_all add: HasOneByteExtensions_def HasTwoBytesExtensions_def
        GetHeaderExtensionLength_def GetHeaderExtensionId_def)
  from kinds act show "active_table (p\<lparr>pk_mem := m\<rparr>) = Some (two, tab)"
    by (auto simp: active_table_def split: if_splits)
  have "frame_ok (p\<lparr>pk_mem := m\<rparr>)"
    using ok h len b0 kinds by (auto simp: packet_ok_def layout_ok_def frame_ok_def csrc_end_def)
  moreover have "tables_ok (p\<lparr>pk_mem := m\<rparr>) h"
    using ok h act tab kinds extension_kinds [of p]
    by (auto simp: packet_ok_def layout_ok_def tables_ok_def active_table_def split: if_splits)
  moreover have "m ! (pk_size p - 1) = pk_mem p ! (pk_size p - 1)" if "pk_payloadPadding p \<noteq> 0"
  proof -
    from that have "0 < unat (pk_payloadPadding p)" by (simp add: unat_gt_0)
    with b len show ?thesis by (intro keep) linarith+
  qed
  then have "tail_ok (p\<lparr>pk_mem := m\<rparr>)"
    using ok len b0 by (auto simp: packet_ok_def tail_ok_def)
  ultimately show "packet_ok (p\<lparr>pk_mem := m\<rparr>)" using h by (simp add: packet_ok_def layout_ok_def)
qed

text \<open>
  The element \<open>i\<close> may have a value of \<open>k\<close> bytes: it stays inside the header extension and clear of
  the other elements.
\<close>

definition all_ids :: "u8 list" where
  "all_ids = map of_nat [0..<256]"

definition room_for :: "'h packet \<Rightarrow> u8 \<Rightarrow> nat \<Rightarrow> bool" where
  "room_for p i k =
     (case active_table p of
        None \<Rightarrow> True
      | Some (two, tab) \<Rightarrow>
          (case tab i of
             None \<Rightarrow> True
           | Some q \<Rightarrow>
               q + (if two then 2 else 1) + k \<le> pk_payload p \<and>
               list_all (\<lambda>j. case tab j of
                    None \<Rightarrow> True
                  | Some r \<Rightarrow> j = i \<or> q + (if two then 2 else 1) + k \<le> r
                                   \<or> element_end two (pk_mem p) r \<le> q) all_ids))"

lemma list_all_ids: "list_all P all_ids \<longleftrightarrow> (\<forall>j. P j)"
proof -
  have "j \<in> set all_ids" for j
    unfolding all_ids_def using unsigned_less [of j] by (auto intro!: image_eqI [of _ _ "unat j"])
  then show ?thesis by (auto simp: list_all_iff)
qed

lemma room_for_iff:
  "room_for p i k \<longleftrightarrow>
     (case active_table p of
        None \<Rightarrow> True
      | Some (two, tab) \<Rightarrow>
          (case tab i of
             None \<Rightarrow> True
           | Some q \<Rightarrow>
               q + (if two then 2 else 1) + k \<le> pk_payload p \<and>
               (\<forall>j r. tab j = Some r \<longrightarrow> j \<noteq> i \<longrightarrow>
                  q + (if two then 2 else 1) + k \<le> r \<or> element_end two (pk_mem p) r \<le> q)))"
  unfolding room_for_def list_all_ids by (auto split: option.split)

lemma table_ok_value_write:
  assumes t: "table_ok two mem lo hi tab" and q: "tab i = Some q"
    and room: "\<And>k r. tab k = Some r \<Longrightarrow> k \<noteq> i \<Longrightarrow> e \<le> r \<or> element_end two mem r \<le> q"
    and keep: "\<And>j. lo \<le> j \<Longrightarrow> j < hi \<Longrightarrow> j < q + (if two then 2 else 1) \<or> e \<le> j \<Longrightarrow> m ! j = mem ! j"
  shows "table_ok two m lo hi tab \<and> (\<forall>k r. tab k = Some r \<longrightarrow> element_end two m r = element_end two mem r)"
proof -
  have "element_end two m r = element_end two mem r" if r: "tab k = Some r" for k r
  proof -
    from t r have in_r: "lo \<le> r" "element_end two mem r \<le> hi" by (auto simp: table_ok_def)
    have "r < q + (if two then 2 else 1) \<or> e \<le> r"
      "two \<Longrightarrow> r + 1 < q + (if two then 2 else 1) \<or> e \<le> r + 1"
      if "k \<noteq> i"
      using room [OF r that] element_end_gt [of r two mem] by auto
    moreover have "k = i \<Longrightarrow> r = q" using q r by simp
    ultimately have "m ! r = mem ! r" "two \<Longrightarrow> m ! (r + 1) = mem ! (r + 1)"
      using in_r element_end_gt [of r two mem] keep [of r] keep [of "r + 1"] by (cases "k = i"; auto)+
    then show ?thesis by (simp add: element_end_def)
  qed
  with t show ?thesis by (auto simp: table_ok_def)
qed

lemma packet_ok_value_write:
  assumes ok: "packet_ok p" and get: "GetExtension p i = Some (Some v, n)"
    and room: "room_for p i (length bs)"
  shows "v + length bs \<le> length (pk_mem p)" and "packet_ok (p\<lparr>pk_mem := written (pk_mem p) v bs\<rparr>)"
    and "room_for (p\<lparr>pk_mem := written (pk_mem p) v bs\<rparr>) i (length bs)"
    and "GetExtension (p\<lparr>pk_mem := written (pk_mem p) v bs\<rparr>) i = Some (Some v, n)"
proof -
  from ok have lay: "layout_ok p" by (simp add: packet_ok_def)
  obtain two tab q where t: "active_table p = Some (two, tab)" "tab i = Some q"
    "v = q + (if two then 2 else 1)" "v + unat n = element_end two (pk_mem p) q" "i \<noteq> 0"
    by (rule GetExtension_element [OF lay get]) (rule that; assumption)
  obtain h where h: "pk_headerExtension p = Some h"
    "table_ok two (pk_mem p) (h + 4) (pk_payload p) tab"
    by (rule active_table_ok [OF lay t(1)]) (rule that; assumption)
  from h(2) t(2) have q: "h + 4 \<le> q" by (auto simp: table_ok_def)
  from room t(1-3) have e: "v + length bs \<le> pk_payload p"
    and free: "\<And>k r. tab k = Some r \<Longrightarrow> k \<noteq> i \<Longrightarrow> v + length bs \<le> r \<or> element_end two (pk_mem p) r \<le> q"
    by (auto simp: room_for_iff)
  from e packet_ok_bounds [OF ok] show inside: "v + length bs \<le> length (pk_mem p)" by linarith
  let ?m = "written (pk_mem p) v bs"
  have tab: "table_ok two ?m (h + 4) (pk_payload p) tab \<and>
    (\<forall>k r. tab k = Some r \<longrightarrow> element_end two ?m r = element_end two (pk_mem p) r)"
  proof (rule table_ok_value_write [OF h(2) t(2) free])
    fix j
    assume "j < pk_payload p" and "j < q + (if two then 2 else 1) \<or> v + length bs \<le> j"
    then show "?m ! j = pk_mem p ! j"
      using t(3) inside packet_ok_bounds [OF ok] by (intro written_outside) linarith+
  qed
  have keep: "?m ! j = pk_mem p ! j" if "j < length ?m" and "j < h + 4 \<or> pk_payload p \<le> j" for j
    using that q t(3) e inside by (intro written_outside) (auto simp: length_written split: if_splits)
  note w = packet_ok_extension_write [OF ok t(1) h(1) length_written [OF inside] keep conjunct1 [OF tab]]
  from w(1) show "packet_ok (p\<lparr>pk_mem := ?m\<rparr>)" .
  from w(2) tab t(1-3) e free show "room_for (p\<lparr>pk_mem := ?m\<rparr>) i (length bs)"
    by (auto simp: room_for_iff)
  have lay': "layout_ok (p\<lparr>pk_mem := ?m\<rparr>)" using w(1) by (simp add: packet_ok_def)
  have "element_view two ?m q = element_view two (pk_mem p) q"
    using t(3) inside packet_ok_bounds [OF ok]
    by (auto simp: element_view_def intro!: arg_cong2 [where f = Pair] simp: written_outside)
  with GetExtension_active [OF lay t(5)] GetExtension_active [OF lay' t(5)] get t(1,2) w(2)
  show "GetExtension (p\<lparr>pk_mem := ?m\<rparr>) i = Some (Some v, n)" by simp
qed

text \<open>There is always room for a value that is not longer than the one in place.\<close>

lemma room_for_shorter:
  assumes ok: "packet_ok p" and get: "GetExtension p i = Some (Some v, n)" and k: "k \<le> unat n"
  shows "room_for p i k"
proof -
  from ok have lay: "layout_ok p" by (simp add: packet_ok_def)
  obtain two tab q where t: "active_table p = Some (two, tab)" "tab i = Some q"
    "v = q + (if two then 2 else 1)" "v + unat n = element_end two (pk_mem p) q"
    by (rule GetExtension_element [OF lay get]) (rule that; assumption)
  obtain h where h: "table_ok two (pk_mem p) (h + 4) (pk_payload p) tab"
    by (rule active_table_ok [OF lay t(1)]) (rule that; assumption)
  have e: "q + (if two then 2 else 1) + k \<le> element_end two (pk_mem p) q" using t(3,4) k by linarith
  moreover from h t(2) have "element_end two (pk_mem p) q \<le> pk_payload p" by (auto simp: table_ok_def)
  moreover have "element_end two (pk_mem p) q \<le> r \<or> element_end two (pk_mem p) r \<le> q"
    if "tab j = Some r" "j \<noteq> i" for j r
    using h t(2) that unfolding table_ok_def by blast
  ultimately show ?thesis using t(1,2) by (fastforce simp: room_for_iff)
qed

lemma GetExtension_total:
  assumes "packet_ok p"
  shows "\<exists>v n. GetExtension p i = Some (v, n)"
proof (cases "i = 0")
  case True
  then show ?thesis by (simp add: GetExtension_def)
next
  case False
  with assms GetExtension_active [of p i] show ?thesis by (metis packet_ok_def surj_pair)
qed

lemma Set3Bytes_written:
  assumes "i + 3 \<le> length mem"
  shows "Set3Bytes mem i v = Some (written mem i (enc3 (ucast v)))"
proof -
  let ?w = "ucast v :: 24 word"
  have "ucast (drop_bit 16 (ucast ?w :: u32)) = (ucast (drop_bit 16 v) :: u8)"
    "ucast (drop_bit 8 (ucast ?w :: u32)) = (ucast (drop_bit 8 v) :: u8)"
    "ucast (ucast ?w :: u32) = (ucast v :: u8)"
    by (rule bit_word_eqI, auto simp: bit_simps dest: bit_imp_le_length)+
  then have "Set3Bytes mem i v = Set3Bytes mem i (ucast ?w)" by (simp add: Set3Bytes_def)
  with byte3.set_eq [of mem i ?w] assms byte3.enc_length [of ?w] show ?thesis by (simp add: written_def)
qed

lemma UpdateAbsSendTime_ok:
  assumes ok: "packet_ok p"
  shows "\<exists>r q. UpdateAbsSendTime ms p = Some (r, q) \<and> packet_ok q"
proof -
  obtain v n where get: "GetExtension p (pk_absSendTimeExtensionId p) = Some (v, n)"
    using GetExtension_total [OF ok] by blast
  show ?thesis
  proof (cases "v = None \<or> n \<noteq> 3")
    case True
    with get ok show ?thesis by (auto simp: UpdateAbsSendTime_def split: option.split)
  next
    case False
    then obtain w where w: "v = Some w" "n = 3" by auto
    let ?bs = "enc3 (ucast (TimeMsToAbsSendTime ms))"
    have len: "length ?bs = 3" by (rule byte3.enc_length)
    then have "length ?bs \<le> unat n" using w(2) by simp
    note wr = packet_ok_value_write [OF ok get [unfolded w(1)] room_for_shorter [OF ok get [unfolded w(1)] this]]
    from wr(1) len have "w + 3 \<le> length (pk_mem p)" by simp
    with get w wr(2) show ?thesis by (auto simp: UpdateAbsSendTime_def with_mem_def Set3Bytes_written)
  qed
qed

lemma UpdateTransportWideCc01_ok:
  assumes ok: "packet_ok p"
  shows "\<exists>r q. UpdateTransportWideCc01 x p = Some (r, q) \<and> packet_ok q"
proof -
  obtain v n where get: "GetExtension p (pk_transportWideCc01ExtensionId p) = Some (v, n)"
    using GetExtension_total [OF ok] by blast
  show ?thesis
  proof (cases "v = None \<or> n \<noteq> 2")
    case True
    with get ok show ?thesis by (auto simp: UpdateTransportWideCc01_def split: option.split)
  next
    case False
    then obtain w where w: "v = Some w" "n = 2" by auto
    have len: "length (enc2 x) = 2" by (rule byte2.enc_length)
    then have "length (enc2 x) \<le> unat n" using w(2) by simp
    note wr = packet_ok_value_write [OF ok get [unfolded w(1)] room_for_shorter [OF ok get [unfolded w(1)] this]]
    from wr(1) len have "w + 2 \<le> length (pk_mem p)" by simp
    with get w wr(2) show ?thesis by (auto simp: UpdateTransportWideCc01_def with_mem_def Set2Bytes_written)
  qed
qed

text \<open>A new length for one element, with the bytes that the value loses set to zero.\<close>

lemma table_ok_resize:
  assumes t: "table_ok two mem lo hi tab" and q: "tab i = Some q" and e: "element_end two m q \<le> hi"
    and room: "\<And>k r. tab k = Some r \<Longrightarrow> k \<noteq> i \<Longrightarrow> element_end two m q \<le> r \<or> element_end two mem r \<le> q"
    and keep: "\<And>j. lo \<le> j \<Longrightarrow> j < hi \<Longrightarrow> j < q \<or> element_end two mem q \<le> j \<Longrightarrow> m ! j = mem ! j"
  shows "table_ok two m lo hi tab"
proof -
  have same: "element_end two m r = element_end two mem r" if r: "tab k = Some r" "k \<noteq> i" for k r
  proof -
    from t r(1) have in_r: "lo \<le> r" "element_end two mem r \<le> hi" by (auto simp: table_ok_def)
    from t q r have "element_end two mem q \<le> r \<or> element_end two mem r \<le> q"
      unfolding table_ok_def by blast
    then have "m ! r = mem ! r" "m ! (r + 1) = mem ! (r + 1)"
      using in_r element_end_gt [of r two mem] keep [of r] keep [of "r + 1"] by auto
    then show ?thesis by (simp add: element_end_def)
  qed
  have "lo \<le> r \<and> element_end two m r \<le> hi" if "tab k = Some r" for k r
    using that t q e same [of k r] by (cases "k = i") (auto simp: table_ok_def)
  moreover have "element_end two m r \<le> x \<or> element_end two m x \<le> r"
    if "tab k = Some r" "tab j = Some x" "k \<noteq> j" for k j r x
  proof -
    consider "k = i" | "j = i" | "k \<noteq> i" "j \<noteq> i" by blast
    then show ?thesis
    proof cases
      case 3
      with that t have "element_end two mem r \<le> x \<or> element_end two mem x \<le> r"
        unfolding table_ok_def by blast
      with same [OF that(1) 3(1)] same [OF that(2) 3(2)] show ?thesis by simp
    qed (use that q room [of j x] room [of k r] same [of j x] same [of k r] in auto)
  qed
  ultimately show ?thesis by (auto simp: table_ok_def)
qed

lemma nibble_merge: "((b AND 0xF0) OR (x AND 0x0F)) AND 0x0F = x AND (0x0F :: u8)"
proof -
  have m: "(0xF0 :: u8) = NOT (mask 4)" by (simp add: mask_eq_exp_minus_1)
  show ?thesis unfolding low_nibble_mask m by (rule bit_word_eqI) (auto simp: bit_simps)
qed

lemma nibble_small: "unat x < 16 \<Longrightarrow> (x :: u8) AND 0x0F = x"
  unfolding low_nibble_mask by (simp add: word_unat_eq_iff unat_and_mask_word)

lemma packet_ok_resize:
  assumes ok: "packet_ok p" and act: "active_table p = Some (two, tab)" and q: "tab i = Some q"
    and room: "room_for p i k" and len: "length m = length (pk_mem p)"
    and e: "element_end two m q = q + (if two then 2 else 1) + k"
    and keep: "\<And>j. j < length m \<Longrightarrow> j < q \<or> element_end two (pk_mem p) q \<le> j \<Longrightarrow> m ! j = pk_mem p ! j"
  shows "packet_ok (p\<lparr>pk_mem := m\<rparr>)"
proof -
  from ok have lay: "layout_ok p" by (simp add: packet_ok_def)
  obtain h where h: "pk_headerExtension p = Some h"
    "table_ok two (pk_mem p) (h + 4) (pk_payload p) tab"
    by (rule active_table_ok [OF lay act]) (rule that; assumption)
  from h(2) q have inside: "h + 4 \<le> q" "element_end two (pk_mem p) q \<le> pk_payload p"
    by (auto simp: table_ok_def)
  have "table_ok two m (h + 4) (pk_payload p) tab"
    by (rule table_ok_resize [OF h(2) q])
       (use room act q e keep len packet_ok_bounds [OF ok] in \<open>auto simp: room_for_iff\<close>)
  with inside keep show ?thesis
    by (intro packet_ok_extension_write(1) [OF ok act h(1) len]) auto
qed

lemma SetExtensionLength_ok:
  assumes ok: "packet_ok p" and act: "active_table p = Some (two, tab)" and tabi: "tab i = Some q" and i0: "i \<noteq> 0"
    and k: "0 < unat k" "\<not> two \<Longrightarrow> unat k \<le> 16" and room: "room_for p i (unat k)"
  shows "\<exists>q. SetExtensionLength i k p = Some (True, q) \<and> packet_ok q"
proof -
  from ok have lay: "layout_ok p" by (simp add: packet_ok_def)
  define v where "v = q + (if two then 2 else 1)"
  define n where "n = (if two then pk_mem p ! (q + 1) else (pk_mem p ! q AND 0x0F) + 1)"
  have t: "active_table p = Some (two, tab)" "tab i = Some q"
    "v = q + (if two then 2 else 1)" "v + unat n = element_end two (pk_mem p) q" "i \<noteq> 0"
    using act tabi i0 by (simp_all add: v_def n_def element_end_def low_nibble_len)
  obtain h where h: "pk_headerExtension p = Some h"
    "table_ok two (pk_mem p) (h + 4) (pk_payload p) tab"
    by (rule active_table_ok [OF lay t(1)]) (rule that; assumption)
  from h(2) t(2) have "element_end two (pk_mem p) q \<le> pk_payload p" by (auto simp: table_ok_def)
  with packet_ok_bounds [OF ok] have inside: "element_end two (pk_mem p) q \<le> length (pk_mem p)" by linarith
  define m where "m = (if unat k < unat n then written (pk_mem p) (v + unat k) (replicate (unat n - unat k) 0)
    else pk_mem p)"
  have m: "length m = length (pk_mem p)" "\<And>j. j < length (pk_mem p) \<Longrightarrow> j < v \<or> v + unat n \<le> j \<Longrightarrow>
      m ! j = pk_mem p ! j" "unat k < unat n \<Longrightarrow>
      write_bytes (pk_mem p) (v + unat k) (replicate (unat n - unat k) 0) = Some m"
    using inside t(4) by (auto simp: m_def length_written written_outside write_bytes_written)
  have k0: "k \<noteq> 0" using k(1) by auto
  obtain x where x: "GetHeaderExtensionId p = Some x" using extension_id_total [OF lay] by blast
  show ?thesis
  proof (cases two)
    case True
    let ?m = "m[q + 1 := k]"
    from t(1) True have tab: "HasOneByteExtensions p \<noteq> Some True" "HasTwoBytesExtensions p = Some True"
      "pk_mapTwoBytesExtensions p = tab" by (auto simp: active_table_def split: if_splits)
    have n: "pk_mem p ! (q + 1) = n" "q + 1 < length (pk_mem p)"
      using t(3,4) True inside element_end_gt [of q two "pk_mem p"]
      by (auto simp: element_end_def word_unat_eq_iff)
    have "SetExtensionLength i k p = Some (True, p\<lparr>pk_mem := ?m\<rparr>)"
      using k0 t(2,3,5) x tab n m True
      by (auto simp: SetExtensionLength_def HasOneByteExtensions_def with_mem_def word_less_nat_alt m_def)
    moreover have "packet_ok (p\<lparr>pk_mem := ?m\<rparr>)"
      by (rule packet_ok_resize [OF ok t(1,2) room])
         (use m n t(3,4) True in \<open>auto simp: element_end_def nth_list_update\<close>)
    ultimately show ?thesis by blast
  next
    case False
    let ?b = "(pk_mem p ! q AND 0xF0) OR ((k - 1) AND 0x0F)"
    let ?m = "m[q := ?b]"
    from t(1) False obtain es where tab: "HasOneByteExtensions p = Some True"
      "pk_oneByteExtensions p = Some es" "entries_map es = tab"
      by (auto simp: active_table_def split: if_splits)
    with h(1) lay have "length es = 14" by (auto simp: layout_ok_def tables_ok_def)
    with t(2,5) tab have entry: "one_byte_entry p i = Some (Some q)"
      by (auto simp: one_byte_entry_def entries_map_def word_less_nat_alt split: if_splits)
    have n: "unat (pk_mem p ! q AND 0x0F) + 1 = unat n" "q < length (pk_mem p)"
      using t(3,4) False inside element_end_gt [of q two "pk_mem p"] by (auto simp: element_end_def)
    have "unat (k - 1) = unat k - 1" using k(1) by (simp add: unat_sub_wrap)
    then have b: "unat (?b AND 0x0F) + 1 = unat k"
      using k(1) k(2) [OF False] nibble_small [of "k - 1"] unfolding nibble_merge by simp
    have "SetExtensionLength i k p = Some (True, p\<lparr>pk_mem := ?m\<rparr>)"
      using k0 t(3,5) x tab n m entry False
      by (auto simp: SetExtensionLength_def HasTwoBytesExtensions_def with_mem_def m_def Let_def)
    moreover have "packet_ok (p\<lparr>pk_mem := ?m\<rparr>)"
      by (rule packet_ok_resize [OF ok t(1,2) room])
         (use m n b t(3,4) False in \<open>auto simp: element_end_def nth_list_update\<close>)
    ultimately show ?thesis by blast
  qed
qed

text \<open>The caller's side: room for the new length, and what the One-Byte form can express.\<close>

definition length_fits :: "u8 \<Rightarrow> u8 \<Rightarrow> 'h packet \<Rightarrow> bool" where
  "length_fits i len p \<longleftrightarrow>
     room_for p i (unat len) \<and> (HasOneByteExtensions p = Some True \<longrightarrow> i \<le> 14 \<and> len \<le> 16)"

lemma SetExtensionLength_total:
  assumes ok: "packet_ok p" and fits: "length_fits i k p"
  shows "\<exists>r q. SetExtensionLength i k p = Some (r, q) \<and> packet_ok q"
proof (cases "\<exists>two tab q. active_table p = Some (two, tab) \<and> tab i = Some q \<and> i \<noteq> 0 \<and> k \<noteq> 0")
  case True
  then obtain two tab q where t: "active_table p = Some (two, tab)" "tab i = Some q" "i \<noteq> 0" "k \<noteq> 0"
    by blast
  have "unat k \<le> 16" if "\<not> two"
    using that t(1) fits by (auto simp: length_fits_def active_table_def word_le_nat_alt split: if_splits)
  with SetExtensionLength_ok [OF ok t(1-3), of k] t(4) fits show ?thesis
    by (auto simp: length_fits_def unat_gt_0)
next
  case False
  from ok have lay: "layout_ok p" by (simp add: packet_ok_def)
  obtain x where x: "GetHeaderExtensionId p = Some x" using extension_id_total [OF lay] by blast
  have one: "one_byte_entry p i = Some (entries_map es i)"
    if "HasOneByteExtensions p = Some True" "pk_oneByteExtensions p = Some es" "i \<noteq> 0" for es
  proof -
    have "active_table p = Some (False, entries_map es)" using that by (simp add: active_table_def)
    then obtain h where "pk_headerExtension p = Some h" using active_table_ok [OF lay] by metis
    with that lay have "length es = 14" by (auto simp: layout_ok_def tables_ok_def)
    moreover have "i \<le> 14" using fits that(1) by (simp add: length_fits_def)
    ultimately show ?thesis
      using that(2,3) by (auto simp: one_byte_entry_def entries_map_def word_le_nat_alt word_less_nat_alt unat_gt_0)
  qed
  have "SetExtensionLength i k p = Some (False, p)"
  proof (cases "k = 0 \<or> i = 0")
    case True
    then show ?thesis by (auto simp: SetExtensionLength_def)
  next
    case ne: False
    show ?thesis
    proof (cases "HasOneByteExtensions p = Some True")
      case True
      obtain es where es: "pk_oneByteExtensions p = Some es"
      proof (cases "pk_headerExtension p")
        case None
        with True show thesis by (simp add: HasOneByteExtensions_def GetHeaderExtensionId_def)
      next
        case (Some h)
        with True lay that show thesis by (auto simp: layout_ok_def tables_ok_def)
      qed
      then have "entries_map es i = None" using False True ne by (auto simp: active_table_def)
      with True es one [OF True es] ne x show ?thesis
        by (simp add: SetExtensionLength_def HasTwoBytesExtensions_def)
    next
      case no: False
      have "HasTwoBytesExtensions p = Some True \<Longrightarrow> pk_mapTwoBytesExtensions p i = None"
        using False no ne by (auto simp: active_table_def)
      with no ne x show ?thesis
        by (cases "HasTwoBytesExtensions p")
           (auto simp: SetExtensionLength_def HasOneByteExtensions_def HasTwoBytesExtensions_def)
    qed
  qed
  with ok show ?thesis by blast
qed

lemma UpdateMid_ok:
  assumes ok: "packet_ok p" and room: "length mid \<le> MidMaxLength \<longrightarrow> room_for p (pk_midExtensionId p) (length mid)"
  shows "\<exists>q. UpdateMid mid p = Some q \<and> packet_ok q"
proof -
  let ?i = "pk_midExtensionId p"
  obtain v n where get: "GetExtension p ?i = Some (v, n)" using GetExtension_total [OF ok] by blast
  show ?thesis
  proof (cases "v = None \<or> length mid > MidMaxLength")
    case True
    with get ok show ?thesis by (auto simp: UpdateMid_def split: option.split)
  next
    case False
    then obtain w where w: "v = Some w" "length mid \<le> 8" by (auto simp: MidMaxLength_def)
    with room have r: "room_for p ?i (length mid)" by (simp add: MidMaxLength_def)
    note wr = packet_ok_value_write [OF ok get [unfolded w(1)] r]
    let ?p = "p\<lparr>pk_mem := written (pk_mem p) w mid\<rparr>" and ?k = "of_nat (length mid) :: u8"
    have k: "unat ?k = length mid" using w(2) by (intro unat_of_nat_less) simp
    have "UpdateMid mid p = map_option snd (SetExtensionLength ?i ?k ?p)"
      using get w wr(1) by (simp add: UpdateMid_def with_mem_def write_bytes_written MidMaxLength_def)
    moreover have "\<exists>r q. SetExtensionLength ?i ?k ?p = Some (r, q) \<and> packet_ok q"
    proof (cases "mid = []")
      case True
      with wr(2) show ?thesis by (auto simp: SetExtensionLength_def)
    next
      case False
      then have "0 < unat ?k" using k by simp
      moreover have lay: "layout_ok ?p" using wr(2) by (simp add: packet_ok_def)
      obtain two tab q where "active_table ?p = Some (two, tab)" "tab ?i = Some q" "?i \<noteq> 0"
        by (rule GetExtension_element [OF lay wr(4)]) (rule that; assumption)
      ultimately show ?thesis
        using k w(2) SetExtensionLength_ok [OF wr(2), of two tab ?i q ?k] wr(3) by auto
    qed
    ultimately show ?thesis by auto
  qed
qed

end
