(* ===== verification/RtpPacketExtensions.thy ===== *)
theory RtpPacketExtensions
  imports RtpPacketOps
begin

unbundle bit_operations_syntax

text \<open>
  \<^verbatim>\<open>RtpPacket::SetExtensions\<close> and \<^verbatim>\<open>RtpPacket::Clone\<close>: the new header extension holds exactly the
  elements it was given, the payload moves with it, and the clone has the bytes of its original up to
  the padding. Then the packet as a machine: the methods that change a packet keep the invariant, and
  under the invariant every reader stays inside the packet.
\<close>

section \<open>Writing the elements\<close>

definition last_extension :: "u8 \<Rightarrow> generic_extension list \<Rightarrow> u8 \<Rightarrow> generic_extension option" where
  "last_extension ty es i = find (\<lambda>e. \<not> skip_extension ty e \<and> ge_id e = i) (rev es)"

definition current_table :: "u8 \<Rightarrow> 'h packet \<Rightarrow> u8 \<rightharpoonup> nat" where
  "current_table ty p =
     (if ty = 1 then (case pk_oneByteExtensions p of None \<Rightarrow> Map.empty | Some es \<Rightarrow> entries_map es)
      else pk_mapTwoBytesExtensions p)"

definition with_tables ::
  "'h packet \<Rightarrow> bytes \<Rightarrow> nat option list option \<Rightarrow> (u8 \<rightharpoonup> nat) \<Rightarrow> 'h packet" where
  "with_tables p m one two =
     p\<lparr>pk_mem := m, pk_oneByteExtensions := one, pk_mapTwoBytesExtensions := two\<rparr>"

definition header_length :: "u8 \<Rightarrow> nat" where
  "header_length ty = (if ty = 1 then 1 else 2)"

text \<open>The element \<open>e\<close> stands at \<open>q\<close>.\<close>

definition stands_at :: "u8 \<Rightarrow> bytes \<Rightarrow> nat \<Rightarrow> generic_extension \<Rightarrow> bool" where
  "stands_at ty m q e \<longleftrightarrow>
     q + extension_size ty e \<le> length m \<and>
     (if ty = 1 then m ! q = push_bit 4 (ge_id e) OR ((ge_len e - 1) AND 0x0F)
      else m ! q = ge_id e \<and> m ! (q + 1) = ge_len e) \<and>
     take (unat (ge_len e)) (drop (q + header_length ty) m) = take (unat (ge_len e)) (ge_value e)"

definition values_ok :: "u8 \<Rightarrow> generic_extension list \<Rightarrow> bool" where
  "values_ok ty es = list_all (\<lambda>e. skip_extension ty e \<or> unat (ge_len e) \<le> length (ge_value e)) es"

definition total_size :: "u8 \<Rightarrow> generic_extension list \<Rightarrow> nat" where
  "total_size ty es = sum_list (map (extension_size ty) es)"

lemma last_extension_Nil [simp]: "last_extension ty [] i = None"
  by (simp add: last_extension_def)

lemma find_append: "find P (xs @ ys) = (case find P xs of None \<Rightarrow> find P ys | Some x \<Rightarrow> Some x)"
  by (induction xs) auto

lemma last_extension_Cons:
  "last_extension ty (e # es) i =
     (case last_extension ty es i of
        None \<Rightarrow> if \<not> skip_extension ty e \<and> ge_id e = i then Some e else None
      | Some x \<Rightarrow> Some x)"
  by (simp add: last_extension_def find_append split: option.split)

lemma not_skip_one:
  assumes "\<not> skip_extension 1 e"
  shows "ge_id e \<noteq> 0" "ge_id e \<le> 14" "0 < unat (ge_len e)" "unat (ge_len e) \<le> 16"
  using assms by (auto simp: skip_extension_def unat_gt_0 word_less_nat_alt word_le_nat_alt)

lemma one_byte_header:
  assumes "\<not> skip_extension 1 e"
  defines "b \<equiv> push_bit 4 (ge_id e) OR ((ge_len e - 1) AND 0x0F)"
  shows "(b AND 0x0F) + 1 = ge_len e" and "unat (b AND 0x0F) + 1 = unat (ge_len e)"
proof -
  have "unat (ge_len e - 1) = unat (ge_len e) - 1"
    using not_skip_one(3) [OF assms(1)] by (simp add: unat_sub_wrap)
  then have s: "(ge_len e - 1) AND 0x0F = ge_len e - 1"
    using not_skip_one(3,4) [OF assms(1)] by (intro nibble_small) simp
  have "b AND 0x0F = (ge_len e - 1) AND 0x0F"
    unfolding b_def low_nibble_mask by (rule bit_word_eqI) (auto simp: bit_simps)
  with s have b: "b AND 0x0F = ge_len e - 1" by simp
  then show l: "(b AND 0x0F) + 1 = ge_len e" by simp
  show "unat (b AND 0x0F) + 1 = unat (ge_len e)"
    using low_nibble_len [of b] unfolding l by simp
qed

lemma stands_at_end:
  assumes "ty = 1 \<or> ty = 2" and "\<not> skip_extension ty e" and "stands_at ty m q e"
  shows "element_end (ty = 2) m q = q + extension_size ty e"
  using assms one_byte_header(2) [of e]
  by (auto simp: stands_at_def element_end_def extension_size_def)

lemma stands_at_view:
  assumes "ty = 1 \<or> ty = 2" and "\<not> skip_extension ty e" and "stands_at ty m q e"
  shows "element_view (ty = 2) m q =
    (if ge_len e = 0 then None else Some (q + header_length ty), ge_len e)"
  using assms one_byte_header(1) [of e] not_skip_one(3) [of e]
  by (auto simp: stands_at_def element_view_def header_length_def)

lemma stands_at_cong:
  assumes "stands_at ty m q e" and "length m' = length m" and "\<not> skip_extension ty e"
    and "\<And>j. q \<le> j \<Longrightarrow> j < q + extension_size ty e \<Longrightarrow> m' ! j = m ! j"
  shows "stands_at ty m' q e"
proof -
  from assms(1) have len: "q + extension_size ty e \<le> length m" by (simp add: stands_at_def)
  have "extension_size ty e = header_length ty + unat (ge_len e)"
    using assms(3) by (simp add: extension_size_def header_length_def)
  moreover from this have "take (unat (ge_len e)) (drop (q + header_length ty) m') =
      take (unat (ge_len e)) (drop (q + header_length ty) m)"
    using assms(2,4) len by (intro nth_equalityI) auto
  ultimately show ?thesis
    using assms len by (auto simp: stands_at_def header_length_def split: if_splits)
qed

text \<open>One step of the loop.\<close>

lemma write_extension_step:
  assumes ty: "ty = 1 \<or> ty = 2" and e: "\<not> skip_extension ty e" "unat (ge_len e) \<le> length (ge_value e)"
    and room: "ptr + extension_size ty e \<le> length (pk_mem p)"
    and arr: "ty = 1 \<longrightarrow> (\<exists>entries. pk_oneByteExtensions p = Some entries \<and> length entries = 14)"
  obtains m one two where
    "write_extensions ty (e # es) p ptr =
      write_extensions ty es (with_tables p m one two) (ptr + extension_size ty e)"
    and "length m = length (pk_mem p)" and "stands_at ty m ptr e"
    and "\<And>j. j < length m \<Longrightarrow> j < ptr \<or> ptr + extension_size ty e \<le> j \<Longrightarrow> m ! j = pk_mem p ! j"
    and "ty = 1 \<Longrightarrow> \<exists>entries. one = Some entries \<and> length entries = 14"
    and "current_table ty (with_tables p m one two) = (current_table ty p)(ge_id e \<mapsto> ptr)"
proof (cases "ty = 1")
  case True
  let ?v = "take (unat (ge_len e)) (ge_value e)"
  let ?b = "push_bit 4 (ge_id e) OR ((ge_len e - 1) AND 0x0F)"
  let ?m = "written (written (pk_mem p) ptr [?b]) (ptr + 1) ?v"
  obtain entries where en: "pk_oneByteExtensions p = Some entries" "length entries = 14"
    using arr True by blast
  let ?one = "Some (entries[unat (ge_id e) - 1 := Some ptr])"
  have sz: "extension_size ty e = 1 + unat (ge_len e)" using e(1) True by (simp add: extension_size_def)
  have l1: "length (written (pk_mem p) ptr [?b]) = length (pk_mem p)" using room sz by (simp add: length_written)
  have l: "length ?m = length (pk_mem p)" using l1 room sz e(2) by (simp add: length_written)
  have nth: "?m ! j = (if j = ptr then ?b else if ptr + 1 \<le> j \<and> j < ptr + extension_size ty e
      then ?v ! (j - (ptr + 1)) else pk_mem p ! j)" if "j < length (pk_mem p)" for j
    using l1 room sz e(2) that by (auto simp: nth_written)
  show thesis
  proof (rule that [where m = ?m and one = ?one and two = "pk_mapTwoBytesExtensions p"])
    show "write_extensions ty (e # es) p ptr = write_extensions ty es
      (with_tables p ?m ?one (pk_mapTwoBytesExtensions p)) (ptr + extension_size ty e)"
      using True e en room sz l1
      by (simp add: write_bytes_written list_update_written with_tables_def)
    show "stands_at ty ?m ptr e"
      using True l nth room sz e(2)
      by (auto simp: stands_at_def header_length_def intro!: nth_equalityI)
    show "current_table ty (with_tables p ?m ?one (pk_mapTwoBytesExtensions p)) =
      (current_table ty p)(ge_id e \<mapsto> ptr)"
      using True en entries_map_update [OF en(2), of "ge_id e" ptr] not_skip_one(1,2) [of e] e(1)
      by (simp add: current_table_def with_tables_def)
  qed (use l nth en sz in auto)
next
  case False
  with ty have ty: "ty = 2" by simp
  let ?v = "take (unat (ge_len e)) (ge_value e)"
  let ?m = "written (written (written (pk_mem p) ptr [ge_id e]) (ptr + 1) [ge_len e]) (ptr + 2) ?v"
  let ?two = "(pk_mapTwoBytesExtensions p)(ge_id e \<mapsto> ptr)"
  have sz: "extension_size ty e = 2 + unat (ge_len e)" using e(1) ty by (simp add: extension_size_def)
  have l1: "length (written (pk_mem p) ptr [ge_id e]) = length (pk_mem p)" using room sz by (simp add: length_written)
  have l2: "length (written (written (pk_mem p) ptr [ge_id e]) (ptr + 1) [ge_len e]) = length (pk_mem p)"
    using l1 room sz by (simp add: length_written)
  have l: "length ?m = length (pk_mem p)" using l2 room sz e(2) by (simp add: length_written)
  have nth: "?m ! j = (if j = ptr then ge_id e else if j = ptr + 1 then ge_len e
      else if ptr + 2 \<le> j \<and> j < ptr + extension_size ty e
      then ?v ! (j - (ptr + 2)) else pk_mem p ! j)" if "j < length (pk_mem p)" for j
    using l1 l2 room sz e(2) that by (auto simp: nth_written)
  show thesis
  proof (rule that [where m = ?m and one = "pk_oneByteExtensions p" and two = ?two])
    show "write_extensions ty (e # es) p ptr = write_extensions ty es
      (with_tables p ?m (pk_oneByteExtensions p) ?two) (ptr + extension_size ty e)"
      using ty e room sz l1 l2 by (simp add: write_bytes_written list_update_written with_tables_def)
    show "stands_at ty ?m ptr e"
      using ty l nth room sz e(2)
      by (auto simp: stands_at_def header_length_def intro!: nth_equalityI)
  qed (use l nth sz ty in \<open>auto simp: current_table_def with_tables_def\<close>)
qed

text \<open>
  The loop: it ends after all elements, touches only its own bytes, and leaves a table in which the
  last element of each id is found and every other entry is as before.
\<close>

definition elements_written ::
  "u8 \<Rightarrow> generic_extension list \<Rightarrow> 'h packet \<Rightarrow> nat \<Rightarrow> nat
     \<Rightarrow> bytes \<Rightarrow> nat option list option \<Rightarrow> (u8 \<rightharpoonup> nat) \<Rightarrow> bool" where
  "elements_written ty es p lo ptr m one two \<longleftrightarrow>
     write_extensions ty es p ptr = Some (with_tables p m one two, ptr + total_size ty es) \<and>
     length m = length (pk_mem p) \<and>
     (\<forall>j < length m. j < ptr \<or> ptr + total_size ty es \<le> j \<longrightarrow> m ! j = pk_mem p ! j) \<and>
     (ty = 1 \<longrightarrow> (\<exists>entries. one = Some entries \<and> length entries = 14)) \<and>
     table_ok (ty = 2) m lo (ptr + total_size ty es) (current_table ty (with_tables p m one two)) \<and>
     (\<forall>i. case last_extension ty es i of
            None \<Rightarrow> current_table ty (with_tables p m one two) i = current_table ty p i
          | Some e \<Rightarrow> (\<exists>x. current_table ty (with_tables p m one two) i = Some x \<and> stands_at ty m x e))"

lemma current_table_with_tables:
  "current_table ty (with_tables (with_tables p m one two) m' one' two') =
   current_table ty (with_tables p m' one' two')"
  by (simp add: current_table_def with_tables_def)

lemma write_extensions_ok:
  assumes "ty = 1 \<or> ty = 2" and "values_ok ty es" and "ptr + total_size ty es \<le> length (pk_mem p)"
    and "ty = 1 \<longrightarrow> (\<exists>entries. pk_oneByteExtensions p = Some entries \<and> length entries = 14)"
    and "lo \<le> ptr" and "table_ok (ty = 2) (pk_mem p) lo ptr (current_table ty p)"
  shows "\<exists>m one two. elements_written ty es p lo ptr m one two"
  using assms
proof (induction es arbitrary: p ptr)
  case Nil
  then have "elements_written ty [] p lo ptr (pk_mem p) (pk_oneByteExtensions p) (pk_mapTwoBytesExtensions p)"
    by (simp add: elements_written_def with_tables_def total_size_def)
  then show ?case by blast
next
  case (Cons e es)
  show ?case
  proof (cases "skip_extension ty e")
    case True
    then have sz: "total_size ty (e # es) = total_size ty es" by (simp add: total_size_def extension_size_def)
    have lst: "last_extension ty (e # es) = last_extension ty es"
      using True by (intro ext) (simp add: last_extension_Cons split: option.split)
    have "elements_written ty (e # es) p lo ptr = elements_written ty es p lo ptr"
      unfolding elements_written_def sz lst using True by simp
    moreover have "values_ok ty es" using Cons.prems(2) by (simp add: values_ok_def)
    ultimately show ?thesis using Cons.IH [OF Cons.prems(1) _ _ Cons.prems(4-6)] Cons.prems(3) sz by simp
  next
    case False
    let ?n = "extension_size ty e"
    have sz: "total_size ty (e # es) = ?n + total_size ty es" by (simp add: total_size_def)
    have v: "values_ok ty es" "unat (ge_len e) \<le> length (ge_value e)"
      using Cons.prems(2) False by (simp_all add: values_ok_def)
    have room: "ptr + ?n \<le> length (pk_mem p)" using Cons.prems(3) sz by simp
    obtain m1 one1 two1 where step: "write_extensions ty (e # es) p ptr =
        write_extensions ty es (with_tables p m1 one1 two1) (ptr + ?n)"
      and len1: "length m1 = length (pk_mem p)" and at: "stands_at ty m1 ptr e"
      and keep1: "\<And>j. j < length m1 \<Longrightarrow> j < ptr \<or> ptr + ?n \<le> j \<Longrightarrow> m1 ! j = pk_mem p ! j"
      and arr1: "ty = 1 \<Longrightarrow> \<exists>entries. one1 = Some entries \<and> length entries = 14"
      and tab1: "current_table ty (with_tables p m1 one1 two1) = (current_table ty p)(ge_id e \<mapsto> ptr)"
      by (rule write_extension_step [where es = es, OF Cons.prems(1) False v(2) room Cons.prems(4)])
         (rule that; assumption)
    let ?p = "with_tables p m1 one1 two1"
    have p1: "pk_mem ?p = m1" "pk_oneByteExtensions ?p = one1" by (simp_all add: with_tables_def)
    have "table_ok (ty = 2) m1 lo ptr (current_table ty p)"
      using Cons.prems(6) keep1 room len1 by (intro table_ok_cong [OF Cons.prems(6)]) simp
    then have "table_ok (ty = 2) m1 lo (ptr + ?n) ((current_table ty p)(ge_id e \<mapsto> ptr))"
      using Cons.prems(5) stands_at_end [OF Cons.prems(1) False at]
      by (intro table_ok_insert [where hi = ptr]) simp_all
    then have "table_ok (ty = 2) (pk_mem ?p) lo (ptr + ?n) (current_table ty ?p)" by (simp only: tab1 p1)
    then have "\<exists>m one two. elements_written ty es ?p lo (ptr + ?n) m one two"
      using Cons.prems(3,5) sz len1 arr1
      by (intro Cons.IH [OF Cons.prems(1) v(1)]) (assumption | simp add: p1)+
    then obtain m one two where r: "elements_written ty es ?p lo (ptr + ?n) m one two" by blast
    then have here: "stands_at ty m ptr e"
      using room len1 by (intro stands_at_cong [OF at _ False]) (simp_all add: elements_written_def p1)
    from r have rest: "case last_extension ty es i of
        None \<Rightarrow> current_table ty (with_tables p m one two) i = ((current_table ty p)(ge_id e \<mapsto> ptr)) i
      | Some e \<Rightarrow> (\<exists>x. current_table ty (with_tables p m one two) i = Some x \<and> stands_at ty m x e)" for i
      unfolding elements_written_def tab1 current_table_with_tables by blast
    have look: "case last_extension ty (e # es) i of
        None \<Rightarrow> current_table ty (with_tables p m one two) i = current_table ty p i
      | Some e \<Rightarrow> (\<exists>x. current_table ty (with_tables p m one two) i = Some x \<and> stands_at ty m x e)" for i
      using False here rest [of i] by (cases "last_extension ty es i") (auto simp: last_extension_Cons)
    have "with_tables ?p m one two = with_tables p m one two" by (simp add: with_tables_def)
    with r step look len1 keep1 p1 have "elements_written ty (e # es) p lo ptr m one two"
      unfolding elements_written_def sz by (simp add: add.assoc)
    then show ?thesis by blast
  qed
qed

section \<open>Making room\<close>

lemma nth_moved:
  "src + n \<le> length mem \<Longrightarrow> dst + n \<le> length mem \<Longrightarrow> j < length mem \<Longrightarrow>
   written mem dst (take n (drop src mem)) ! j =
     (if dst \<le> j \<and> j < dst + n then mem ! (src + (j - dst)) else mem ! j)"
  by (auto simp: nth_written)

lemma sint_diff:
  assumes "\<bar>int a - int b\<bar> < 2 ^ 15"
  shows "sint (of_nat a - of_nat b :: 16 word) = int a - int b"
proof -
  have "(of_nat a - of_nat b :: 16 word) = word_of_int (int a - int b)" by simp
  moreover have "sint (word_of_int (int a - int b) :: 16 word) = signed_take_bit 15 (int a - int b)"
    by (simp only: sint_sbintrunc') simp
  moreover have "signed_take_bit 15 (int a - int b) = int a - int b"
    using assms by (intro signed_take_bit_int_eq_self) auto
  ultimately show ?thesis by metis
qed

abbreviation tail_length :: "'h packet \<Rightarrow> nat" where
  "tail_length p \<equiv> pk_payloadLength p + unat (pk_payloadPadding p)"

lemma shift_payload_eq:
  assumes "int (pk_payload p) + sint shift = int n" and "pk_size p = pk_payload p + tail_length p"
    and "pk_size p \<le> length (pk_mem p)" and "n + tail_length p \<le> length (pk_mem p)"
  shows "shift_payload shift p = Some (p\<lparr>
    pk_mem := written (pk_mem p) n (take (tail_length p) (drop (pk_payload p) (pk_mem p))),
    pk_payload := n, pk_size := n + tail_length p\<rparr>)"
proof -
  have sz: "int (pk_size p) + sint shift = int (n + tail_length p)" using assms(1,2) by simp
  show ?thesis
    unfolding shift_payload_def assms(1) sz Let_def nat_int
    using assms(2-4) by (simp add: memmove_in add.assoc)
qed

definition kind_is :: "u8 \<Rightarrow> u16 option \<Rightarrow> bool" where
  "kind_is ty x = (case x of None \<Rightarrow> False | Some i \<Rightarrow> if ty = 1 then i = 0xBEDE else i AND 0xFFF0 = 0x1000)"

lemma kind_is_extension_id: "ty = 1 \<or> ty = 2 \<Longrightarrow> kind_is ty (Some (extension_id ty))"
  by (auto simp: kind_is_def extension_id_def)

text \<open>The packet after the move, from what its bytes must be.\<close>

lemma resized_ok:
  fixes p :: "'h packet"
  assumes fr: "frame_ok p" and tl: "tail_ok p"
    and n: "n = csrc_end (pk_mem p) + 4 + unat len * 4" "n + tail_length p \<le> length (pk_mem p)"
    and m: "length m = length (pk_mem p)" "csrcCount (m ! 0) = csrcCount (pk_mem p ! 0)"
      "version_bits (m ! 0) = 2" "extension_bit (m ! 0)" "padding_bit (m ! 0) = padding_bit (pk_mem p ! 0)"
    and field: "Get2Bytes m (csrc_end (pk_mem p) + 2) = Some len"
    and moved: "\<And>k. k < tail_length p \<Longrightarrow> m ! (n + k) = pk_mem p ! (pk_payload p + k)"
  defines "q \<equiv> p\<lparr>pk_mem := m, pk_headerExtension := Some (csrc_end (pk_mem p)), pk_payload := n,
    pk_size := n + tail_length p\<rparr>"
  shows "frame_ok q" and "tail_ok q" and "payload_bytes q = payload_bytes p"
proof -
  show "frame_ok q"
    using fr n m field by (auto simp: frame_ok_def q_def csrc_end_def GetHeaderExtensionLength_def)
  have b: "pk_size p = pk_payload p + tail_length p" "pk_size p \<le> length (pk_mem p)"
    using tl by (simp_all add: tail_ok_def)
  have "m ! (n + tail_length p - 1) = pk_payloadPadding p" if "pk_payloadPadding p \<noteq> 0"
  proof -
    from that have "0 < unat (pk_payloadPadding p)" by (simp add: unat_gt_0)
    then have "n + tail_length p - 1 = n + (tail_length p - 1)"
      "pk_size p - 1 = pk_payload p + (tail_length p - 1)" "tail_length p - 1 < tail_length p"
      using b by simp_all
    with moved [of "tail_length p - 1"] tl that show ?thesis by (auto simp: tail_ok_def add.assoc)
  qed
  with tl n m show "tail_ok q" by (auto simp: tail_ok_def q_def)
  show "payload_bytes q = payload_bytes p"
    using n m(1) moved b by (intro nth_equalityI) (auto simp: payload_bytes_def q_def)
qed

definition moved_to :: "'h packet \<Rightarrow> nat \<Rightarrow> bytes \<Rightarrow> 'h packet" where
  "moved_to p n m = p\<lparr>pk_mem := m, pk_headerExtension := Some (csrc_end (pk_mem p)), pk_payload := n,
     pk_size := n + tail_length p\<rparr>"

definition resized :: "u8 \<Rightarrow> nat \<Rightarrow> 'h packet \<Rightarrow> nat \<Rightarrow> bytes \<Rightarrow> bool" where
  "resized ty room p n m \<longleftrightarrow>
     resize_extensions ty room p = Some (moved_to p n m) \<and>
     frame_ok (moved_to p n m) \<and> tail_ok (moved_to p n m) \<and>
     payload_bytes (moved_to p n m) = payload_bytes p \<and>
     kind_is ty (GetHeaderExtensionId (moved_to p n m)) \<and> length m = length (pk_mem p) \<and>
     (\<forall>j. 0 < j \<and> j < csrc_end (pk_mem p) \<longrightarrow> m ! j = pk_mem p ! j)"

lemma resizedI:
  assumes "frame_ok p" and "tail_ok p" and "resize_extensions ty room p = Some (moved_to p n m)"
    and "n = csrc_end (pk_mem p) + 4 + unat len * 4" and "n + tail_length p \<le> length (pk_mem p)"
    and "length m = length (pk_mem p)" and "Get2Bytes m (csrc_end (pk_mem p) + 2) = Some len"
    and "m ! 0 = write_bit (pk_mem p ! 0) 4 True \<or> (m ! 0 = pk_mem p ! 0 \<and> pk_headerExtension p \<noteq> None)"
    and "kind_is ty (Get2Bytes m (csrc_end (pk_mem p)))"
    and "\<And>k. k < tail_length p \<Longrightarrow> m ! (n + k) = pk_mem p ! (pk_payload p + k)"
    and "\<And>j. 0 < j \<Longrightarrow> j < csrc_end (pk_mem p) \<Longrightarrow> m ! j = pk_mem p ! j"
  shows "resized ty room p n m"
proof -
  have b: "csrcCount (m ! 0) = csrcCount (pk_mem p ! 0)" "version_bits (m ! 0) = 2" "extension_bit (m ! 0)"
    "padding_bit (m ! 0) = padding_bit (pk_mem p ! 0)"
    using assms(1,8) by (auto simp: frame_ok_def)
  note r = resized_ok [OF assms(1,2,4-6) b assms(7,10), folded moved_to_def]
  from assms(9) have "kind_is ty (GetHeaderExtensionId (moved_to p n m))"
    by (simp add: moved_to_def GetHeaderExtensionId_def)
  with r assms(3,6,11) show ?thesis by (simp add: resized_def)
qed

lemma resize_no_extension:
  fixes p :: "'h packet"
  assumes fr: "frame_ok p" and tl: "tail_ok p" and ty: "ty = 1 \<or> ty = 2"
    and k: "k < 2 ^ 16" and n: "n = csrc_end (pk_mem p) + 4 + k * 4" "n + tail_length p \<le> length (pk_mem p)"
    and small: "\<bar>int n - int (pk_payload p)\<bar> < 2 ^ 15" and None: "pk_headerExtension p = None"
  shows "\<exists>m. resized ty (k * 4) p n m"
proof -
  let ?h = "csrc_end (pk_mem p)" and ?L = "tail_length p" and ?len = "of_nat k :: u16"
  have len: "unat ?len = k" using k by (intro unat_of_nat_less) simp
  have b: "pk_size p = pk_payload p + ?L" "pk_size p \<le> length (pk_mem p)" "12 \<le> ?h"
    using tl by (simp_all add: tail_ok_def csrc_end_def HeaderSize_def)
  have pay: "pk_payload p = ?h" using fr None by (simp add: frame_ok_def)
  let ?b = "write_bit (pk_mem p ! 0) 4 True"
  define m0 where "m0 = written (pk_mem p) 0 [?b]"
  define m1 where "m1 = written m0 n (take ?L (drop ?h m0))"
  define m2 where "m2 = written m1 ?h (enc2 (extension_id ty))"
  define m where "m = written m2 (?h + 2) (enc2 ?len)"
  have r0: "0 + length [?b] \<le> length (pk_mem p)" using b n by simp
  have l0: "length m0 = length (pk_mem p)" using length_written [OF r0] by (simp only: m0_def)
  have r1: "n + length (take ?L (drop ?h m0)) \<le> length m0" using n b pay l0 by simp
  have l1: "length m1 = length (pk_mem p)" using length_written [OF r1] l0 by (simp only: m1_def)
  have r2: "?h + length (enc2 (extension_id ty)) \<le> length m1" using n l1 by (simp add: byte2.enc_length)
  have l2: "length m2 = length (pk_mem p)" using length_written [OF r2] l1 by (simp only: m2_def)
  have r3: "?h + 2 + length (enc2 ?len) \<le> length m2" using n l2 by (simp add: byte2.enc_length)
  have l: "length m = length (pk_mem p)" using length_written [OF r3] l2 by (simp only: m_def)
  have n0: "m0 ! j = (if j = 0 then ?b else pk_mem p ! j)" if "j < length (pk_mem p)" for j
    using nth_written [OF r0 that] by (simp add: m0_def)
  have n1: "m1 ! j = (if n \<le> j \<and> j < n + ?L then m0 ! (?h + (j - n)) else m0 ! j)" if "j < length (pk_mem p)" for j
    using nth_moved [of ?h ?L m0 n j] l0 that n(2) b pay by (simp only: m1_def)
  have n2: "m2 ! j = (if ?h \<le> j \<and> j < ?h + 2 then enc2 (extension_id ty) ! (j - ?h) else m1 ! j)"
    if "j < length (pk_mem p)" for j
    using nth_written [OF r2, of j] l1 that by (simp add: m2_def byte2.enc_length)
  have n3: "m ! j = (if ?h + 2 \<le> j \<and> j < ?h + 4 then enc2 ?len ! (j - (?h + 2)) else m2 ! j)"
    if "j < length (pk_mem p)" for j
    using nth_written [OF r3, of j] l2 that by (simp add: m_def byte2.enc_length)
  let ?p = "p\<lparr>pk_mem := m0, pk_headerExtension := Some ?h\<rparr>"
  have "sint (of_nat (4 + k * 4) - of_nat 0 :: 16 word) = int (4 + k * 4) - int 0"
    using small n(1) pay by (intro sint_diff) simp
  then have sh: "int (pk_payload ?p) + sint (4 + of_nat (k * 4) :: 16 word) = int n"
    using n(1) pay by simp
  have "shift_payload (4 + of_nat (k * 4)) ?p = Some (?p\<lparr>pk_mem := m1, pk_payload := n, pk_size := n + ?L\<rparr>)"
    using shift_payload_eq [OF sh] b n l0 pay by (simp add: m1_def)
  moreover have ne: "0 < length (pk_mem p)" using b n by linarith
  then have "Get1Byte (pk_mem p) 0 = Some (pk_mem p ! 0)" "Set1Byte (pk_mem p) 0 ?b = Some m0"
    unfolding m0_def by (rule Get1Byte_in, subst Set1Byte_in) (auto simp: list_update_written)
  ultimately have "resize_extensions ty (k * 4) p = Some (moved_to p n m)"
    using None pay r2 r3
    by (simp add: resize_extensions_def with_mem_def Set2Bytes_written byte2.enc_length set_bit_4
        Let_def moved_to_def m_def m2_def)
  moreover have "Get2Bytes m (?h + 2) = Some ?len"
    unfolding m_def using r3 by (intro Get2Bytes_written) (simp add: byte2.enc_length)
  moreover have "Get2Bytes m ?h = Some (extension_id ty)"
    using n3 n2 n l by (simp add: Get2Bytes_nth)
  moreover have "m ! 0 = ?b" using n3 [OF ne] n2 [OF ne] n1 [OF ne] n0 [OF ne] b n by simp
  moreover have "m ! (n + j) = pk_mem p ! (pk_payload p + j)" if "j < ?L" for j
    using n3 [of "n + j"] n2 [of "n + j"] n1 [of "n + j"] n0 [of "?h + j"] that b n pay by simp
  moreover have "m ! j = pk_mem p ! j" if "0 < j" "j < ?h" for j
    using n3 [of j] n2 [of j] n1 [of j] n0 [of j] that n by simp
  ultimately have "resized ty (k * 4) p n m"
    using kind_is_extension_id [OF ty] n len l by (intro resizedI [OF fr tl, where len = ?len]) simp_all
  then show ?thesis by blast
qed

lemma resize_extension:
  fixes p :: "'h packet"
  assumes fr: "frame_ok p" and tl: "tail_ok p"
    and k: "k < 2 ^ 16" and n: "n = csrc_end (pk_mem p) + 4 + k * 4" "n + tail_length p \<le> length (pk_mem p)"
    and small: "\<bar>int n - int (pk_payload p)\<bar> < 2 ^ 15" and Some: "pk_headerExtension p = Some h"
    and kind: "kind_is ty (GetHeaderExtensionId p)"
  shows "\<exists>m. resized ty (k * 4) p n m"
proof -
  let ?h = "csrc_end (pk_mem p)" and ?L = "tail_length p" and ?len = "of_nat k :: u16"
  have len: "unat ?len = k" using k by (intro unat_of_nat_less) simp
  have b: "pk_size p = pk_payload p + ?L" "pk_size p \<le> length (pk_mem p)" "12 \<le> ?h"
    using tl by (simp_all add: tail_ok_def csrc_end_def HeaderSize_def)
  have h: "h = ?h" "GetHeaderExtensionLength p = Some (pk_payload p - (?h + 4))" "?h + 4 \<le> pk_payload p"
    using fr Some by (auto simp: frame_ok_def)
  let ?shift = "of_nat (k * 4) - of_nat (pk_payload p - (?h + 4)) :: 16 word"
  have sh: "sint ?shift = int n - int (pk_payload p)"
    using small h(3) n(1) by (subst sint_diff) auto
  show ?thesis
  proof (cases "?shift = 0")
    case True
    then have "n = pk_payload p" using sh by simp
    then have q: "moved_to p n (pk_mem p) = p"
      using Some h(1) b(1) by (cases p) (simp add: moved_to_def)
    have "resize_extensions ty (k * 4) p = Some p"
      using Some h True by (simp add: resize_extensions_def)
    with fr tl kind have "resized ty (k * 4) p n (pk_mem p)" by (simp add: resized_def q)
    then show ?thesis by blast
  next
    case False
    define m1 where "m1 = written (pk_mem p) n (take ?L (drop (pk_payload p) (pk_mem p)))"
    define m where "m = written m1 (?h + 2) (enc2 ?len)"
    have l1: "length m1 = length (pk_mem p)" using n b by (simp add: m1_def length_written)
    have r2: "?h + 2 + length (enc2 ?len) \<le> length m1" using n l1 by (simp add: byte2.enc_length)
    have l: "length m = length (pk_mem p)" using length_written [OF r2] l1 by (simp only: m_def)
    have n1: "m1 ! j = (if n \<le> j \<and> j < n + ?L then pk_mem p ! (pk_payload p + (j - n)) else pk_mem p ! j)"
      if "j < length (pk_mem p)" for j
      using nth_moved [of "pk_payload p" ?L "pk_mem p" n j] that n(2) b by (simp only: m1_def)
    have n2: "m ! j = (if ?h + 2 \<le> j \<and> j < ?h + 4 then enc2 ?len ! (j - (?h + 2)) else m1 ! j)"
      if "j < length (pk_mem p)" for j
      using nth_written [OF r2, of j] l1 that by (simp add: m_def byte2.enc_length)
    have "int (pk_payload p) + sint ?shift = int n" using sh by simp
    from shift_payload_eq [OF this b(1,2) n(2)]
    have "resize_extensions ty (k * 4) p = Some (moved_to p n m)"
      using Some h False r2
      by (simp add: resize_extensions_def with_mem_def Set2Bytes_written byte2.enc_length moved_to_def
          m_def m1_def)
    moreover have "Get2Bytes m (?h + 2) = Some ?len"
      unfolding m_def using r2 by (intro Get2Bytes_written) (simp add: byte2.enc_length)
    moreover have keep: "m ! j = pk_mem p ! j" if "j < ?h + 2" for j
      using n2 [of j] n1 [of j] that n by simp
    then have "Get2Bytes m ?h = Get2Bytes (pk_mem p) ?h"
      using n l by (intro Get2Bytes_cong) simp_all
    moreover have "m ! (n + j) = pk_mem p ! (pk_payload p + j)" if "j < ?L" for j
      using n2 [of "n + j"] n1 [of "n + j"] that n by simp
    ultimately have "resized ty (k * 4) p n m"
      using kind Some h(1) n len l keep b(3)
      by (intro resizedI [OF fr tl, where len = ?len]) (simp_all add: GetHeaderExtensionId_def)
    then show ?thesis by blast
  qed
qed

lemma resize_extensions_ok:
  fixes p :: "'h packet"
  assumes fr: "frame_ok p" and tl: "tail_ok p" and ty: "ty = 1 \<or> ty = 2"
    and k: "k < 2 ^ 16" and n: "n = csrc_end (pk_mem p) + 4 + k * 4" "n + tail_length p \<le> length (pk_mem p)"
    and small: "\<bar>int n - int (pk_payload p)\<bar> < 2 ^ 15"
    and kind: "pk_headerExtension p \<noteq> None \<Longrightarrow> kind_is ty (GetHeaderExtensionId p)"
  shows "\<exists>m. resized ty (k * 4) p n m"
proof (cases "pk_headerExtension p")
  case None
  then show ?thesis using resize_no_extension [OF assms(1-7)] by blast
next
  case (Some h)
  then show ?thesis using resize_extension [OF assms(1,2) k n small Some] kind by auto
qed

section \<open>Replacing all extensions\<close>

lemma tail_ok_cong:
  assumes tl: "tail_ok p" and q: "pk_payload q = pk_payload p" "pk_payloadLength q = pk_payloadLength p"
      "pk_payloadPadding q = pk_payloadPadding p" "pk_size q = pk_size p"
    and len: "length (pk_mem q) = length (pk_mem p)" and b0: "pk_mem q ! 0 = pk_mem p ! 0"
    and keep: "\<And>j. pk_payload p \<le> j \<Longrightarrow> j < length (pk_mem p) \<Longrightarrow> pk_mem q ! j = pk_mem p ! j"
  shows "tail_ok q" and "payload_bytes q = payload_bytes p"
proof -
  have b: "pk_size p = pk_payload p + tail_length p" "pk_size p \<le> length (pk_mem p)"
    using tl by (simp_all add: tail_ok_def)
  have "pk_mem q ! (pk_size p - 1) = pk_mem p ! (pk_size p - 1)" if "pk_payloadPadding p \<noteq> 0"
  proof -
    from that have "0 < unat (pk_payloadPadding p)" by (simp add: unat_gt_0)
    with b show ?thesis by (intro keep) linarith+
  qed
  with tl q len b0 show "tail_ok q" by (auto simp: tail_ok_def)
  show "payload_bytes q = payload_bytes p"
    using q len b keep by (intro nth_equalityI) (auto simp: payload_bytes_def)
qed

lemma extension_area_write:
  assumes fr: "frame_ok p" and tl: "tail_ok p" and h: "pk_headerExtension p = Some h"
    and len: "length m = length (pk_mem p)"
    and keep: "\<And>j. j < length m \<Longrightarrow> j < h + 4 \<or> pk_payload p \<le> j \<Longrightarrow> m ! j = pk_mem p ! j"
    and q: "pk_mem q = m" "pk_headerExtension q = Some h" "pk_payload q = pk_payload p"
      "pk_payloadLength q = pk_payloadLength p" "pk_payloadPadding q = pk_payloadPadding p"
      "pk_size q = pk_size p" "pk_csrcList q = pk_csrcList p"
  shows "frame_ok q" and "tail_ok q" and "GetHeaderExtensionId q = GetHeaderExtensionId p"
    and "payload_bytes q = payload_bytes p"
proof -
  have b: "pk_size p = pk_payload p + tail_length p" "pk_size p \<le> length (pk_mem p)"
    "h = csrc_end (pk_mem p)" "h + 4 \<le> pk_payload p"
    using tl fr h by (simp_all add: tail_ok_def frame_ok_def)
  then have b0: "m ! 0 = pk_mem p ! 0" using len by (intro keep) linarith+
  have fields: "Get2Bytes m k = Get2Bytes (pk_mem p) k" if "k = h \<or> k = h + 2" for k
    using that b len keep by (intro Get2Bytes_cong) auto
  then show "GetHeaderExtensionId q = GetHeaderExtensionId p"
    using h q by (simp add: GetHeaderExtensionId_def)
  have "GetHeaderExtensionLength q = GetHeaderExtensionLength p"
    using h q fields by (simp add: GetHeaderExtensionLength_def)
  then show "frame_ok q" using fr h q b0 len by (simp add: frame_ok_def csrc_end_def)
  show "tail_ok q" and "payload_bytes q = payload_bytes p"
    using q len b0 keep by (auto intro!: tail_ok_cong [OF tl])
qed

text \<open>There is memory for the new header extension, and the move fits the 16 bits of its distance.\<close>

definition payload_after :: "u8 \<Rightarrow> generic_extension list \<Rightarrow> 'h packet \<Rightarrow> nat" where
  "payload_after ty es p = csrc_end (pk_mem p) + 4 + (total_size ty es + 3) div 4 * 4"

definition can_set :: "u8 \<Rightarrow> generic_extension list \<Rightarrow> 'h packet \<Rightarrow> bool" where
  "can_set ty es p \<longleftrightarrow>
     (ty = 1 \<or> ty = 2) \<and> values_ok ty es \<and> total_size ty es \<le> 65532 \<and>
     payload_after ty es p + tail_length p \<le> length (pk_mem p) \<and>
     \<bar>int (payload_after ty es p) - int (pk_payload p)\<bar> < 2 ^ 15"

definition started :: "u8 \<Rightarrow> 'h packet \<Rightarrow> bytes \<Rightarrow> bool" where
  "started ty p m \<longleftrightarrow>
     start_extensions ty p = Some ((reset_extensions p)\<lparr>pk_mem := m\<rparr>) \<and>
     frame_ok ((reset_extensions p)\<lparr>pk_mem := m\<rparr>) \<and> tail_ok ((reset_extensions p)\<lparr>pk_mem := m\<rparr>) \<and>
     payload_bytes ((reset_extensions p)\<lparr>pk_mem := m\<rparr>) = payload_bytes p \<and>
     (pk_headerExtension p \<noteq> None \<longrightarrow>
        kind_is ty (GetHeaderExtensionId ((reset_extensions p)\<lparr>pk_mem := m\<rparr>))) \<and>
     length m = length (pk_mem p) \<and> (\<forall>j < csrc_end (pk_mem p). m ! j = pk_mem p ! j)"

lemma reset_extensions_fields [simp]:
  "pk_mem (reset_extensions p) = pk_mem p" "pk_headerExtension (reset_extensions p) = pk_headerExtension p"
  "pk_payload (reset_extensions p) = pk_payload p" "pk_csrcList (reset_extensions p) = pk_csrcList p"
  "pk_payloadLength (reset_extensions p) = pk_payloadLength p"
  "pk_payloadPadding (reset_extensions p) = pk_payloadPadding p" "pk_size (reset_extensions p) = pk_size p"
  "pk_oneByteExtensions (reset_extensions p) = Some (replicate 14 None)"
  "pk_mapTwoBytesExtensions (reset_extensions p) = Map.empty"
  by (simp_all add: reset_extensions_def)

lemma start_extensions_ok:
  assumes ok: "packet_ok p" and ty: "ty = 1 \<or> ty = 2"
  shows "\<exists>m. started ty p m"
proof -
  from ok have lay: "layout_ok p" and fr: "frame_ok p" and tl: "tail_ok p"
    by (simp_all add: packet_ok_def layout_ok_def)
  obtain x where x: "GetHeaderExtensionId p = Some x" using extension_id_total [OF lay] by blast
  have reset: "frame_ok (reset_extensions p)" "tail_ok (reset_extensions p)"
    "payload_bytes (reset_extensions p) = payload_bytes p"
    "GetHeaderExtensionId (reset_extensions p) = Some x"
    using fr tl x by (auto simp: frame_ok_def tail_ok_def payload_bytes_def GetHeaderExtensionLength_def
        GetHeaderExtensionId_def split: option.splits)
  show ?thesis
  proof (cases "kind_is ty (Some x) \<or> pk_headerExtension p = None")
    case True
    have "start_extensions ty p = Some (reset_extensions p)"
      using True ty x by (auto simp: start_extensions_def HasOneByteExtensions_def HasTwoBytesExtensions_def
          kind_is_def)
    moreover have e: "(reset_extensions p)\<lparr>pk_mem := pk_mem p\<rparr> = reset_extensions p"
      by (cases "reset_extensions p") (use reset_extensions_fields(1) [of p] in simp)
    ultimately have "started ty p (pk_mem p)" unfolding started_def e using True reset by auto
    then show ?thesis by blast
  next
    case False
    then obtain h where h: "pk_headerExtension p = Some h" by auto
    then have b: "h = csrc_end (pk_mem p)" "h + 4 \<le> pk_payload p" "pk_payload p \<le> length (pk_mem p)"
      using fr by (auto simp: frame_ok_def)
    let ?m = "written (pk_mem p) h (enc2 (extension_id ty))"
    let ?q = "(reset_extensions p)\<lparr>pk_mem := ?m\<rparr>"
    have r: "h + length (enc2 (extension_id ty)) \<le> length (pk_mem p)" using b by (simp add: byte2.enc_length)
    have "start_extensions ty p = Some ?q"
      using False ty x h b
      by (auto simp: start_extensions_def HasOneByteExtensions_def HasTwoBytesExtensions_def
          kind_is_def with_mem_def Set2Bytes_written)
    moreover have "GetHeaderExtensionId ?q = Some (extension_id ty)"
      using h b by (simp add: GetHeaderExtensionId_def Get2Bytes_written)
    moreover have nth: "?m ! j = pk_mem p ! j"
      if "j < length (pk_mem p)" "j < h \<or> h + 2 \<le> j" for j
      using that r by (intro written_outside [OF r]) (simp_all add: byte2.enc_length)
    have "Get2Bytes ?m (h + 2) = Get2Bytes (pk_mem p) (h + 2)"
      using b nth length_written [OF r] by (intro Get2Bytes_cong) simp_all
    note len_field = this
    have "12 \<le> h" using b(1) by (simp add: csrc_end_def HeaderSize_def)
    then have b0: "?m ! 0 = pk_mem p ! 0" using b by (intro nth) linarith+
    have "frame_ok ?q"
      using reset(1) h b b0 len_field length_written [OF r]
      by (simp add: frame_ok_def GetHeaderExtensionLength_def csrc_end_def)
    moreover have "tail_ok ?q" "payload_bytes ?q = payload_bytes p"
      using nth b b0 length_written [OF r] by (auto intro!: tail_ok_cong [OF tl] nth)
    ultimately have "started ty p ?m"
      using kind_is_extension_id [OF ty] length_written [OF r] b nth by (simp add: started_def)
    then show ?thesis by blast
  qed
qed

lemma kind_is_flags:
  assumes "ty = 1 \<or> ty = 2" and "kind_is ty (GetHeaderExtensionId p)"
  shows "HasOneByteExtensions p = Some (ty = 1)" and "HasTwoBytesExtensions p = Some (ty = 2)"
  using assms by (auto simp: kind_is_def HasOneByteExtensions_def HasTwoBytesExtensions_def split: option.splits)

lemma padding_word:
  assumes "a \<le> b" and "b < 2 ^ 64"
  shows "unat (of_nat b - of_nat a :: u64) = b - a"
  using assms by (simp add: unat_sub_wrap unat_of_nat_less)

text \<open>The elements and the padding after them, in a header extension of the right size.\<close>

definition holds_exactly :: "u8 \<Rightarrow> generic_extension list \<Rightarrow> 'h packet \<Rightarrow> bool" where
  "holds_exactly ty es q \<longleftrightarrow>
     active_table q = Some (ty = 2, current_table ty q) \<and>
     (\<forall>i. case last_extension ty es i of
            None \<Rightarrow> current_table ty q i = None
          | Some e \<Rightarrow> (\<exists>x. current_table ty q i = Some x \<and> stands_at ty (pk_mem q) x e))"

lemma last_extension_not_skipped: "last_extension ty es i = Some e \<Longrightarrow> \<not> skip_extension ty e"
  by (auto simp: last_extension_def find_Some_iff)

lemma fill_extension:
  assumes p: "frame_ok p" "tail_ok p" "kind_is ty (GetHeaderExtensionId p)" "pk_headerExtension p = Some h"
    "current_table ty p = Map.empty"
    "ty = 1 \<longrightarrow> (\<exists>entries. pk_oneByteExtensions p = Some entries \<and> length entries = 14)"
    and ty: "ty = 1 \<or> ty = 2" and v: "values_ok ty es" and fits: "h + 4 + total_size ty es \<le> pk_payload p"
  shows "\<exists>p3 q. write_extensions ty es p (h + 4) = Some (p3, h + 4 + total_size ty es) \<and>
    pk_payload p3 = pk_payload p \<and>
    with_mem p3 (write_bytes (pk_mem p3) (h + 4 + total_size ty es)
      (replicate (pk_payload p - (h + 4 + total_size ty es)) 0)) = Some q \<and>
    packet_ok q \<and> pk_payload q = pk_payload p \<and> payload_bytes q = payload_bytes p \<and>
    pk_payloadPadding q = pk_payloadPadding p \<and> (\<forall>j < h. pk_mem q ! j = pk_mem p ! j) \<and> holds_exactly ty es q"
proof -
  let ?T = "total_size ty es" and ?n = "pk_payload p"
  have n: "?n \<le> length (pk_mem p)" using p(1) by (simp add: frame_ok_def)
  have "\<exists>m one two. elements_written ty es p (h + 4) (h + 4) m one two"
    using ty v fits n p by (intro write_extensions_ok) auto
  then obtain m3 one two where w: "elements_written ty es p (h + 4) (h + 4) m3 one two" by blast
  define p3 where "p3 = with_tables p m3 one two"
  let ?ptr = "h + 4 + ?T" and ?z = "replicate (?n - (h + 4 + ?T)) (0 :: u8)"
  define m where "m = written m3 ?ptr ?z"
  define q where "q = p3\<lparr>pk_mem := m\<rparr>"
  have len3: "length m3 = length (pk_mem p)" using w by (simp add: elements_written_def)
  have r: "?ptr + length ?z \<le> length m3" using fits n len3 by simp
  have len: "length m = length (pk_mem p)" using length_written [OF r] len3 by (simp only: m_def)
  have before: "m ! j = m3 ! j" if "j < length m" "j < ?ptr \<or> ?n \<le> j" for j
    unfolding m_def using that len len3 fits by (intro written_outside [OF r]) auto
  have keep: "m ! j = pk_mem p ! j" if "j < length m" "j < h + 4 \<or> ?n \<le> j" for j
    using before [of j] w that len len3 fits by (auto simp: elements_written_def)
  have q: "pk_mem q = m" "pk_headerExtension q = Some h" "pk_payload q = ?n" "pk_csrcList q = pk_csrcList p"
    "pk_payloadLength q = pk_payloadLength p" "pk_payloadPadding q = pk_payloadPadding p" "pk_size q = pk_size p"
    "pk_oneByteExtensions q = one" "pk_mapTwoBytesExtensions q = two"
    "current_table ty q = current_table ty (with_tables p m3 one two)"
    using p(4) by (simp_all add: q_def p3_def with_tables_def current_table_def)
  have area: "frame_ok q" "tail_ok q" "GetHeaderExtensionId q = GetHeaderExtensionId p"
    "payload_bytes q = payload_bytes p"
    by (rule extension_area_write [OF p(1,2,4) len _ q(1-3,5-7,4)]; rule keep; assumption)+
  note kinds = kind_is_flags [OF ty p(3) [folded area(3)]]
  have t3: "table_ok (ty = 2) m3 (h + 4) ?ptr (current_table ty q)" using w q(10) by (simp add: elements_written_def)
  have t: "table_ok (ty = 2) m (h + 4) ?n (current_table ty q)"
    by (rule table_ok_mono [OF table_ok_cong [OF t3]]) (use before len n fits in auto)
  have arr: "ty = 1 \<longrightarrow> (\<exists>entries. one = Some entries \<and> length entries = 14)"
    using w by (simp add: elements_written_def)
  have "tables_ok q h"
    using t kinds ty arr q by (auto simp: tables_ok_def current_table_def)
  then have "packet_ok q" using area(1,2) q(2) by (simp add: packet_ok_def layout_ok_def)
  moreover have "active_table q = Some (ty = 2, current_table ty q)"
    using kinds ty arr q by (auto simp: active_table_def current_table_def)
  moreover have look: "case last_extension ty es i of
       None \<Rightarrow> current_table ty q i = current_table ty p i
     | Some e \<Rightarrow> (\<exists>x. current_table ty q i = Some x \<and> stands_at ty m3 x e)" for i
    using w unfolding elements_written_def q(10) by blast
  moreover have "case last_extension ty es i of
       None \<Rightarrow> current_table ty q i = None
     | Some e \<Rightarrow> (\<exists>x. current_table ty q i = Some x \<and> stands_at ty m x e)" for i
  proof (cases "last_extension ty es i")
    case None
    with look [of i] p(5) show ?thesis by simp
  next
    case (Some e)
    with look [of i] obtain x where x: "current_table ty q i = Some x" "stands_at ty m3 x e" by auto
    note ns = last_extension_not_skipped [OF Some]
    from t3 x(1) have "element_end (ty = 2) m3 x \<le> ?ptr" by (auto simp: table_ok_def)
    with stands_at_end [OF ty ns x(2)] have "x + extension_size ty e \<le> ?ptr" by simp
    then have "stands_at ty m x e"
      using before len len3 fits n by (intro stands_at_cong [OF x(2) _ ns]) auto
    with Some x(1) show ?thesis by auto
  qed
  ultimately have "holds_exactly ty es q" unfolding holds_exactly_def q(1) by blast
  moreover have "write_extensions ty es p (h + 4) = Some (p3, ?ptr)"
    using w by (simp add: elements_written_def p3_def)
  moreover have "pk_payload p3 = ?n" "with_mem p3 (write_bytes (pk_mem p3) ?ptr ?z) = Some q"
    using r by (simp_all add: with_mem_def write_bytes_written p3_def with_tables_def q_def m_def)
  moreover have "\<forall>j < h. pk_mem q ! j = pk_mem p ! j" using keep len fits n q(1) by simp
  ultimately show ?thesis using \<open>packet_ok q\<close> area(4) q(3,6) by blast
qed

lemma SetExtensions_ok:
  assumes ok: "packet_ok p" and can: "can_set ty es p"
  shows "\<exists>q. SetExtensions ty es p = Some q \<and> packet_ok q \<and> pk_payload q = payload_after ty es p \<and>
    payload_bytes q = payload_bytes p \<and> pk_payloadPadding q = pk_payloadPadding p \<and>
    (\<forall>j. 0 < j \<and> j < csrc_end (pk_mem p) \<longrightarrow> pk_mem q ! j = pk_mem p ! j) \<and> holds_exactly ty es q"
proof -
  let ?T = "total_size ty es" and ?k = "(total_size ty es + 3) div 4" and ?n = "payload_after ty es p"
  let ?h = "csrc_end (pk_mem p)"
  from can have ty: "ty = 1 \<or> ty = 2" and v: "values_ok ty es" and T: "?T \<le> 65532"
    and room: "?n + tail_length p \<le> length (pk_mem p)" and small: "\<bar>int ?n - int (pk_payload p)\<bar> < 2 ^ 15"
    by (simp_all add: can_set_def)
  obtain m1 where m1: "started ty p m1" using start_extensions_ok [OF ok ty] by blast
  let ?p1 = "(reset_extensions p)\<lparr>pk_mem := m1\<rparr>"
  have "0 < ?h" by (simp add: csrc_end_def HeaderSize_def)
  with m1 have ce: "csrc_end m1 = ?h" by (simp add: started_def csrc_end_def)
  have "\<exists>m. resized ty (?k * 4) ?p1 ?n m"
    using m1 ty T room small by (intro resize_extensions_ok) (auto simp: started_def ce payload_after_def)
  then obtain m2 where m2: "resized ty (?k * 4) ?p1 ?n m2" by blast
  define p2 where "p2 = moved_to ?p1 ?n m2"
  have p2: "pk_headerExtension p2 = Some ?h" "pk_payload p2 = ?n" "pk_payloadPadding p2 = pk_payloadPadding p"
    "pk_oneByteExtensions p2 = Some (replicate 14 None)" "pk_mapTwoBytesExtensions p2 = Map.empty" "pk_mem p2 = m2"
    by (simp_all add: p2_def moved_to_def ce)
  have r2: "resize_extensions ty (?k * 4) ?p1 = Some p2" "frame_ok p2" "tail_ok p2"
    "payload_bytes p2 = payload_bytes p" "kind_is ty (GetHeaderExtensionId p2)"
    using m1 m2 by (auto simp: resized_def started_def p2_def)
  have fits: "?h + 4 + ?T \<le> ?n" by (simp add: payload_after_def)
  have "current_table ty p2 = Map.empty" using p2 by (simp add: current_table_def)
  then obtain p3 q where w: "write_extensions ty es p2 (?h + 4) = Some (p3, ?h + 4 + ?T)" "pk_payload p3 = ?n"
      "with_mem p3 (write_bytes (pk_mem p3) (?h + 4 + ?T) (replicate (?n - (?h + 4 + ?T)) 0)) = Some q"
    and q: "packet_ok q" "pk_payload q = ?n" "payload_bytes q = payload_bytes p"
      "pk_payloadPadding q = pk_payloadPadding p" "\<forall>j < ?h. pk_mem q ! j = m2 ! j" "holds_exactly ty es q"
    using fill_extension [OF r2(2,3,5) p2(1) _ _ ty v] p2 r2(4) fits by auto
  have pad: "unat (PadTo4Bytes16 (of_nat ?T)) = ?k * 4" using PadTo4Bytes16_of_nat [OF T] by simp
  have zeros: "unat (of_nat (?k * 4) - of_nat ?T :: u64) = ?n - (?h + 4 + ?T)"
    using padding_word [of ?T "?k * 4"] T by (simp only: payload_after_def) simp
  have start: "start_extensions ty p = Some ?p1" using m1 by (simp add: started_def)
  have "SetExtensions ty es p = Some q"
    unfolding SetExtensions_def total_size_def [symmetric] pad Let_def zeros
    using ty w(3) fits by (simp only: start r2(1) p2(1) w(1,2) bind.bind_lunit prod.case) simp
  moreover have "\<forall>j. 0 < j \<and> j < ?h \<longrightarrow> pk_mem q ! j = pk_mem p ! j"
    using q(5) m1 m2 by (auto simp: started_def resized_def ce)
  ultimately show ?thesis using q by blast
qed

text \<open>The value a reader gets for an id; inner \<open>None\<close> for no such extension.\<close>

definition extension_value :: "'h packet \<Rightarrow> u8 \<Rightarrow> bytes option option" where
  "extension_value p i = do {
     (v, n) \<leftarrow> GetExtension p i;
     (case v of None \<Rightarrow> Some None | Some v \<Rightarrow> map_option Some (read_bytes (pk_mem p) v (unat n))) }"

lemma extension_value_holds:
  assumes ok: "packet_ok q" and ty: "ty = 1 \<or> ty = 2" and holds: "holds_exactly ty es q" and i: "i \<noteq> 0"
  shows "extension_value q i = Some (case last_extension ty es i of
      None \<Rightarrow> None
    | Some e \<Rightarrow> if ge_len e = 0 then None else Some (take (unat (ge_len e)) (ge_value e)))"
proof -
  from ok have "layout_ok q" by (simp add: packet_ok_def)
  note get = GetExtension_active [OF this i]
  have act: "active_table q = Some (ty = 2, current_table ty q)"
    and look: "case last_extension ty es i of None \<Rightarrow> current_table ty q i = None
      | Some e \<Rightarrow> (\<exists>x. current_table ty q i = Some x \<and> stands_at ty (pk_mem q) x e)"
    using holds by (auto simp: holds_exactly_def)
  show ?thesis
  proof (cases "last_extension ty es i")
    case None
    with get act look show ?thesis by (simp add: extension_value_def)
  next
    case (Some e)
    with look obtain x where x: "current_table ty q i = Some x" "stands_at ty (pk_mem q) x e" by auto
    note ns = last_extension_not_skipped [OF Some]
    have "x + header_length ty + unat (ge_len e) \<le> length (pk_mem q)"
      "take (unat (ge_len e)) (drop (x + header_length ty) (pk_mem q)) = take (unat (ge_len e)) (ge_value e)"
      using x(2) ns by (auto simp: stands_at_def extension_size_def header_length_def split: if_splits)
    with get act x(1) Some stands_at_view [OF ty ns x(2)] show ?thesis
      by (simp add: extension_value_def)
  qed
qed

section \<open>The clone\<close>

definition copied :: "bytes \<Rightarrow> bytes \<Rightarrow> bytes \<Rightarrow> nat \<Rightarrow> bool" where
  "copied buffer m mem k \<longleftrightarrow> (\<forall>j < k. m ! j = mem ! j) \<and> (\<forall>j. k \<le> j \<longrightarrow> j < length m \<longrightarrow> m ! j = buffer ! j)"

lemma copy_step:
  assumes "copied buffer m mem k" and "k + n \<le> length mem" and "k + n \<le> length m"
  shows "read_bytes mem k n = Some (take n (drop k mem))"
    and "write_bytes m k (take n (drop k mem)) = Some (written m k (take n (drop k mem)))"
    and "copied buffer (written m k (take n (drop k mem))) mem (k + n)"
    and "length (written m k (take n (drop k mem))) = length m"
  using assms by (auto simp: copied_def write_bytes_written length_written nth_written)

lemma Clone_steps:
  fixes fresh :: "nat \<Rightarrow> u8"
  defines "buffer \<equiv> map fresh [0..<MtuSize + 100]"
  assumes ok: "packet_ok p" and room: "pk_size p \<le> length buffer"
  shows "\<exists>m. copied buffer m (pk_mem p) (pk_payload p + pk_payloadLength p) \<and> length m = length buffer \<and>
    Clone fresh p = do {
      mem \<leftarrow> (if pk_payloadPadding p \<noteq> 0
              then Set1Byte m (pk_size p - 1) (pk_payloadPadding p) else Some m);
      packet \<leftarrow> RtpPacket_new mem (pk_headerExtension p) (pk_payload p) (pk_payloadLength p)
                 (pk_payloadPadding p) (pk_size p);
      Some (keep_ids p packet) }"
proof -
  note b = packet_ok_bounds [OF ok]
  from ok have fr: "frame_ok p" by (simp add: packet_ok_def layout_ok_def)
  let ?mem = "pk_mem p"
  have ce: "HeaderSize \<le> csrc_end ?mem" "csrc_end ?mem \<le> pk_payload p"
    using fr by (auto simp: frame_ok_def csrc_end_def split: option.splits)
  have c0: "copied buffer buffer ?mem 0" by (simp add: copied_def)
  define m1 where "m1 = written buffer 0 (take HeaderSize (drop 0 ?mem))"
  have s1: "read_bytes ?mem 0 HeaderSize = Some (take HeaderSize (drop 0 ?mem))"
    "write_bytes buffer 0 (take HeaderSize (drop 0 ?mem)) = Some m1"
    "copied buffer m1 ?mem HeaderSize" "length m1 = length buffer"
    using copy_step [OF c0, of HeaderSize] b room ce unfolding m1_def by simp_all
  define m2 where "m2 = written m1 HeaderSize (take (csrcCount (?mem ! 0) * 4) (drop HeaderSize ?mem))"
  have s2: "read_bytes ?mem HeaderSize (csrcCount (?mem ! 0) * 4) = Some (take (csrcCount (?mem ! 0) * 4) (drop HeaderSize ?mem))"
    "write_bytes m1 HeaderSize (take (csrcCount (?mem ! 0) * 4) (drop HeaderSize ?mem)) = Some m2"
    "copied buffer m2 ?mem (csrc_end ?mem)" "length m2 = length buffer"
    using copy_step [OF s1(3), of "csrcCount (?mem ! 0) * 4"] b room ce s1(4) unfolding m2_def
    by (simp_all add: csrc_end_def)
  have e2: "(case pk_csrcList p of
          None \<Rightarrow> Some (m1, HeaderSize)
        | Some c \<Rightarrow> do {
            bs \<leftarrow> read_bytes ?mem c (csrcCount (?mem ! 0) * 4);
            mem \<leftarrow> write_bytes m1 HeaderSize bs;
            Some (mem, HeaderSize + csrcCount (?mem ! 0) * 4) }) = Some (m2, csrc_end ?mem)"
    using s2(1,2) fr by (auto simp: frame_ok_def csrc_end_def m2_def written_def)
  let ?x = "pk_payload p - csrc_end ?mem"
  define m3 where "m3 = written m2 (csrc_end ?mem) (take ?x (drop (csrc_end ?mem) ?mem))"
  have s3: "read_bytes ?mem (csrc_end ?mem) ?x = Some (take ?x (drop (csrc_end ?mem) ?mem))"
    "write_bytes m2 (csrc_end ?mem) (take ?x (drop (csrc_end ?mem) ?mem)) = Some m3"
    "copied buffer m3 ?mem (pk_payload p)" "length m3 = length buffer"
    using copy_step [OF s2(3), of ?x] b room ce s2(4) unfolding m3_def by simp_all
  have e3: "(case pk_headerExtension p of
          None \<Rightarrow> Some (m2, None, csrc_end ?mem)
        | Some h \<Rightarrow> do {
            len \<leftarrow> GetHeaderExtensionLength p;
            bs \<leftarrow> read_bytes ?mem h (4 + len);
            mem \<leftarrow> write_bytes m2 (csrc_end ?mem) bs;
            Some (mem, Some (csrc_end ?mem), csrc_end ?mem + (4 + len)) })
      = Some (m3, pk_headerExtension p, pk_payload p)"
    using s3(1,2) fr ce by (auto simp: frame_ok_def m3_def written_def split: option.split)
  let ?n = "pk_payloadLength p"
  define m4 where "m4 = written m3 (pk_payload p) (take ?n (drop (pk_payload p) ?mem))"
  have s4: "read_bytes ?mem (pk_payload p) ?n = Some (take ?n (drop (pk_payload p) ?mem))"
    "write_bytes m3 (pk_payload p) (take ?n (drop (pk_payload p) ?mem)) = Some m4"
    "copied buffer m4 ?mem (pk_payload p + ?n)" "length m4 = length buffer"
    using copy_step [OF s3(3), of ?n] b room s3(4) unfolding m4_def by simp_all
  have "0 < length ?mem" using b(1,2) unfolding HeaderSize_def by linarith
  then have b0: "Get1Byte ?mem 0 = Some (?mem ! 0)" by (rule Get1Byte_in)
  show ?thesis
    by (intro exI [of _ m4])
       (use s4(3,4) b(3) in \<open>simp add: Clone_def buffer_def [symmetric] s1(1,2) b0 e2 e3 s4(1,2) b(3) [symmetric] del: drop0\<close>)
qed

lemma packet_ok_view:
  assumes "packet_ok p" and "same_pointers p q" and "pk_mem q = pk_mem p" and "pk_size q = pk_size p"
    and "pk_payloadLength q = pk_payloadLength p" and "pk_payloadPadding q = pk_payloadPadding p"
  shows "packet_ok q"
proof -
  have "pk_payload p \<le> length (pk_mem p)" using packet_ok_bounds [OF assms(1)] by simp
  then have "layout_ok q"
    using assms(1,3) by (intro layout_ok_cong [OF _ assms(2)]) (auto simp: packet_ok_def same_layout_bytes_def)
  with assms show ?thesis by (auto simp: packet_ok_def tail_ok_def same_pointers_def)
qed

lemma Clone_ok:
  assumes ok: "packet_ok p" and size: "pk_size p \<le> MtuSize + 100"
  shows "\<exists>q. Clone fresh p = Some q \<and> packet_ok q \<and> length (pk_mem q) = MtuSize + 100 \<and>
    pk_size q = pk_size p \<and> pk_payload q = pk_payload p \<and> pk_payloadLength q = pk_payloadLength p \<and>
    pk_payloadPadding q = pk_payloadPadding p \<and> pk_headerExtension q = pk_headerExtension p \<and> keep_ids p q = q \<and>
    (\<forall>j < pk_payload p + pk_payloadLength p. pk_mem q ! j = pk_mem p ! j) \<and>
    (\<forall>j. pk_payload p + pk_payloadLength p \<le> j \<and> j + 1 < pk_size p \<longrightarrow> pk_mem q ! j = fresh j)"
proof -
  let ?buffer = "map fresh [0..<MtuSize + 100]"
  have room: "pk_size p \<le> length ?buffer" using size by simp
  note b = packet_ok_bounds [OF ok]
  from ok have lay: "layout_ok p" and fr: "frame_ok p" and tl: "tail_ok p"
    by (simp_all add: packet_ok_def layout_ok_def)
  obtain m where m: "copied ?buffer m (pk_mem p) (pk_payload p + pk_payloadLength p)" "length m = length ?buffer"
    and clone: "Clone fresh p = do {
      mem \<leftarrow> (if pk_payloadPadding p \<noteq> 0
              then Set1Byte m (pk_size p - 1) (pk_payloadPadding p) else Some m);
      packet \<leftarrow> RtpPacket_new mem (pk_headerExtension p) (pk_payload p) (pk_payloadLength p)
                 (pk_payloadPadding p) (pk_size p);
      Some (keep_ids p packet) }"
    using Clone_steps [OF ok room] by blast
  define m' where "m' = (if pk_payloadPadding p \<noteq> 0 then m[pk_size p - 1 := pk_payloadPadding p] else m)"
  have sz: "pk_payloadPadding p \<noteq> 0 \<Longrightarrow> pk_payload p + pk_payloadLength p \<le> pk_size p - 1 \<and> pk_size p - 1 < length m"
    using b(1,3) room m(2) by (auto simp: HeaderSize_def unat_eq_0 [symmetric])
  have same: "m' ! j = pk_mem p ! j" if "j < pk_payload p + pk_payloadLength p" for j
    using m(1) sz that by (auto simp: m'_def copied_def)
  have other: "m' ! j = fresh j" if "pk_payload p + pk_payloadLength p \<le> j" "j + 1 < pk_size p" for j
    using m that size by (auto simp: m'_def copied_def)
  have l: "length m' = length ?buffer" using m(2) by (simp add: m'_def)
  have b0: "m' ! 0 = pk_mem p ! 0" using b(1) by (intro same) (simp add: HeaderSize_def)
  have "pk_headerExtension p = Some h \<Longrightarrow> Get2Bytes m' (h + 2) = Get2Bytes (pk_mem p) (h + 2)" for h
    using fr same b l room by (intro Get2Bytes_cong) (auto simp: frame_ok_def)
  then have new: "\<exists>q. RtpPacket_new m' (pk_headerExtension p) (pk_payload p) (pk_payloadLength p)
      (pk_payloadPadding p) (pk_size p) = Some (q :: 'a packet) \<and> packet_ok q \<and> pk_mem q = m' \<and>
    pk_headerExtension q = pk_headerExtension p \<and> pk_payload q = pk_payload p \<and>
    pk_payloadLength q = pk_payloadLength p \<and> pk_payloadPadding q = pk_payloadPadding p \<and> pk_size q = pk_size p"
    using fr tl b l room b0 sz
    by (intro RtpPacket_new_ok)
       (auto simp: frame_ok_def tail_ok_def csrc_end_def GetHeaderExtensionLength_def HeaderSize_def m'_def split: option.splits)
  then obtain q :: "'a packet" where q: "RtpPacket_new m' (pk_headerExtension p) (pk_payload p) (pk_payloadLength p)
      (pk_payloadPadding p) (pk_size p) = Some q" "packet_ok q" "pk_mem q = m'"
    "pk_headerExtension q = pk_headerExtension p" "pk_payload q = pk_payload p"
    "pk_payloadLength q = pk_payloadLength p" "pk_payloadPadding q = pk_payloadPadding p" "pk_size q = pk_size p"
    by blast
  have "packet_ok (keep_ids p q)"
    by (rule packet_ok_view [OF q(2)]) (simp_all add: keep_ids_def same_pointers_def)
  moreover have "Clone fresh p = Some (keep_ids p q)"
    using clone sz q(1) by (simp add: m'_def split: if_splits)
  ultimately show ?thesis using q l same other by (intro exI [of _ "keep_ids p q"]) (simp add: keep_ids_def)
qed

section \<open>The readers\<close>

text \<open>Every accessor of the class returns: it reads inside the packet's memory.\<close>

definition readers_return :: "'h packet \<Rightarrow> bool" where
  "readers_return p \<longleftrightarrow>
     GetPayloadType p \<noteq> None \<and> HasMarker p \<noteq> None \<and> GetSequenceNumber p \<noteq> None \<and>
     GetTimestamp p \<noteq> None \<and> GetSsrc p \<noteq> None \<and>
     GetHeaderExtensionId p \<noteq> None \<and> GetHeaderExtensionLength p \<noteq> None \<and>
     list_all (\<lambda>i. HasExtension p i \<noteq> None \<and> GetExtension p i \<noteq> None) all_ids \<and>
     ReadMid p \<noteq> None \<and> ReadRid p \<noteq> None \<and> ReadAbsSendTime p \<noteq> None \<and>
     ReadTransportWideCc01 p \<noteq> None \<and> ReadSsrcAudioLevel p \<noteq> None \<and> ReadVideoOrientation p \<noteq> None \<and>
     (case ReadFrameMarking p of
        None \<Rightarrow> False
      | Some None \<Rightarrow> True
      | Some (Some (v, n)) \<Rightarrow> frame_marking_at p v \<noteq> None)"

lemma GetExtension_inside:
  assumes ok: "packet_ok p" and get: "GetExtension p i = Some (Some v, n)"
  shows "v + unat n \<le> length (pk_mem p)" and "0 < unat n"
proof -
  from ok have lay: "layout_ok p" by (simp add: packet_ok_def)
  obtain two tab q where t: "active_table p = Some (two, tab)" "tab i = Some q"
    "v + unat n = element_end two (pk_mem p) q"
    by (rule GetExtension_element [OF lay get]) (rule that; assumption)
  obtain h where "table_ok two (pk_mem p) (h + 4) (pk_payload p) tab"
    by (rule active_table_ok [OF lay t(1)]) (rule that; assumption)
  with t(2) have "element_end two (pk_mem p) q \<le> pk_payload p" by (auto simp: table_ok_def)
  with t(3) packet_ok_bounds [OF ok] show "v + unat n \<le> length (pk_mem p)" by linarith
  have "(b AND 0x0F) + 1 \<noteq> (0 :: u8)" for b using low_nibble_len [of b] by auto
  with get show "0 < unat n"
    by (auto simp: GetExtension_def unat_gt_0 split: if_splits option.splits bind_splits)
qed

lemma HasExtension_total: "GetExtension p i \<noteq> None \<Longrightarrow> HasExtension p i \<noteq> None"
  by (auto simp: GetExtension_def HasExtension_def split: if_splits option.splits bind_splits)

lemma value_readers_return:
  assumes ok: "packet_ok p"
  shows "ReadMid p \<noteq> None" "ReadRid p \<noteq> None" "ReadAbsSendTime p \<noteq> None" "ReadTransportWideCc01 p \<noteq> None"
    "ReadSsrcAudioLevel p \<noteq> None" "ReadVideoOrientation p \<noteq> None"
    "case ReadFrameMarking p of
        None \<Rightarrow> False
      | Some None \<Rightarrow> True
      | Some (Some (v, n)) \<Rightarrow> frame_marking_at p v \<noteq> None"
proof -
  have g: "\<exists>v n. GetExtension p i = Some (v, n) \<and>
      (\<forall>w. v = Some w \<longrightarrow> w + unat n \<le> length (pk_mem p) \<and> 0 < unat n)" for i
    using GetExtension_total [OF ok, of i] GetExtension_inside [OF ok, of i] by blast
  obtain v n where "GetExtension p (pk_midExtensionId p) = Some (v, n)"
    "\<forall>w. v = Some w \<longrightarrow> w + unat n \<le> length (pk_mem p) \<and> 0 < unat n" using g by blast
  then show "ReadMid p \<noteq> None" by (cases v) (simp_all add: ReadMid_def)
  obtain v n v' n' where "GetExtension p (pk_ridExtensionId p) = Some (v, n)"
    "\<forall>w. v = Some w \<longrightarrow> w + unat n \<le> length (pk_mem p) \<and> 0 < unat n"
    "GetExtension p (pk_rridExtensionId p) = Some (v', n')"
    "\<forall>w. v' = Some w \<longrightarrow> w + unat n' \<le> length (pk_mem p) \<and> 0 < unat n'" using g by meson
  then show "ReadRid p \<noteq> None" by (cases v; cases v') (simp_all add: ReadRid_def)
  obtain v n where "GetExtension p (pk_absSendTimeExtensionId p) = Some (v, n)"
    "\<forall>w. v = Some w \<longrightarrow> w + unat n \<le> length (pk_mem p) \<and> 0 < unat n" using g by blast
  then show "ReadAbsSendTime p \<noteq> None" by (cases v) (auto simp: ReadAbsSendTime_def Get3Bytes_def)
  obtain v n where "GetExtension p (pk_transportWideCc01ExtensionId p) = Some (v, n)"
    "\<forall>w. v = Some w \<longrightarrow> w + unat n \<le> length (pk_mem p) \<and> 0 < unat n" using g by blast
  then show "ReadTransportWideCc01 p \<noteq> None" by (cases v) (auto simp: ReadTransportWideCc01_def Get2Bytes_in)
  obtain v n where "GetExtension p (pk_ssrcAudioLevelExtensionId p) = Some (v, n)"
    "\<forall>w. v = Some w \<longrightarrow> w + unat n \<le> length (pk_mem p) \<and> 0 < unat n" using g by blast
  then show "ReadSsrcAudioLevel p \<noteq> None" by (cases v) (auto simp: ReadSsrcAudioLevel_def)
  obtain v n where "GetExtension p (pk_videoOrientationExtensionId p) = Some (v, n)"
    "\<forall>w. v = Some w \<longrightarrow> w + unat n \<le> length (pk_mem p) \<and> 0 < unat n" using g by blast
  then show "ReadVideoOrientation p \<noteq> None" by (cases v) (auto simp: ReadVideoOrientation_def Let_def)
  obtain v n v' n' where f: "GetExtension p (pk_frameMarkingExtensionId p) = Some (v, n)"
    "\<forall>w. v = Some w \<longrightarrow> w + unat n \<le> length (pk_mem p) \<and> 0 < unat n"
    "GetExtension p (pk_frameMarking07ExtensionId p) = Some (v', n')"
    "\<forall>w. v' = Some w \<longrightarrow> w + unat n' \<le> length (pk_mem p) \<and> 0 < unat n'" using g by meson
  then show "case ReadFrameMarking p of
        None \<Rightarrow> False
      | Some None \<Rightarrow> True
      | Some (Some (v, n)) \<Rightarrow> frame_marking_at p v \<noteq> None"
    by (cases v; cases v') (simp_all add: ReadFrameMarking_def frame_marking_at_def)
qed

lemma packet_ok_readers:
  assumes ok: "packet_ok p"
  shows "readers_return p"
proof -
  have "12 \<le> length (pk_mem p)" using packet_ok_bounds [OF ok] by (simp add: HeaderSize_def)
  then have "GetPayloadType p \<noteq> None" "HasMarker p \<noteq> None" "GetSequenceNumber p \<noteq> None"
    "GetTimestamp p \<noteq> None" "GetSsrc p \<noteq> None"
    by (simp_all add: GetPayloadType_def HasMarker_def GetSequenceNumber_def GetTimestamp_def GetSsrc_def
        Get2Bytes_in Get4Bytes_def)
  moreover from ok have lay: "layout_ok p" by (simp add: packet_ok_def)
  then have "GetHeaderExtensionId p \<noteq> None" "GetHeaderExtensionLength p \<noteq> None"
    using extension_id_total [OF lay]
    by (auto simp: layout_ok_def frame_ok_def GetHeaderExtensionLength_def split: option.splits)
  moreover have "GetExtension p i \<noteq> None" for i using GetExtension_total [OF ok, of i] by auto
  ultimately show ?thesis
    unfolding readers_return_def list_all_ids using value_readers_return [OF ok] HasExtension_total [of p] by blast
qed

section \<open>The packet as a machine\<close>

datatype extension_name =
    Mid | Rid | RepairedRid | AbsSendTime | TransportWideCc01 | FrameMarking07 | FrameMarking
  | SsrcAudioLevel | VideoOrientation

fun set_extension_id :: "extension_name \<Rightarrow> u8 \<Rightarrow> 'h packet \<Rightarrow> 'h packet" where
  "set_extension_id Mid = SetMidExtensionId"
| "set_extension_id Rid = SetRidExtensionId"
| "set_extension_id RepairedRid = SetRepairedRidExtensionId"
| "set_extension_id AbsSendTime = SetAbsSendTimeExtensionId"
| "set_extension_id TransportWideCc01 = SetTransportWideCc01ExtensionId"
| "set_extension_id FrameMarking07 = SetFrameMarking07ExtensionId"
| "set_extension_id FrameMarking = SetFrameMarkingExtensionId"
| "set_extension_id SsrcAudioLevel = SetSsrcAudioLevelExtensionId"
| "set_extension_id VideoOrientation = SetVideoOrientationExtensionId"

text \<open>The calls of the methods that change a packet; \<open>OpClone\<close> goes on with the clone.\<close>

datatype ('h, 'c) packet_op =
    OpSetPayloadType u8 | OpSetMarker bool | OpSetSequenceNumber u16 | OpSetTimestamp u32 | OpSetSsrc u32
  | OpSetExtensionId extension_name u8 | OpSetExtensions u8 "generic_extension list" | OpUpdateMid bytes
  | OpUpdateAbsSendTime u64 | OpUpdateTransportWideCc01 u16 | OpSetPayloadLength nat
  | OpRtxEncode u8 u32 u16 | OpRtxDecode u8 u32 | OpShiftPayload nat nat bool
  | OpSetPayloadPaddingFlag bool | OpSetExtensionLength u8 u8 | OpClone "nat \<Rightarrow> u8"
  | OpSetPayloadDescriptorHandler "'h option"
  | OpProcessPayload "'h \<Rightarrow> 'c \<Rightarrow> bytes \<Rightarrow> nat \<Rightarrow> bool \<Rightarrow> (bool \<times> 'h \<times> 'c \<times> bytes \<times> bool) option" 'c bool
  | OpRestorePayload "'h \<Rightarrow> bytes \<Rightarrow> nat \<Rightarrow> bytes option"

text \<open>A step emits the boolean result of the method, if it has one.\<close>

definition quiet :: "'h packet option \<Rightarrow> ('h packet \<times> bool list) option" where
  "quiet r = map_option (\<lambda>q. (q, [])) r"

definition answered :: "(bool \<times> 'h packet) option \<Rightarrow> ('h packet \<times> bool list) option" where
  "answered r = map_option (\<lambda>(b, q). (q, [b])) r"

fun packet_step :: "'h packet \<Rightarrow> ('h, 'c) packet_op \<Rightarrow> ('h packet \<times> bool list) option" where
  "packet_step p (OpSetPayloadType t) = quiet (SetPayloadType t p)"
| "packet_step p (OpSetMarker b) = quiet (SetMarker b p)"
| "packet_step p (OpSetSequenceNumber s) = quiet (SetSequenceNumber s p)"
| "packet_step p (OpSetTimestamp t) = quiet (SetTimestamp t p)"
| "packet_step p (OpSetSsrc s) = quiet (SetSsrc s p)"
| "packet_step p (OpSetExtensionId x i) = Some (set_extension_id x i p, [])"
| "packet_step p (OpSetExtensions ty es) = quiet (SetExtensions ty es p)"
| "packet_step p (OpUpdateMid mid) = quiet (UpdateMid mid p)"
| "packet_step p (OpUpdateAbsSendTime ms) = answered (UpdateAbsSendTime ms p)"
| "packet_step p (OpUpdateTransportWideCc01 s) = answered (UpdateTransportWideCc01 s p)"
| "packet_step p (OpSetPayloadLength n) = quiet (SetPayloadLength n p)"
| "packet_step p (OpRtxEncode t ssrc s) = quiet (RtxEncode t ssrc s p)"
| "packet_step p (OpRtxDecode t ssrc) = answered (RtxDecode t ssrc p)"
| "packet_step p (OpShiftPayload off k expand) = quiet (ShiftPayload off k expand p)"
| "packet_step p (OpSetPayloadPaddingFlag flag) = quiet (SetPayloadPaddingFlag flag p)"
| "packet_step p (OpSetExtensionLength i len) = answered (SetExtensionLength i len p)"
| "packet_step p (OpClone fresh) = quiet (Clone fresh p)"
| "packet_step p (OpSetPayloadDescriptorHandler handler) = Some (SetPayloadDescriptorHandler handler p, [])"
| "packet_step p (OpProcessPayload process context marker) =
     answered (map_option (\<lambda>(ok, q, context, marker). (ok, q)) (ProcessPayload process context marker p))"
| "packet_step p (OpRestorePayload restore) = quiet (RestorePayload restore p)"

text \<open>What a codec's handler may change: bytes of the payload.\<close>

definition payload_only :: "'h packet \<Rightarrow> bytes \<Rightarrow> bool" where
  "payload_only p mem \<longleftrightarrow> length mem = length (pk_mem p) \<and>
     take (pk_payload p) mem = take (pk_payload p) (pk_mem p) \<and>
     drop (pk_payload p + pk_payloadLength p) mem = drop (pk_payload p + pk_payloadLength p) (pk_mem p)"

text \<open>
  What each operation asks of its caller: memory behind the packet and arguments in range; a
  padding flag that agrees with the padding; a packet that fits into the buffer of a clone; and a
  handler whose methods return and write into the payload only.
\<close>

fun packet_pre :: "'h packet \<Rightarrow> ('h, 'c) packet_op \<Rightarrow> bool" where
  "packet_pre p (OpSetExtensions ty es) = can_set ty es p"
| "packet_pre p (OpUpdateMid mid) =
     (length mid \<le> MidMaxLength \<longrightarrow> room_for p (pk_midExtensionId p) (length mid))"
| "packet_pre p (OpSetPayloadLength n) =
     (n \<le> 65532 \<and> pk_payload p + 4 * ((n + 3) div 4) \<le> length (pk_mem p))"
| "packet_pre p (OpRtxEncode t ssrc s) =
     (pk_payload p + pk_payloadLength p + 2 \<le> length (pk_mem p))"
| "packet_pre p (OpShiftPayload off k expand) =
     (off < pk_payloadLength p \<and>
      (if expand then pk_size p + k \<le> length (pk_mem p) else k \<le> pk_payloadLength p - off))"
| "packet_pre p (OpSetPayloadPaddingFlag flag) = (flag = (pk_payloadPadding p \<noteq> 0))"
| "packet_pre p (OpSetExtensionLength i len) = length_fits i len p"
| "packet_pre p (OpClone fresh) = (pk_size p \<le> MtuSize + 100)"
| "packet_pre p (OpProcessPayload process context marker) =
     (case pk_payloadDescriptorHandler p of
        None \<Rightarrow> True
      | Some handler \<Rightarrow>
          (case process handler context (pk_mem p) (pk_payload p) marker of
             None \<Rightarrow> False
           | Some (ok, handler, context, mem, marker) \<Rightarrow> payload_only p mem))"
| "packet_pre p (OpRestorePayload restore) =
     (case pk_payloadDescriptorHandler p of
        None \<Rightarrow> True
      | Some handler \<Rightarrow>
          (case restore handler (pk_mem p) (pk_payload p) of
             None \<Rightarrow> False
           | Some mem \<Rightarrow> payload_only p mem))"
| "packet_pre p op = True"

lemma set_extension_id_ok: "packet_ok p \<Longrightarrow> packet_ok (set_extension_id x i p)"
  by (rule packet_ok_view)
     (cases x; simp add: same_pointers_def SetMidExtensionId_def SetRidExtensionId_def
        SetRepairedRidExtensionId_def SetAbsSendTimeExtensionId_def SetTransportWideCc01ExtensionId_def
        SetFrameMarking07ExtensionId_def SetFrameMarkingExtensionId_def SetSsrcAudioLevelExtensionId_def
        SetVideoOrientationExtensionId_def)+

lemma RtxDecode_total:
  assumes "packet_ok p"
  shows "\<exists>b q. RtxDecode t ssrc p = Some (b, q) \<and> packet_ok q"
proof (cases "2 \<le> pk_payloadLength p")
  case True
  with packet_ok_bounds [OF assms] obtain s where "Get2Bytes (pk_mem p) (pk_payload p) = Some s"
    by (auto simp: Get2Bytes_in)
  with RtxDecode_ok [OF assms True] show ?thesis by blast
qed (use assms in \<open>auto simp: RtxDecode_def\<close>)

lemma RtxEncode_total:
  assumes "packet_ok p" and "pk_payload p + pk_payloadLength p + 2 \<le> length (pk_mem p)"
  shows "\<exists>q. RtxEncode t ssrc s p = Some q \<and> packet_ok q"
  using packet_ok_sequence_number [OF assms(1)] RtxEncode_ok [OF assms] by blast

lemma SetPayloadPaddingFlag_ok:
  assumes ok: "packet_ok p" and flag: "flag = (pk_payloadPadding p \<noteq> 0)"
  shows "\<exists>q. SetPayloadPaddingFlag flag p = Some q \<and> packet_ok q"
proof -
  note b = packet_ok_bounds [OF ok]
  let ?q = "p\<lparr>pk_mem := (pk_mem p)[0 := write_bit (pk_mem p ! 0) 5 flag]\<rparr>"
  have l: "0 < length (pk_mem p)" "pk_payloadPadding p \<noteq> 0 \<Longrightarrow> pk_size p - 1 \<noteq> 0"
    using b by (auto simp: HeaderSize_def)
  have "packet_ok ?q"
  proof (rule packet_ok_tail [where p = p and f = flag])
    show "tail_ok ?q" using ok l flag by (auto simp: packet_ok_def tail_ok_def)
  qed (use ok l in \<open>auto simp: packet_ok_def same_pointers_def\<close>)
  then show ?thesis using l(1) by (simp add: SetPayloadPaddingFlag_def with_mem_def)
qed

lemma payload_only_ok:
  assumes ok: "packet_ok p" and only: "payload_only p mem"
  shows "packet_ok (p\<lparr>pk_mem := mem\<rparr>)"
proof -
  note b = packet_ok_bounds [OF ok]
  from only have len: "length mem = length (pk_mem p)"
    and head: "\<And>j. j < pk_payload p \<Longrightarrow> mem ! j = pk_mem p ! j"
    by (auto simp: payload_only_def dest: arg_cong [where f = "\<lambda>xs. xs ! _"]) (metis nth_take)
  have rear: "mem ! j = pk_mem p ! j" if "pk_payload p + pk_payloadLength p \<le> j" "j < length (pk_mem p)" for j
    using only that nth_drop [of "pk_payload p + pk_payloadLength p" mem "j - (pk_payload p + pk_payloadLength p)"]
      nth_drop [of "pk_payload p + pk_payloadLength p" "pk_mem p" "j - (pk_payload p + pk_payloadLength p)"]
    by (simp add: payload_only_def)
  have pad: "pk_payloadPadding p \<noteq> 0 \<Longrightarrow> pk_payload p + pk_payloadLength p \<le> pk_size p - 1 \<and> pk_size p - 1 < length (pk_mem p)"
    using b by (auto simp: HeaderSize_def unat_eq_0 [symmetric])
  show ?thesis
  proof (rule packet_ok_tail [where p = p and f = False])
    show "tail_ok (p\<lparr>pk_mem := mem\<rparr>)"
      using ok len head [of 0] b(1) rear pad by (auto simp: packet_ok_def tail_ok_def HeaderSize_def)
    show "pk_mem (p\<lparr>pk_mem := mem\<rparr>) ! 0 = pk_mem p ! 0 \<or> pk_mem (p\<lparr>pk_mem := mem\<rparr>) ! 0 = write_bit (pk_mem p ! 0) 5 False"
      using head [of 0] b(1) by (simp add: HeaderSize_def)
  qed (use ok head len in \<open>auto simp: packet_ok_def same_pointers_def\<close>)
qed

lemma packet_ok_handler: "packet_ok p \<Longrightarrow> packet_ok (p\<lparr>pk_payloadDescriptorHandler := h\<rparr>)"
  by (rule packet_ok_view) (simp_all add: same_pointers_def)

lemma packet_step_safe:
  assumes "packet_ok p" and "packet_pre p op"
  shows "\<exists>q out. packet_step p op = Some (q, out) \<and> packet_ok q"
proof (cases op)
  case (OpSetMarker b)
  with assms SetMarker_ok [OF assms(1)] SetPayloadType_ok(2) [OF assms(1)] show ?thesis by (simp add: quiet_def)
next
  case (OpShiftPayload off k expand)
  with assms ShiftPayload_expand [OF assms(1)] ShiftPayload_shrink [OF assms(1)] show ?thesis
    by (cases expand) (fastforce simp: quiet_def)+
next
  case (OpSetExtensions ty es)
  with assms SetExtensions_ok [OF assms(1)] show ?thesis by (fastforce simp: quiet_def)
next
  case (OpUpdateMid mid)
  with assms UpdateMid_ok [OF assms(1)] show ?thesis by (fastforce simp: quiet_def)
next
  case (OpSetPayloadLength n)
  with assms SetPayloadLength_ok [OF assms(1)] show ?thesis by (fastforce simp: quiet_def)
next
  case (OpRtxEncode t ssrc s)
  with assms RtxEncode_total [OF assms(1)] show ?thesis by (fastforce simp: quiet_def)
next
  case (OpRtxDecode t ssrc)
  with RtxDecode_total [OF assms(1)] show ?thesis by (fastforce simp: answered_def)
next
  case (OpUpdateAbsSendTime ms)
  with UpdateAbsSendTime_ok [OF assms(1)] show ?thesis by (fastforce simp: answered_def)
next
  case (OpUpdateTransportWideCc01 s)
  with UpdateTransportWideCc01_ok [OF assms(1)] show ?thesis by (fastforce simp: answered_def)
next
  case (OpSetPayloadPaddingFlag flag)
  with assms SetPayloadPaddingFlag_ok [OF assms(1)] show ?thesis by (fastforce simp: quiet_def)
next
  case (OpSetExtensionLength i len)
  with assms SetExtensionLength_total [OF assms(1)] show ?thesis by (fastforce simp: answered_def)
next
  case (OpClone fresh)
  with assms Clone_ok [OF assms(1)] show ?thesis by (fastforce simp: quiet_def)
next
  case (OpSetPayloadDescriptorHandler handler)
  with assms packet_ok_handler show ?thesis by (simp add: SetPayloadDescriptorHandler_def)
next
  case (OpProcessPayload process ctx marker)
  with assms payload_only_ok [OF assms(1)] packet_ok_handler show ?thesis
    by (fastforce simp: ProcessPayload_def answered_def split: option.splits)
next
  case (OpRestorePayload restore)
  with assms payload_only_ok [OF assms(1)] show ?thesis
    by (fastforce simp: RestorePayload_def quiet_def with_mem_def split: option.splits)
qed (use assms SetPayloadType_ok [OF assms(1)] SetSequenceNumber_ok [OF assms(1)] SetTimestamp_ok [OF assms(1)]
      SetSsrc_ok [OF assms(1)] set_extension_id_ok in \<open>auto simp: quiet_def\<close>)

interpretation packet_machine: safe_machine packet_step packet_ok packet_pre
  by unfold_locales (rule packet_step_safe)

section \<open>An example\<close>

text \<open>
  An RTP packet of 38 bytes in a buffer of 64: one CSRC, a One-Byte header extension with the elements
  1 (one byte) and 3 (three bytes), seven bytes of payload and three of padding.
\<close>

definition example_rtp :: bytes where
  "example_rtp =
     [0xB1, 0x60, 0x12, 0x34, 0, 0, 0, 9, 0, 0, 0, 7,
      0, 0, 0, 5,
      0xBE, 0xDE, 0, 2, 0x10, 0xAA, 0x32, 1, 2, 3, 0, 0,
      11, 12, 13, 14, 15, 16, 17, 0, 0, 3] @ replicate 26 0"

definition example_parsed_packet :: "unit packet" where
  "example_parsed_packet = the (the (RtpPacket_Parse example_rtp 38))"

definition example_extensions :: "generic_extension list" where
  "example_extensions =
     [\<lparr>ge_id = 1, ge_len = 8, ge_value = [1, 2, 3, 4, 5, 6, 7, 8]\<rparr>,
      \<lparr>ge_id = 15, ge_len = 1, ge_value = [9]\<rparr>,
      \<lparr>ge_id = 4, ge_len = 3, ge_value = [0, 0, 0]\<rparr>]"

definition example_ops :: "(unit, nat) packet_op list" where
  "example_ops =
     [OpSetExtensionId AbsSendTime 3, OpUpdateAbsSendTime 1000, OpSetExtensionLength 3 4,
      OpSetPayloadPaddingFlag True, OpShiftPayload 2 1 True,
      OpSetPayloadDescriptorHandler (Some ()),
      OpProcessPayload (\<lambda>h c mem i m. Some (True, h, c + 1, mem[i := 99], m)) 0 False,
      OpRtxEncode 97 77 1, OpRtxDecode 96 7, OpSetSequenceNumber 5]"

lemma example_parsed: "RtpPacket_Parse example_rtp 38 = Some (Some example_parsed_packet)"
proof -
  have "case (RtpPacket_Parse example_rtp 38 :: unit packet option option) of Some (Some p) \<Rightarrow> True | _ \<Rightarrow> False"
    by code_simp
  then show ?thesis unfolding example_parsed_packet_def by (auto split: option.splits)
qed

lemma example_parsed_ok: "packet_ok example_parsed_packet"
proof -
  have len: "38 \<le> length example_rtp" by (simp add: example_rtp_def)
  then have "\<exists>n. accepted example_rtp 38 n"
    using RtpPacket_Parse_reject [OF len, where ?'a = unit] example_parsed by auto
  with RtpPacket_Parse_accept [OF len, where ?'h = unit] example_parsed show ?thesis by auto
qed

section \<open>Properties\<close>

text \<open>
  C2: Parsing a received datagram, whatever its bytes, reads nothing outside it and fails no
  assertion. It rejects exactly the datagrams that are too short for what their own header
  announces; from any other it makes a packet that satisfies the invariant, over the same bytes.
\<close>

theorem RtpPacket_Parse_total:
  assumes "len \<le> length data"
  shows "case (RtpPacket_Parse data len :: 'h packet option option) of
      None \<Rightarrow> False
    | Some None \<Rightarrow> \<nexists>payload. accepted data len payload
    | Some (Some p) \<Rightarrow> packet_ok p \<and> pk_mem p = data \<and> pk_size p = len \<and> accepted data len (pk_payload p)"
proof (cases "\<exists>payload. accepted data len payload")
  case True
  then obtain n where n: "accepted data len n" by blast
  with RtpPacket_Parse_accept [OF assms n, where ?'h = 'h] show ?thesis by auto
next
  case False
  with RtpPacket_Parse_reject [OF assms, where ?'a = 'h] show ?thesis by simp
qed

theorem RtpPacket_Parse_total_witness:
  "case (RtpPacket_Parse example_rtp 38 :: unit packet option option) of
      None \<Rightarrow> False
    | Some None \<Rightarrow> \<nexists>payload. accepted example_rtp 38 payload
    | Some (Some p) \<Rightarrow> packet_ok p \<and> pk_mem p = example_rtp \<and> pk_size p = 38 \<and> accepted example_rtp 38 (pk_payload p)"
  using RtpPacket_Parse_total [of 38 example_rtp, where ?'h = unit] by (simp add: example_rtp_def)

text \<open>
  C9: The invariant is a type of packets: any sequence of the methods of the class that change a
  packet (the setters of the header, of the extension ids and of the handler, \<^verbatim>\<open>SetExtensions\<close>,
  \<^verbatim>\<open>SetExtensionLength\<close>, the \<^verbatim>\<open>Update\<close> methods, \<^verbatim>\<open>SetPayloadLength\<close>, both RTX operations,
  \<^verbatim>\<open>ShiftPayload\<close>, \<^verbatim>\<open>ProcessPayload\<close>, \<^verbatim>\<open>RestorePayload\<close>) and of \<^verbatim>\<open>Clone\<close>, each called as
  \<^const>\<open>packet_pre\<close> asks (enough memory behind the packet, arguments in range, a padding flag that
  agrees with the padding, a handler that only writes into the payload), accesses only the packet's
  memory and fails no assertion. It ends in a packet that satisfies the invariant again, and of which every
  accessor of the class returns.
\<close>

theorem RtpPacket_operations_type:
  assumes "packet_ok p" and "ok_run packet_step packet_pre p ops"
  shows "\<exists>q outs. run_steps packet_step p ops = Some (q, outs) \<and> packet_ok q \<and> readers_return q"
  using packet_machine.run_safe [OF assms] packet_ok_readers by blast

theorem RtpPacket_operations_type_witness:
  "\<exists>q outs. run_steps packet_step example_parsed_packet example_ops = Some (q, outs) \<and>
    packet_ok q \<and> readers_return q"
  by (rule RtpPacket_operations_type [OF example_parsed_ok]) code_simp

text \<open>
  C23: What the worker sends is what the packet says: the bytes of a packet that satisfies the
  invariant parse back, with the same positions, lengths and payload.
\<close>

theorem RtpPacket_wire:
  assumes "packet_ok p"
  shows "\<exists>q :: 'h packet. RtpPacket_Parse (pk_mem p) (pk_size p) = Some (Some q) \<and> packet_ok q \<and>
    pk_headerExtension q = pk_headerExtension p \<and> pk_csrcList q = pk_csrcList p \<and>
    pk_payload q = pk_payload p \<and> pk_payloadPadding q = pk_payloadPadding p \<and>
    payload_bytes q = payload_bytes p"
proof -
  have len: "pk_size p \<le> length (pk_mem p)" using packet_ok_bounds [OF assms] by simp
  obtain q :: "'h packet" where q: "RtpPacket_Parse (pk_mem p) (pk_size p) = Some (Some q)" "packet_ok q"
    "pk_mem q = pk_mem p" "pk_size q = pk_size p"
    using RtpPacket_Parse_accept [OF len packet_ok_accepted [OF assms], where ?'h = 'h] by blast
  with packet_ok_determined [OF assms q(2)] show ?thesis by (auto simp: payload_bytes_def)
qed

theorem RtpPacket_wire_witness:
  "\<exists>q :: unit packet. RtpPacket_Parse (pk_mem example_parsed_packet) (pk_size example_parsed_packet) = Some (Some q) \<and> packet_ok q \<and>
    pk_headerExtension q = pk_headerExtension example_parsed_packet \<and> pk_csrcList q = pk_csrcList example_parsed_packet \<and>
    pk_payload q = pk_payload example_parsed_packet \<and> pk_payloadPadding q = pk_payloadPadding example_parsed_packet \<and>
    payload_bytes q = payload_bytes example_parsed_packet"
  by (rule RtpPacket_wire [OF example_parsed_ok])

text \<open>
  C15: RTX is lossless. Encoding a packet for retransmission puts its sequence number before its
  payload under the new payload type, SSRC and sequence number, and decoding the result gives back
  sequence number, payload, timestamp, marker and header extensions; padding goes.
\<close>

theorem Rtx_roundtrip:
  assumes ok: "packet_ok p" and room: "pk_payload p + pk_payloadLength p + 2 \<le> length (pk_mem p)"
  shows "\<exists>q r original. RtxEncode rtxType rtxSsrc rtxSeq p = Some q \<and> packet_ok q \<and>
    GetSequenceNumber p = Some original \<and> payload_bytes q = enc2 original @ payload_bytes p \<and>
    GetPayloadType q = Some (rtxType AND 0x7F) \<and> GetSsrc q = Some rtxSsrc \<and>
    GetSequenceNumber q = Some rtxSeq \<and>
    RtxDecode payloadType ssrc q = Some (True, r) \<and> packet_ok r \<and>
    GetPayloadType r = Some (payloadType AND 0x7F) \<and> GetSsrc r = Some ssrc \<and>
    GetSequenceNumber r = Some original \<and> payload_bytes r = payload_bytes p \<and>
    rtx_view r = rtx_view p \<and> pk_payloadPadding r = 0"
proof -
  obtain original where orig: "GetSequenceNumber p = Some original"
    using packet_ok_sequence_number [OF ok] by blast
  obtain q where q: "RtxEncode rtxType rtxSsrc rtxSeq p = Some q" "packet_ok q"
    "payload_bytes q = enc2 original @ payload_bytes p" "GetPayloadType q = Some (rtxType AND 0x7F)"
    "GetSsrc q = Some rtxSsrc" "GetSequenceNumber q = Some rtxSeq" "rtx_view q = rtx_view p"
    using RtxEncode_result [OF ok room orig] by blast
  with RtxDecode_result [OF q(2,3), of payloadType ssrc] orig show ?thesis by auto
qed

theorem Rtx_roundtrip_witness:
  "\<exists>q r original. RtxEncode 97 77 1 example_parsed_packet = Some q \<and> packet_ok q \<and>
    GetSequenceNumber example_parsed_packet = Some original \<and>
    payload_bytes q = enc2 original @ payload_bytes example_parsed_packet \<and>
    GetPayloadType q = Some (97 AND 0x7F) \<and> GetSsrc q = Some 77 \<and> GetSequenceNumber q = Some 1 \<and>
    RtxDecode 96 7 q = Some (True, r) \<and> packet_ok r \<and>
    GetPayloadType r = Some (96 AND 0x7F) \<and> GetSsrc r = Some 7 \<and>
    GetSequenceNumber r = Some original \<and> payload_bytes r = payload_bytes example_parsed_packet \<and>
    rtx_view r = rtx_view example_parsed_packet \<and> pk_payloadPadding r = 0"
  by (rule Rtx_roundtrip [OF example_parsed_ok]) code_simp

text \<open>
  C16: Replacing the header extensions: the packet then has exactly the extensions it was given (the
  last one of each id that the format can hold), each with its value, and keeps payload, padding and
  the fixed header; the result satisfies the invariant. It needs memory behind the packet and a move
  of the payload by less than 32768 bytes.
\<close>

theorem SetExtensions_replaces:
  assumes "packet_ok p" and "can_set ty es p"
  shows "\<exists>q. SetExtensions ty es p = Some q \<and> packet_ok q \<and>
    (\<forall>i. i \<noteq> 0 \<longrightarrow> extension_value q i = Some (case last_extension ty es i of
        None \<Rightarrow> None
      | Some e \<Rightarrow> if ge_len e = 0 then None else Some (take (unat (ge_len e)) (ge_value e)))) \<and>
    payload_bytes q = payload_bytes p \<and> pk_payloadPadding q = pk_payloadPadding p \<and>
    (\<forall>j. 0 < j \<and> j < csrc_end (pk_mem p) \<longrightarrow> pk_mem q ! j = pk_mem p ! j)"
proof -
  obtain q where "SetExtensions ty es p = Some q" "packet_ok q" "payload_bytes q = payload_bytes p"
    "pk_payloadPadding q = pk_payloadPadding p" "holds_exactly ty es q"
    "\<forall>j. 0 < j \<and> j < csrc_end (pk_mem p) \<longrightarrow> pk_mem q ! j = pk_mem p ! j"
    using SetExtensions_ok [OF assms] by blast
  moreover have "ty = 1 \<or> ty = 2" using assms(2) by (simp add: can_set_def)
  ultimately show ?thesis using extension_value_holds [of q ty es] by blast
qed

theorem SetExtensions_replaces_witness:
  "\<exists>q. SetExtensions 1 example_extensions example_parsed_packet = Some q \<and> packet_ok q \<and>
    extension_value q 1 = Some (Some [1, 2, 3, 4, 5, 6, 7, 8]) \<and> extension_value q 3 = Some None \<and>
    extension_value q 15 = Some None \<and> payload_bytes q = payload_bytes example_parsed_packet"
proof -
  have e: "last_extension 1 example_extensions 1 = Some (example_extensions ! 0)"
    "last_extension 1 example_extensions 3 = None" "last_extension 1 example_extensions 15 = None"
    by code_simp+
  have "pk_payload example_parsed_packet = 28" "pk_payloadLength example_parsed_packet = 7"
    "pk_payloadPadding example_parsed_packet = 3" "csrc_end (pk_mem example_parsed_packet) = 16"
    "length (pk_mem example_parsed_packet) = 64" "total_size 1 example_extensions = 13"
    by code_simp+
  moreover have "values_ok 1 example_extensions" by code_simp
  ultimately have "can_set 1 example_extensions example_parsed_packet" by (simp add: can_set_def payload_after_def)
  from SetExtensions_replaces [OF example_parsed_ok this] obtain q where q:
    "SetExtensions 1 example_extensions example_parsed_packet = Some q" "packet_ok q"
    "payload_bytes q = payload_bytes example_parsed_packet"
    and v: "\<And>i. i \<noteq> 0 \<Longrightarrow> extension_value q i = Some (case last_extension 1 example_extensions i of
        None \<Rightarrow> None
      | Some e \<Rightarrow> if ge_len e = 0 then None else Some (take (unat (ge_len e)) (ge_value e)))" by blast
  from v [of 1] v [of 3] v [of 15] e q show ?thesis by (auto simp: example_extensions_def)
qed

text \<open>
  C24: The clone that is kept for retransmission is a packet of its own with the same content:
  whatever the new buffer of 1600 bytes contained, the clone of a packet that is not larger
  (\<^verbatim>\<open>RtpStreamSend::StorePacket\<close> only stores packets of at most \<^verbatim>\<open>MtuSize\<close> bytes) satisfies the
  invariant, has the same sizes, positions, extension ids and handler, and its header, CSRCs, header
  extension and payload are equal byte by byte. Of the padding only the last byte, which is the
  length of the padding, is equal; the padding bytes before it are not copied but what the
  new buffer contained.
\<close>

theorem Clone_same_bytes:
  assumes "packet_ok p" and "pk_size p \<le> MtuSize + 100"
  shows "\<exists>q. Clone fresh p = Some q \<and> packet_ok q \<and> length (pk_mem q) = MtuSize + 100 \<and>
    pk_size q = pk_size p \<and> pk_payload q = pk_payload p \<and> pk_payloadLength q = pk_payloadLength p \<and>
    pk_payloadPadding q = pk_payloadPadding p \<and> pk_headerExtension q = pk_headerExtension p \<and> keep_ids p q = q \<and>
    (\<forall>j < pk_payload p + pk_payloadLength p. pk_mem q ! j = pk_mem p ! j) \<and>
    (pk_payloadPadding p \<noteq> 0 \<longrightarrow> pk_mem q ! (pk_size p - 1) = pk_mem p ! (pk_size p - 1)) \<and>
    (\<forall>j. pk_payload p + pk_payloadLength p \<le> j \<and> j + 1 < pk_size p \<longrightarrow> pk_mem q ! j = fresh j)"
proof -
  from Clone_ok [OF assms, of fresh] obtain q where q: "Clone fresh p = Some q" "packet_ok q"
    "length (pk_mem q) = MtuSize + 100" "pk_size q = pk_size p" "pk_payload q = pk_payload p"
    "pk_payloadLength q = pk_payloadLength p" "pk_payloadPadding q = pk_payloadPadding p"
    "pk_headerExtension q = pk_headerExtension p" "keep_ids p q = q"
    "\<forall>j < pk_payload p + pk_payloadLength p. pk_mem q ! j = pk_mem p ! j"
    "\<forall>j. pk_payload p + pk_payloadLength p \<le> j \<and> j + 1 < pk_size p \<longrightarrow> pk_mem q ! j = fresh j" by blast
  have last: "packet_ok r \<Longrightarrow> pk_payloadPadding r \<noteq> 0 \<Longrightarrow> pk_mem r ! (pk_size r - 1) = pk_payloadPadding r"
    for r :: "'a packet"
    unfolding packet_ok_def tail_ok_def by blast
  have "pk_payloadPadding p \<noteq> 0 \<longrightarrow> pk_mem q ! (pk_size p - 1) = pk_mem p ! (pk_size p - 1)"
    using last [OF q(2), unfolded q(4,7)] last [OF assms(1)] by simp
  with q show ?thesis by (intro exI [of _ q] conjI)
qed

theorem Clone_same_bytes_witness:
  "\<exists>q. Clone (\<lambda>j. 0xFF) example_parsed_packet = Some q \<and> packet_ok q \<and>
    pk_size q = pk_size example_parsed_packet \<and> pk_mem q ! 36 = 0xFF \<and> pk_mem example_parsed_packet ! 36 = 0"
proof -
  have e: "pk_size example_parsed_packet = 38" "pk_payload example_parsed_packet = 28"
    "pk_payloadLength example_parsed_packet = 7" "pk_mem example_parsed_packet ! 36 = 0" by code_simp+
  then have "pk_size example_parsed_packet \<le> MtuSize + 100" by (simp add: MtuSize_def)
  from Clone_same_bytes [OF example_parsed_ok this, of "\<lambda>j. 0xFF"] e show ?thesis by fastforce
qed

end
