(* ===== verification/RtpSequence.thy ===== *)
theory RtpSequence
  imports RtpTypes StateMachine
begin

unbundle bit_operations_syntax

text \<open>
  The sequence number bookkeeping of RFC 3550, appendix A.1, that \<^verbatim>\<open>RTC::RtpStream\<close> and
  \<^verbatim>\<open>RTC::RtxStream\<close> both contain (\<^verbatim>\<open>worker/src/RTC/RtpStream.cpp\<close>, \<^verbatim>\<open>worker/src/RTC/RtxStream.cpp\<close>, the
  same code twice). The members it uses are the record \<open>seq_tracker\<close>, which the records of both
  classes extend. \<^verbatim>\<open>DepLibUV::GetTimeMs()\<close> is the argument \<open>nowMs\<close>.

  The theory relates the wrapping members to the unbounded sequence number of the sender: as long
  as the numbers stay near the highest one, the stream accepts every packet and counts the
  expected packets exactly, up to one cycle that it adds when the first number is zero.
\<close>

section \<open>Definitions\<close>

definition MaxDropout :: u16 where "MaxDropout = 3000"
definition MaxMisorder :: u16 where "MaxMisorder = 1500"
definition RtpSeqMod :: u32 where "RtpSeqMod = 65536"

record seq_tracker =
  maxSeq :: u16
  cycles :: u32
  baseSeq :: u32
  badSeq :: u32
  maxPacketTs :: u32
  maxPacketMs :: u64
  packetsDiscarded :: u64
  started :: bool

definition seq_tracker_new :: seq_tracker where
  "seq_tracker_new = \<lparr>maxSeq = 0, cycles = 0, baseSeq = 0, badSeq = 0, maxPacketTs = 0,
     maxPacketMs = 0, packetsDiscarded = 0, started = False\<rparr>"

definition InitSeq :: "u16 \<Rightarrow> 's seq_tracker_scheme \<Rightarrow> 's seq_tracker_scheme" where
  "InitSeq seq s = s\<lparr>baseSeq := ucast seq, maxSeq := seq, badSeq := RtpSeqMod + 1\<rparr>"

definition GetExpectedPackets :: "'s seq_tracker_scheme \<Rightarrow> u32" where
  "GetExpectedPackets s = (cycles s + ucast (maxSeq s)) - baseSeq s + 1"

text \<open>
  What \<^verbatim>\<open>UpdateSeq\<close> did with a packet: it returns \<^verbatim>\<open>false\<close> for \<open>Discarded\<close>, and for \<open>Resynced\<close>
  the subclass is told through \<^verbatim>\<open>UserOnSequenceNumberReset\<close>.
\<close>

datatype seq_outcome = Accepted | Resynced | Discarded

definition UpdateSeq ::
  "'p rtp_packet_scheme \<Rightarrow> u64 \<Rightarrow> 's seq_tracker_scheme \<Rightarrow> seq_outcome \<times> 's seq_tracker_scheme" where
  "UpdateSeq packet nowMs s =
     (let seq = rp_sequenceNumber packet; udelta = seq - maxSeq s in
      if udelta < MaxDropout
      then
        let s = (if seq < maxSeq s then s\<lparr>cycles := cycles s + RtpSeqMod\<rparr> else s)
        in (Accepted, s\<lparr>maxSeq := seq\<rparr>)
      else if (ucast udelta :: u32) \<le> RtpSeqMod - ucast MaxMisorder
      then
        if ucast seq = badSeq s
        then (Resynced, (InitSeq seq s)\<lparr>maxPacketTs := rp_timestamp packet, maxPacketMs := nowMs\<rparr>)
        else (Discarded, s\<lparr>badSeq := (ucast seq + 1) AND (RtpSeqMod - 1),
                           packetsDiscarded := packetsDiscarded s + 1\<rparr>)
      else (Accepted, s))"

text \<open>The common part of \<^verbatim>\<open>RtpStream::ReceiveStreamPacket\<close> and \<^verbatim>\<open>RtxStream::ReceivePacket\<close>.\<close>

definition ReceiveStreamPacket ::
  "'p rtp_packet_scheme \<Rightarrow> u64 \<Rightarrow> 's seq_tracker_scheme \<Rightarrow> seq_outcome \<times> 's seq_tracker_scheme" where
  "ReceiveStreamPacket packet nowMs s =
     (let seq = rp_sequenceNumber packet;
          s = (if \<not> started s
               then (InitSeq seq s)\<lparr>started := True, maxSeq := seq - 1,
                      maxPacketTs := rp_timestamp packet, maxPacketMs := nowMs\<rparr>
               else s);
          (outcome, s) = UpdateSeq packet nowMs s
      in if outcome = Discarded then (Discarded, s)
         else if SeqHigherThan 0 (rp_timestamp packet) (maxPacketTs s)
         then (outcome, s\<lparr>maxPacketTs := rp_timestamp packet, maxPacketMs := nowMs\<rparr>)
         else (outcome, s))"

section \<open>Extended sequence numbers\<close>

text \<open>
  \<open>tracks b m k s\<close>: the sender's first number was \<open>b\<close>, its highest one so far is \<open>m\<close>, both
  unbounded, and the counters of the stream are ahead of them by \<open>k\<close>.
\<close>

definition tracks :: "int \<Rightarrow> int \<Rightarrow> int \<Rightarrow> 's seq_tracker_scheme \<Rightarrow> bool" where
  "tracks b m k s \<longleftrightarrow> started s \<and> maxSeq s = word_of_int m \<and>
     cycles s + ucast (maxSeq s) = word_of_int (m + k) \<and> baseSeq s = word_of_int b"

lemma tracks_expected:
  assumes "tracks b m k s"
  shows "GetExpectedPackets s = word_of_int (m - b + 1 + k)"
proof -
  from assms have c: "cycles s + ucast (maxSeq s) = word_of_int (m + k)" and b: "baseSeq s = word_of_int b"
    unfolding tracks_def by blast+
  show ?thesis unfolding GetExpectedPackets_def c b by simp
qed

lemma tracks_timestamp [simp]:
  "tracks b m k (s\<lparr>maxPacketTs := x, maxPacketMs := y\<rparr>) = tracks b m k s"
  by (simp add: tracks_def)

text \<open>Numbers that stay within the windows of the stream, seen from the highest number so far.\<close>

fun near :: "int \<Rightarrow> int list \<Rightarrow> bool" where
  "near m [] = True"
| "near m (e # es) = (m - 1500 < e \<and> e < m + 3000 \<and> near (max m e) es)"

lemma seq_step:
  fixes m e :: int
  assumes "m \<le> e" and "e < m + 65536"
  shows "e mod 65536 = m mod 65536 + (e - m) - (if e mod 65536 < m mod 65536 then 65536 else 0)"
proof -
  let ?r = "m mod 65536 + (e - m)"
  have "e mod 65536 = ?r mod 65536" by (simp add: mod_add_left_eq)
  also have "\<dots> = (if ?r < 65536 then ?r else ?r - 65536)"
  proof (cases "?r < 65536")
    case True
    with assms(1) show ?thesis by (simp add: mod_pos_pos_trivial)
  next
    case False
    have "?r mod 65536 = (?r - 65536) mod 65536" by simp
    also have "\<dots> = ?r - 65536"
      using False assms(2) pos_mod_bound [of 65536 m] by (intro mod_pos_pos_trivial) auto
    finally show ?thesis using False by simp
  qed
  finally show ?thesis using assms pos_mod_bound [of 65536 e] pos_mod_bound [of 65536 m] by auto
qed

lemma ucast_word_of_int_16: "(ucast (word_of_int m :: u16) :: u32) = word_of_int (m mod 65536)"
  by (simp add: ucast_eq uint_word_of_int)

lemma word_of_int_less_16: "(word_of_int e :: u16) < word_of_int m \<longleftrightarrow> e mod 65536 < m mod 65536"
  by (simp add: word_less_def uint_word_of_int)

lemma forward_distance:
  "m \<le> e \<Longrightarrow> e < m + 65536 \<Longrightarrow> uint (word_of_int e - word_of_int m :: u16) = e - m"
  unfolding wi_hom_sub uint_word_of_int by simp

lemma backward_distance:
  "e < m \<Longrightarrow> m < e + 65536 \<Longrightarrow> uint (word_of_int e - word_of_int m :: u16) = 65536 + e - m"
proof -
  assume "e < m" and "m < e + 65536"
  then have "uint (word_of_int (e + 65536) - word_of_int m :: u16) = e + 65536 - m"
    by (intro forward_distance) auto
  moreover have "(word_of_int (e + 65536) :: u16) = word_of_int e" by simp
  ultimately show ?thesis by (simp only:)
qed

text \<open>A number near the highest one is accepted, and the counters follow the sender's.\<close>

definition follows :: "int \<Rightarrow> int \<Rightarrow> int \<Rightarrow> 's seq_tracker_scheme \<Rightarrow> seq_outcome \<times> 's seq_tracker_scheme \<Rightarrow> bool" where
  "follows b m k s r \<longleftrightarrow> fst r = Accepted \<and> tracks b m k (snd r) \<and>
     packetsDiscarded (snd r) = packetsDiscarded s"

lemma UpdateSeq_near:
  assumes t: "tracks b m k s" and seq: "rp_sequenceNumber packet = word_of_int e"
    and e: "m - 1500 < e" "e < m + 3000"
  shows "follows b (max m e) k s (UpdateSeq packet nowMs s)"
proof (cases "m \<le> e")
  case True
  let ?w = "if e mod 65536 < m mod 65536 then 65536 else 0 :: int"
  from t have mx: "maxSeq s = word_of_int m" by (simp add: tracks_def)
  have "word_of_int e - maxSeq s < MaxDropout"
    using True e(2) forward_distance [of m e] by (simp add: mx word_less_def MaxDropout_def)
  then have r: "UpdateSeq packet nowMs s = (Accepted, s\<lparr>cycles := cycles s + word_of_int ?w, maxSeq := word_of_int e\<rparr>)"
    by (simp add: UpdateSeq_def seq Let_def mx word_of_int_less_16 RtpSeqMod_def)
  from t have "cycles s + word_of_int (m mod 65536) = word_of_int (m + k)"
    by (simp only: tracks_def mx ucast_word_of_int_16)
  then have "cycles s = word_of_int (m + k - m mod 65536)" by (simp add: eq_diff_eq)
  then have "cycles s + word_of_int ?w + word_of_int (e mod 65536) =
      word_of_int (m + k - m mod 65536 + ?w + e mod 65536)" by (simp only: wi_hom_add)
  also have "m + k - m mod 65536 + ?w + e mod 65536 = e + k"
    using seq_step [of m e] True e(2) by auto
  finally have "cycles s + word_of_int ?w + ucast (word_of_int e :: u16) = word_of_int (e + k)"
    by (simp only: ucast_word_of_int_16)
  with t True show ?thesis unfolding r follows_def tracks_def by simp
next
  case False
  from t have mx: "maxSeq s = word_of_int m" by (simp add: tracks_def)
  let ?u = "word_of_int e - word_of_int m :: u16"
  from False e(1) have u: "uint ?u = 65536 + e - m" by (intro backward_distance) auto
  moreover have "uint (ucast ?u :: u32) = uint ?u" by (rule uint_up_ucast) (simp add: is_up)
  ultimately have "\<not> ?u < MaxDropout" "\<not> (ucast ?u :: u32) \<le> RtpSeqMod - ucast MaxMisorder"
    using e(1) by (simp_all add: word_less_def word_le_def MaxDropout_def MaxMisorder_def RtpSeqMod_def)
  then have "UpdateSeq packet nowMs s = (Accepted, s)"
    by (simp add: UpdateSeq_def seq mx Let_def)
  with t False show ?thesis by (simp add: follows_def max_def)
qed

lemma ReceiveStreamPacket_near:
  assumes t: "tracks b m k s" and seq: "rp_sequenceNumber packet = word_of_int e"
    and e: "m - 1500 < e" "e < m + 3000"
  shows "follows b (max m e) k s (ReceiveStreamPacket packet nowMs s)"
proof -
  from t have "started s" by (simp add: tracks_def)
  with UpdateSeq_near [OF assms, of nowMs] show ?thesis
    by (cases "UpdateSeq packet nowMs s") (simp add: ReceiveStreamPacket_def follows_def)
qed

text \<open>The cycle that the counters are ahead by after a first packet.\<close>

definition first_cycle :: "int \<Rightarrow> int" where
  "first_cycle b = (if b = 0 then 65536 else 0)"

lemma ReceiveStreamPacket_first:
  assumes s: "\<not> started s" "cycles s = 0" and b: "0 \<le> b" "b < 65536"
    and seq: "rp_sequenceNumber packet = word_of_int b"
  shows "follows b b (first_cycle b) s (ReceiveStreamPacket packet nowMs s)"
proof -
  let ?seq = "rp_sequenceNumber packet"
  let ?s = "(InitSeq ?seq s)\<lparr>started := True, maxSeq := ?seq - 1,
     maxPacketTs := rp_timestamp packet, maxPacketMs := nowMs\<rparr>"
  have "(word_of_int b - 1 :: u16) = word_of_int (b - 1)" by simp
  moreover have "(ucast (word_of_int (b - 1) :: u16) :: u32) = word_of_int (b - 1 + first_cycle b)"
    using b unfolding ucast_word_of_int_16 first_cycle_def
    by (cases "b = 0") (simp_all only: mod_pos_pos_trivial, simp_all)
  moreover have "(ucast (word_of_int b :: u16) :: u32) = word_of_int b"
    using b by (simp add: ucast_word_of_int_16)
  ultimately have t: "tracks b (b - 1) (first_cycle b) ?s"
    unfolding tracks_def using s by (simp add: InitSeq_def seq)
  have "ReceiveStreamPacket packet nowMs s = ReceiveStreamPacket packet nowMs ?s"
    using s by (simp add: ReceiveStreamPacket_def Let_def)
  with ReceiveStreamPacket_near [OF t seq, of nowMs] show ?thesis
    by (simp add: follows_def InitSeq_def)
qed

text \<open>A stream that receives packets one after the other.\<close>

fun stream_step :: "'s seq_tracker_scheme \<Rightarrow> 'p rtp_packet_scheme \<times> u64
    \<Rightarrow> ('s seq_tracker_scheme \<times> seq_outcome list) option" where
  "stream_step s (packet, nowMs) =
     (let (outcome, s') = ReceiveStreamPacket packet nowMs s in Some (s', [outcome]))"

lemma stream_step_follows:
  assumes "follows b m k s (ReceiveStreamPacket packet nowMs s)"
  shows "\<exists>s'. stream_step s (packet, nowMs) = Some (s', [Accepted]) \<and> tracks b m k s' \<and>
    packetsDiscarded s' = packetsDiscarded s"
  using assms by (cases "ReceiveStreamPacket packet nowMs s") (auto simp: follows_def)

lemma run_near:
  assumes "tracks b m k s" and "near m es" and "map (\<lambda>p. rp_sequenceNumber (fst p)) ps = map word_of_int es"
  shows "\<exists>s'. run_steps stream_step s ps = Some (s', replicate (length ps) Accepted) \<and>
    tracks b (Max (set (m # es))) k s' \<and> packetsDiscarded s' = packetsDiscarded s"
  using assms
proof (induction es arbitrary: m s ps)
  case Nil
  then show ?case by simp
next
  case (Cons e es)
  from Cons.prems(3) obtain packet nowMs qs where ps: "ps = (packet, nowMs) # qs"
    "rp_sequenceNumber packet = word_of_int e" "map (\<lambda>p. rp_sequenceNumber (fst p)) qs = map word_of_int es"
    by auto
  from Cons.prems(2) have e: "m - 1500 < e" "e < m + 3000" "near (max m e) es" by auto
  obtain s1 where s1: "stream_step s (packet, nowMs) = Some (s1, [Accepted])" "tracks b (max m e) k s1"
    "packetsDiscarded s1 = packetsDiscarded s"
    using stream_step_follows [OF ReceiveStreamPacket_near [OF Cons.prems(1) ps(2) e(1,2)]] by blast
  have "Max (set (max m e # es)) = Max (set (m # e # es))"
    by (cases "es = []") (simp_all add: max.assoc)
  with Cons.IH [OF s1(2) e(3) ps(3)] s1 show ?case by (auto simp: ps(1))
qed

lemma run_from_start:
  assumes b: "0 \<le> b" "b < 65536" and near: "near b es"
    and ps: "map (\<lambda>p. rp_sequenceNumber (fst p)) ps = map word_of_int (b # es)"
  shows "\<exists>s. run_steps stream_step seq_tracker_new ps = Some (s, replicate (length ps) Accepted) \<and>
    tracks b (Max (set (b # es))) (first_cycle b) s \<and> packetsDiscarded s = 0"
proof -
  from ps obtain packet nowMs qs where q: "ps = (packet, nowMs) # qs"
    "rp_sequenceNumber packet = word_of_int b" "map (\<lambda>p. rp_sequenceNumber (fst p)) qs = map word_of_int es"
    by auto
  have "\<not> started seq_tracker_new" "cycles seq_tracker_new = 0" by (simp_all add: seq_tracker_new_def)
  from stream_step_follows [OF ReceiveStreamPacket_first [OF this b q(2)]]
  obtain s1 where s1: "stream_step seq_tracker_new (packet, nowMs) = Some (s1, [Accepted])"
    "tracks b b (first_cycle b) s1" "packetsDiscarded s1 = 0" by (auto simp: seq_tracker_new_def)
  with run_near [OF s1(2) near q(3)] show ?thesis by (auto simp: q(1))
qed

section \<open>Re-synchronisation\<close>

definition far :: "u16 \<Rightarrow> 's seq_tracker_scheme \<Rightarrow> bool" where
  "far x s \<longleftrightarrow> MaxDropout \<le> x - maxSeq s \<and> (ucast (x - maxSeq s) :: u32) \<le> RtpSeqMod - ucast MaxMisorder"

lemma bad_seq_next: "(ucast x + 1) AND (RtpSeqMod - 1) = (ucast (x + 1 :: u16) :: u32)"
proof -
  have m: "RtpSeqMod - 1 = mask 16" by (simp add: RtpSeqMod_def mask_eq_exp_minus_1)
  have "unat (ucast x :: u32) = unat x" by (simp add: unsigned_ucast_eq take_bit_nat_eq_self_iff less_trans [OF unsigned_less])
  moreover have "unat x < 65536" using unsigned_less [of x] by simp
  ultimately have "unat (ucast x + 1 :: u32) = unat x + 1" by (simp add: unat_add_wrap)
  then show ?thesis
    unfolding m word_unat_eq_iff unat_and_mask_word
    by (simp add: unat_add_wrap unsigned_ucast_eq take_bit_eq_mod)
qed

lemma UpdateSeq_far:
  assumes "far (rp_sequenceNumber packet) s"
  shows "UpdateSeq packet nowMs s =
    (if ucast (rp_sequenceNumber packet) = badSeq s
     then (Resynced, (InitSeq (rp_sequenceNumber packet) s)\<lparr>maxPacketTs := rp_timestamp packet, maxPacketMs := nowMs\<rparr>)
     else (Discarded, s\<lparr>badSeq := ucast (rp_sequenceNumber packet + 1),
                        packetsDiscarded := packetsDiscarded s + 1\<rparr>))"
  using assms by (simp add: far_def UpdateSeq_def Let_def bad_seq_next not_less)

section \<open>Properties\<close>

text \<open>
  C17: The expected packets of a stream. Let a sender's sequence numbers, counted without
  wrapping, start at \<open>b\<close> and stay near the highest number sent so far (less than 1500 below it, less
  than 3000 above it), in any order and with any losses and repetitions. Then a fresh stream
  accepts every packet, discards none, and reports as its extended highest sequence number and its
  expected packets the true ones modulo \<open>2 ^ 32\<close>, plus one whole cycle if the first number is zero:
  the first packet sets the highest number to \<open>seq - 1\<close>, so that it wraps at once.
\<close>

theorem RtpStream_expected_packets:
  assumes "0 \<le> b" and "b < 65536" and "near b es"
    and "map (\<lambda>p. rp_sequenceNumber (fst p)) ps = map word_of_int (b # es)"
  shows "\<exists>s. run_steps stream_step seq_tracker_new ps = Some (s, replicate (length ps) Accepted) \<and>
    packetsDiscarded s = 0 \<and>
    cycles s + ucast (maxSeq s) = word_of_int (Max (set (b # es)) + (if b = 0 then 65536 else 0)) \<and>
    GetExpectedPackets s = word_of_int (Max (set (b # es)) - b + 1 + (if b = 0 then 65536 else 0))"
proof -
  obtain s where s: "run_steps stream_step seq_tracker_new ps = Some (s, replicate (length ps) Accepted)"
    "tracks b (Max (set (b # es))) (first_cycle b) s" "packetsDiscarded s = 0"
    using run_from_start [OF assms] by blast
  from s(2) have "cycles s + ucast (maxSeq s) = word_of_int (Max (set (b # es)) + first_cycle b)"
    unfolding tracks_def by blast
  with s(1,3) tracks_expected [OF s(2)] show ?thesis unfolding first_cycle_def by blast
qed

definition numbered :: "u16 \<Rightarrow> rtp_packet" where
  "numbered seq = \<lparr>rp_ssrc = 1, rp_sequenceNumber = seq, rp_timestamp = 0, rp_payloadType = 100,
     rp_size = 100, rp_isKeyFrame = False, rp_mid = None, rp_rid = None\<rparr>"

theorem RtpStream_expected_packets_witness:
  "(\<exists>s. run_steps stream_step seq_tracker_new
      [(numbered 65534, 0), (numbered 1, 0), (numbered 65535, 0)] = Some (s, replicate 3 Accepted) \<and>
    GetExpectedPackets s = 4) \<and>
   (\<exists>s. run_steps stream_step seq_tracker_new [(numbered 0, 0)] = Some (s, [Accepted]) \<and>
    GetExpectedPackets s = 65537)"
proof -
  have "word_of_int 65537 = (1 :: u16)" by simp
  then show ?thesis
    using RtpStream_expected_packets [of 65534 "[65537, 65535]"
        "[(numbered 65534, 0), (numbered 1, 0), (numbered 65535, 0)]"]
      RtpStream_expected_packets [of 0 "[]" "[(numbered 0, 0)]"]
    by (auto simp: numbered_def numeral_3_eq_3)
qed

text \<open>
  C37: Re-synchronisation. A number far from the highest one is discarded; if the next
  packet carries the number after it, the stream starts over from that number. Only the base
  and the highest number are reset: the cycles counted so far stay, so the stream expects one
  packet more than all of them.
\<close>

theorem RtpStream_resync:
  assumes "started s" and "far (rp_sequenceNumber p) s" and "ucast (rp_sequenceNumber p) \<noteq> badSeq s"
    and "far (rp_sequenceNumber q) s" and "rp_sequenceNumber q = rp_sequenceNumber p + 1"
  shows "\<exists>s'. run_steps stream_step s [(p, t), (q, u)] = Some (s', [Discarded, Resynced]) \<and>
    maxSeq s' = rp_sequenceNumber q \<and> baseSeq s' = ucast (rp_sequenceNumber q) \<and>
    packetsDiscarded s' = packetsDiscarded s + 1 \<and> maxPacketTs s' = rp_timestamp q \<and> maxPacketMs s' = u \<and>
    cycles s' = cycles s \<and> GetExpectedPackets s' = cycles s + 1"
proof -
  let ?s = "s\<lparr>badSeq := ucast (rp_sequenceNumber p + 1), packetsDiscarded := packetsDiscarded s + 1\<rparr>"
  have "UpdateSeq p t s = (Discarded, ?s)" using UpdateSeq_far [OF assms(2)] assms(3) by simp
  moreover have "far (rp_sequenceNumber q) ?s" using assms(4) by (simp add: far_def)
  from UpdateSeq_far [OF this] have "UpdateSeq q u ?s = (Resynced, (InitSeq (rp_sequenceNumber q) ?s)
      \<lparr>maxPacketTs := rp_timestamp q, maxPacketMs := u\<rparr>)" using assms(5) by simp
  ultimately show ?thesis using assms(1)
    by (simp add: ReceiveStreamPacket_def Let_def InitSeq_def GetExpectedPackets_def)
qed

definition wrapped_stream :: seq_tracker where
  "wrapped_stream = seq_tracker_new\<lparr>started := True, maxSeq := 5, cycles := 65536\<rparr>"

theorem RtpStream_resync_witness:
  "\<exists>s'. run_steps stream_step wrapped_stream [(numbered 20000, 0), (numbered 20001, 0)]
      = Some (s', [Discarded, Resynced]) \<and> GetExpectedPackets s' = 65537"
proof -
  have "started wrapped_stream" "far 20000 wrapped_stream" "far 20001 wrapped_stream"
    "ucast (20000 :: u16) \<noteq> badSeq wrapped_stream" "cycles wrapped_stream = 65536"
    by (simp_all add: wrapped_stream_def seq_tracker_new_def far_def MaxDropout_def MaxMisorder_def RtpSeqMod_def)
  then show ?thesis
    using RtpStream_resync [of wrapped_stream "numbered 20000" "numbered 20001" 0 0]
    by (auto simp: numbered_def)
qed

end
