(* ===== verification/RtxStream.thy ===== *)
theory RtxStream
  imports RtpSequence "HOL-Library.Monad_Syntax"
begin

unbundle bit_operations_syntax

text \<open>
  \<^verbatim>\<open>RTC::RtxStream\<close> (\<^verbatim>\<open>worker/src/RTC/RtxStream.cpp\<close>): the stream of retransmitted packets of a
  media stream, and the fields of an \<^verbatim>\<open>RTC::RTCP::ReceiverReport\<close> that it fills
  (\<^verbatim>\<open>worker/include/RTC/RTCP/ReceiverReport.hpp\<close>). The JSON output of the class is not modelled.

  A conversion or shift whose result does not fit the target type is undefined in the language and
  is \<open>None\<close> here. The quotients that the code rounds in double precision are exact enough for
  the rounding to be that of the true quotient: it differs from a half by more than the error of
  the division.
\<close>

section \<open>Definitions\<close>

subsection \<open>Receiver reports\<close>

record receiver_report =
  rr_ssrc :: u32
  rr_fractionLost :: u8
  rr_totalLost :: u32
  rr_lastSeq :: u32
  rr_jitter :: u32
  rr_lsr :: u32
  rr_dlsr :: u32

text \<open>
  The 24-bit field of the cumulative number of packets lost. The argument is the 32-bit value
  the callers pass, read as signed; the negation of the least one overflows.
\<close>

definition SetTotalLost :: "u32 \<Rightarrow> u32 option" where
  "SetTotalLost totalLost =
     (let t = sint totalLost in
      if t = - (2 ^ 31) then None
      else
        let clamp = (if t \<ge> 0 then if t > 0x07FFFFF then 0x07FFFFF else t
                     else if - t > 0x0800000 then 0x0800000 else - t)
        in Some (if t \<ge> 0 then word_of_int clamp AND 0x07FFFFF else word_of_int clamp OR 0x0800000))"

definition GetTotalLost :: "u32 \<Rightarrow> int" where
  "GetTotalLost value =
     (if drop_bit 23 value AND 1 = 0 then sint value
      else
        let value = (if value \<noteq> 0x0800000 then value AND NOT (push_bit 23 1) else value)
        in sint (- value))"

text \<open>\<^verbatim>\<open>fractionLost\<close> of an interval, rounded half up.\<close>

definition lost_fraction :: "u32 \<Rightarrow> u32 \<Rightarrow> u8 option" where
  "lost_fraction expectedInterval receivedInterval =
     (let lostInterval = sint (expectedInterval - receivedInterval); e = uint expectedInterval in
      if expectedInterval = 0 \<or> lostInterval \<le> 0 then Some 0
      else if lostInterval * 256 \<ge> 2 ^ 31 then None
      else
        let fraction = (2 * (lostInterval * 256) + e) div (2 * e)
        in if fraction < 256 then Some (word_of_int fraction) else None)"

text \<open>A delay in milliseconds, in units of 1/65536 seconds.\<close>

definition compact_delay :: "u32 \<Rightarrow> u32" where
  "compact_delay delayMs = push_bit 16 (delayMs div 1000) OR (delayMs mod 1000 * 65536 div 1000)"

text \<open>The middle 32 bits of an NTP timestamp.\<close>

definition compact_ntp :: "u32 \<Rightarrow> u32 \<Rightarrow> u32" where
  "compact_ntp sec frac = push_bit 16 sec + drop_bit 16 frac"

subsection \<open>The stream\<close>

datatype mime_kind = UNSET | AUDIO | VIDEO

datatype mime_subtype =
    UNSET_subtype | OPUS | MULTIOPUS | PCMA | PCMU | ISAC | G722 | ILBC | SILK
  | VP8 | VP9 | H264 | H264_SVC | X_H264UC | H265 | CN | TELEPHONE_EVENT
  | RTX | ULPFEC | X_ULPFECUC | FLEXFEC | RED

record mime_type =
  mt_type :: mime_kind
  mt_subtype :: mime_subtype

record rtx_params =
  xp_ssrc :: u32
  xp_payloadType :: u8
  xp_mimeType :: mime_type
  xp_clockRate :: u32
  xp_rrid :: string
  xp_cname :: string

record rtx_stream = seq_tracker +
  rtx_params :: rtx_params
  rtx_packetsLost :: u32
  rtx_fractionLost :: u8
  rtx_packetsCount :: u64
  rtx_expectedPrior :: u32
  rtx_receivedPrior :: u32
  rtx_lastSrTimestamp :: u32
  rtx_lastSrReceived :: u64
  rtx_reportedPacketLost :: u32

definition RtxStream_new :: "rtx_params \<Rightarrow> rtx_stream option" where
  "RtxStream_new params =
     (if mt_subtype (xp_mimeType params) = RTX
      then Some (seq_tracker.extend seq_tracker_new
        \<lparr>rtx_params = params, rtx_packetsLost = 0, rtx_fractionLost = 0, rtx_packetsCount = 0,
         rtx_expectedPrior = 0, rtx_receivedPrior = 0, rtx_lastSrTimestamp = 0,
         rtx_lastSrReceived = 0, rtx_reportedPacketLost = 0\<rparr>)
      else None)"

definition RtxStream_ReceivePacket ::
  "'p rtp_packet_scheme \<Rightarrow> u64 \<Rightarrow> rtx_stream \<Rightarrow> bool \<times> rtx_stream" where
  "RtxStream_ReceivePacket packet nowMs s =
     (let (outcome, s) = ReceiveStreamPacket packet nowMs s
      in if outcome = Discarded then (False, s)
         else (True, s\<lparr>rtx_packetsCount := rtx_packetsCount s + 1\<rparr>))"

definition RtxStream_GetRtcpReceiverReport :: "u64 \<Rightarrow> rtx_stream \<Rightarrow> (receiver_report \<times> rtx_stream) option" where
  "RtxStream_GetRtcpReceiverReport nowMs s = do {
     let prevPacketsLost = rtx_packetsLost s;
     let expected = GetExpectedPackets s;
     let s = s\<lparr>rtx_packetsLost := (if ucast expected > rtx_packetsCount s
                                   then ucast (ucast expected - rtx_packetsCount s) else 0)\<rparr>;
     let expectedInterval = expected - rtx_expectedPrior s;
     let s = s\<lparr>rtx_expectedPrior := expected\<rparr>;
     let receivedInterval = (ucast (rtx_packetsCount s - ucast (rtx_receivedPrior s)) :: u32);
     let s = s\<lparr>rtx_receivedPrior := ucast (rtx_packetsCount s)\<rparr>;
     fraction \<leftarrow> lost_fraction expectedInterval receivedInterval;
     let s = s\<lparr>rtx_fractionLost := fraction,
               rtx_reportedPacketLost := rtx_reportedPacketLost s + (rtx_packetsLost s - prevPacketsLost)\<rparr>;
     totalLost \<leftarrow> SetTotalLost (rtx_reportedPacketLost s);
     Some (\<lparr>rr_ssrc = xp_ssrc (rtx_params s), rr_fractionLost = rtx_fractionLost s,
        rr_totalLost = totalLost, rr_lastSeq = ucast (maxSeq s) + cycles s, rr_jitter = 0,
        rr_lsr = (if rtx_lastSrReceived s \<noteq> 0 then rtx_lastSrTimestamp s else 0),
        rr_dlsr = (if rtx_lastSrReceived s \<noteq> 0
                   then compact_delay (ucast (nowMs - rtx_lastSrReceived s)) else 0)\<rparr>, s) }"

definition RtxStream_ReceiveRtcpSenderReport :: "u32 \<Rightarrow> u32 \<Rightarrow> u64 \<Rightarrow> rtx_stream \<Rightarrow> rtx_stream" where
  "RtxStream_ReceiveRtcpSenderReport ntpSec ntpFrac nowMs s =
     s\<lparr>rtx_lastSrReceived := nowMs, rtx_lastSrTimestamp := compact_ntp ntpSec ntpFrac\<rparr>"

section \<open>Fields of a receiver report\<close>

lemma sint_small:
  fixes w :: u32
  assumes "unat w < 2 ^ 31"
  shows "sint w = int (unat w)"
proof -
  have u: "uint w = int (unat w)" by simp
  have "int (unat w) < int (2 ^ 31)" using assms by (simp only: of_nat_less_iff)
  then have "int (unat w) < 2 ^ (LENGTH(32) - Suc 0)" by (simp only: of_nat_power of_nat_numeral) simp
  moreover have "- (2 ^ (LENGTH(32) - Suc 0)) \<le> int (unat w)" by (rule order_trans [of _ 0]) simp_all
  ultimately show ?thesis unfolding sint_uint u by (intro signed_take_bit_int_eq_self)
qed

lemma sint_minus_small:
  fixes w :: u32
  assumes "unat w < 2 ^ 31"
  shows "sint (- w) = - int (unat w)"
proof -
  have "int (unat w) < int (2 ^ 31)" using assms by (simp only: of_nat_less_iff)
  then have small: "int (unat w) < 2 ^ 31" by simp
  then have "- (2 ^ 31) \<le> - int (unat w)" "- int (unat w) < 2 ^ 31" by linarith+
  then have "signed_take_bit 31 (- int (unat w)) = - int (unat w)" by (intro signed_take_bit_int_eq_self)
  moreover have "sint w = int (unat w)" using assms by (rule sint_small)
  ultimately show ?thesis by (simp only: sint_word_ariths) simp
qed

lemma round_half_up_small:
  fixes l e :: nat
  assumes "0 < e"
  shows "(512 * l + e) div (2 * e) < 256 \<longleftrightarrow> 512 * l < 511 * e"
  using assms by (simp add: div_less_iff_less_mult)

lemma lost_fraction_exact:
  assumes r: "unat received < unat expected + 2 ^ 31" and l: "l = unat expected - unat received" "l < 2 ^ 31"
  shows "lost_fraction expected received =
    (if 2 ^ 23 \<le> l \<or> 0 < l \<and> 511 * unat expected \<le> 512 * l then None
     else Some (if l = 0 then 0 else of_nat ((512 * l + unat expected) div (2 * unat expected))))"
proof -
  let ?e = "unat expected"
  define q where "q = (512 * l + ?e) div (2 * ?e)"
  have f: "(512 * int l + uint expected) div (2 * uint expected) = int q"
  proof -
    have "int q = int (512 * l + ?e) div int (2 * ?e)" unfolding q_def by (rule of_nat_div)
    then show ?thesis by simp
  qed
  show ?thesis
  proof (cases "l = 0")
    case True
    with l(1) have "unat expected \<le> unat received" by simp
    then have "unat (received - expected) = unat received - ?e" by (simp add: unat_sub_wrap)
    also from r \<open>unat expected \<le> unat received\<close> have "\<dots> < 2 ^ 31" by (simp add: less_diff_conv2)
    finally have "sint (- (received - expected)) = - int (unat (received - expected))"
      by (rule sint_minus_small)
    then have "sint (expected - received) \<le> 0" by simp
    with True show ?thesis by (simp add: lost_fraction_def)
  next
    case False
    with l(1) have e: "0 < ?e" "expected \<noteq> 0" "unat (expected - received) = l"
      by (auto simp: unat_sub_wrap)
    with l(2) have s: "sint (expected - received) = int l" by (simp add: sint_small)
    have "int l * 256 \<ge> 2 ^ 31 \<longleftrightarrow> 2 ^ 23 \<le> l" by simp
    with False e(1,2) round_half_up_small [of ?e l] show ?thesis
      unfolding q_def [symmetric] by (auto simp: lost_fraction_def s f not_less Let_def)
  qed
qed

lemma bit_23_iff: "drop_bit 23 v AND 1 = 0 \<longleftrightarrow> \<not> bit (v :: u32) 23"
  by (simp add: and_one_eq bit_iff_odd_drop_bit even_iff_mod_2_eq_zero)

lemma small_bits:
  fixes w :: u32
  assumes "unat w < 2 ^ k" and "bit w n"
  shows "n < k"
proof -
  from assms(1) have "take_bit k w = w"
    by (simp add: word_unat_eq_iff unsigned_take_bit_eq take_bit_nat_eq_self)
  with assms(2) have "bit (take_bit k w) n" by simp
  then show ?thesis unfolding bit_take_bit_iff by simp
qed

lemma GetTotalLost_positive: "unat w < 2 ^ 23 \<Longrightarrow> GetTotalLost w = int (unat w)"
  using small_bits [of w 23 23] by (auto simp: GetTotalLost_def bit_23_iff sint_small)

lemma GetTotalLost_negative:
  assumes w: "0 < unat w" "unat w < 2 ^ 23"
  shows "GetTotalLost (w OR 0x0800000) = - int (unat w)"
proof -
  define h where "h = push_bit 23 (1 :: u32)"
  have p: "0x0800000 = h" by (simp add: h_def push_bit_eq_mult)
  have h: "bit h n \<longleftrightarrow> n = 23" for n unfolding h_def bit_push_bit_iff by (auto simp: bit_1_iff)
  note b = small_bits [OF w(2)]
  have "bit (w OR h) 23" by (simp add: bit_or_iff h)
  moreover have c: "(w OR h) AND NOT h = w"
    by (rule bit_word_eqI) (use b in \<open>auto simp: bit_and_iff bit_or_iff bit_not_iff h\<close>)
  moreover have "w OR h \<noteq> h"
  proof
    assume "w OR h = h"
    with c have "w = 0" by simp
    with w(1) show False by simp
  qed
  moreover have "sint (- w) = - int (unat w)" using w(2) by (intro sint_minus_small) simp
  ultimately show ?thesis unfolding p GetTotalLost_def bit_23_iff h_def [symmetric] Let_def by simp
qed

lemma TotalLost_clamped:
  assumes "SetTotalLost t = Some v"
  shows "GetTotalLost v = max (- 8388608) (min 8388607 (sint t))"
proof -
  have mask: "(0x07FFFFF :: u32) = mask 23" by (simp add: mask_eq_exp_minus_1)
  consider "0 \<le> sint t" | "- 8388608 < sint t" "sint t < 0" | "sint t \<le> - 8388608" by linarith
  then show ?thesis
  proof cases
    case 1
    define c where "c = min 8388607 (sint t)"
    have u: "unat (word_of_int c :: u32) = nat c"
      using 1 unfolding unat_eq_nat_uint uint_word_of_int by (simp add: c_def)
    then have "word_of_int c AND 0x07FFFFF = (word_of_int c :: u32)"
      unfolding mask word_unat_eq_iff unat_and_mask_word by (simp add: c_def)
    moreover have "v = word_of_int c AND 0x07FFFFF"
      using assms 1 by (cases "sint t > 0x07FFFFF") (simp_all add: SetTotalLost_def Let_def c_def split: if_splits)
    ultimately have "v = word_of_int c" by simp
    with u 1 GetTotalLost_positive [of v] show ?thesis by (simp add: c_def)
  next
    case 2
    define c where "c = - sint t"
    have u: "unat (word_of_int c :: u32) = nat c"
      using 2 unfolding unat_eq_nat_uint uint_word_of_int by (simp add: c_def)
    from assms 2 have "v = word_of_int c OR 0x0800000"
      by (simp add: SetTotalLost_def Let_def c_def split: if_splits)
    with u 2 GetTotalLost_negative [of "word_of_int c"] show ?thesis by (simp add: c_def)
  next
    case 3
    with assms have "v = 0x0800000"
      by (cases "sint t = - 8388608") (auto simp: SetTotalLost_def Let_def split: if_splits)
    with 3 show ?thesis by (simp add: GetTotalLost_def)
  qed
qed

text \<open>The delay is exact for less than 65536 seconds.\<close>

lemma compact_delay_exact:
  assumes "unat d < 65536000"
  shows "unat (compact_delay d) = unat d * 65536 div 1000"
proof -
  define hi where "hi = push_bit 16 (d div 1000)"
  define lo where "lo = d mod 1000 * 65536 div 1000"
  have m: "unat d mod 1000 < 1000" by simp
  have "unat (d mod 1000 * 65536) = unat d mod 1000 * 65536"
    using m by (simp add: unat_word_ariths unat_mod)
  then have lo: "unat lo = unat d mod 1000 * 65536 div 1000" by (simp add: lo_def unat_div)
  have hi: "unat hi = unat d div 1000 * 65536"
    using assms by (simp add: hi_def push_bit_eq_mult unat_word_ariths unat_div)
  have "unat d mod 1000 * 65536 < 65536 * 1000" using m by linarith
  then have l16: "unat lo < 2 ^ 16" unfolding lo by (simp add: div_less_iff_less_mult)
  have "hi AND lo = 0"
  proof (rule bit_word_eqI)
    fix n
    have "16 \<le> n" if "bit hi n" using that unfolding hi_def bit_push_bit_iff by simp
    with small_bits [OF l16, of n] show "bit (hi AND lo) n \<longleftrightarrow> bit 0 n" unfolding bit_and_iff by auto
  qed
  then have "hi + lo = hi OR lo" by (rule disjunctive_add_eq_or)
  then have "compact_delay d = hi + lo" by (simp only: compact_delay_def hi_def lo_def)
  then have "unat (compact_delay d) = (unat hi + unat lo) mod 2 ^ 32" by (simp add: unat_add_wrap)
  moreover have "unat d * 65536 = unat d div 1000 * 65536 * 1000 + unat d mod 1000 * 65536"
    using div_mult_mod_eq [of "unat d" 1000] by linarith
  then have "unat d * 65536 div 1000 = unat hi + unat lo" unfolding hi lo by simp
  moreover have "unat d * 65536 div 1000 < 2 ^ 32" using assms by (simp add: div_less_iff_less_mult)
  ultimately show ?thesis by (metis mod_less)
qed

lemma SetTotalLost_positive:
  assumes "unat t < 2 ^ 31"
  shows "SetTotalLost t = Some (of_nat (min 8388607 (unat t)))"
proof -
  have mask: "(0x07FFFFF :: u32) = mask 23" by (simp add: mask_eq_exp_minus_1)
  define c where "c = min 8388607 (unat t)"
  have u: "unat (of_nat c :: u32) = c" by (simp add: c_def unat_of_nat_less)
  have "of_nat c AND 0x07FFFFF = (of_nat c :: u32)"
    unfolding mask word_unat_eq_iff unat_and_mask_word u by (simp add: c_def)
  moreover have "sint t = int (unat t)" using assms by (rule sint_small)
  then have "SetTotalLost t = Some (word_of_int (int c) AND 0x07FFFFF)"
    by (simp add: SetTotalLost_def Let_def c_def min_def del: of_nat_unat)
  ultimately show ?thesis by (simp add: c_def)
qed

section \<open>Reports over a run\<close>

definition expected_interval :: "rtx_stream \<Rightarrow> u32" where
  "expected_interval s = GetExpectedPackets s - rtx_expectedPrior s"

definition received_interval :: "rtx_stream \<Rightarrow> u32" where
  "received_interval s = ucast (rtx_packetsCount s - ucast (rtx_receivedPrior s))"

definition interval_lost :: "rtx_stream \<Rightarrow> nat" where
  "interval_lost s = unat (expected_interval s) - unat (received_interval s)"

definition total_missing :: "rtx_stream \<Rightarrow> nat" where
  "total_missing s = unat (GetExpectedPackets s) - unat (rtx_packetsCount s)"

text \<open>Counts for which no difference of the report leaves the range of its type.\<close>

definition countable :: "rtx_stream \<Rightarrow> bool" where
  "countable s \<longleftrightarrow> unat (received_interval s) < unat (expected_interval s) + 2 ^ 31 \<and>
     interval_lost s < 2 ^ 31 \<and> total_missing s < 2 ^ 31"

text \<open>At least \<open>2 ^ 23\<close> packets, or at least 511 of 512, lost in the interval.\<close>

definition heavy_loss :: "rtx_stream \<Rightarrow> bool" where
  "heavy_loss s \<longleftrightarrow> 2 ^ 23 \<le> interval_lost s \<or> 0 < interval_lost s \<and> 511 * unat (expected_interval s) \<le> 512 * interval_lost s"

text \<open>The report in terms of the counters.\<close>

definition counter_report :: "u64 \<Rightarrow> rtx_stream \<Rightarrow> receiver_report" where
  "counter_report nowMs s = \<lparr>rr_ssrc = xp_ssrc (rtx_params s),
     rr_fractionLost = (if interval_lost s = 0 then 0 else
       of_nat ((512 * interval_lost s + unat (expected_interval s)) div (2 * unat (expected_interval s)))),
     rr_totalLost = of_nat (min 8388607 (total_missing s)),
     rr_lastSeq = ucast (maxSeq s) + cycles s, rr_jitter = 0,
     rr_lsr = (if rtx_lastSrReceived s \<noteq> 0 then rtx_lastSrTimestamp s else 0),
     rr_dlsr = (if rtx_lastSrReceived s \<noteq> 0
                then compact_delay (ucast (nowMs - rtx_lastSrReceived s)) else 0)\<rparr>"

definition rtx_inv :: "rtx_stream \<Rightarrow> bool" where
  "rtx_inv s \<longleftrightarrow> rtx_reportedPacketLost s = rtx_packetsLost s"

lemma packets_lost_eq:
  "unat ((if ucast e > c then ucast (ucast e - c) else 0) :: u32) = unat (e :: u32) - unat (c :: u64)"
proof (cases "ucast e > c")
  case True
  have e: "unat (ucast e :: u64) = unat e"
    by (simp add: unsigned_ucast_eq take_bit_nat_eq_self_iff less_trans [OF unsigned_less])
  with True have "unat c < unat e" by (simp add: word_less_nat_alt)
  then have d: "unat (ucast e - c) = unat e - unat c" using e by (simp add: unat_sub_wrap)
  have "unat e < 2 ^ 32" using unsigned_less [of e] by simp
  then have "unat e - unat c < 2 ^ 32" by (rule less_imp_diff_less)
  with True d show ?thesis by (simp add: unsigned_ucast_eq take_bit_nat_eq_self)
next
  case False
  have "unat (ucast e :: u64) = unat e"
    by (simp add: unsigned_ucast_eq take_bit_nat_eq_self_iff less_trans [OF unsigned_less])
  with False show ?thesis by (simp add: word_less_nat_alt)
qed

lemma GetRtcpReceiverReport_inv:
  assumes "rtx_inv s" and "RtxStream_GetRtcpReceiverReport nowMs s = Some (r, s')"
  shows "rtx_inv s'"
  using assms unfolding rtx_inv_def RtxStream_GetRtcpReceiverReport_def Let_def
  by (auto dest!: bind_eq_SomeD)

lemma GetRtcpReceiverReport_exact:
  assumes inv: "rtx_inv s" and c: "countable s"
  shows "map_option fst (RtxStream_GetRtcpReceiverReport nowMs s) =
    (if heavy_loss s then None else Some (counter_report nowMs s))"
proof -
  define lost where "lost = ((if ucast (GetExpectedPackets s) > rtx_packetsCount s
     then ucast (ucast (GetExpectedPackets s) - rtx_packetsCount s) else 0) :: u32)"
  have u: "unat lost = total_missing s" unfolding lost_def packets_lost_eq total_missing_def ..
  with c have "SetTotalLost lost = Some (of_nat (min 8388607 (total_missing s)))"
    using SetTotalLost_positive [of lost] by (simp add: countable_def)
  moreover have "lost_fraction (expected_interval s) (received_interval s) = (if heavy_loss s then None
     else Some (rr_fractionLost (counter_report nowMs s)))"
    using c lost_fraction_exact [OF _ refl, of "received_interval s" "expected_interval s"]
    by (simp add: countable_def heavy_loss_def counter_report_def interval_lost_def)
  note fraction = this [unfolded expected_interval_def received_interval_def]
  ultimately show ?thesis using inv fraction
    unfolding RtxStream_GetRtcpReceiverReport_def rtx_inv_def
    by (cases "heavy_loss s") (simp_all add: Let_def lost_def [symmetric] counter_report_def)
qed

text \<open>The calls that reach the stream, and what they return.\<close>

datatype rtx_event = RtxPacket rtp_packet u64 | RtxReport u64 | RtxSenderReport u32 u32 u64

datatype rtx_output = RtxReceived bool | RtxReported receiver_report

fun rtx_step :: "rtx_stream \<Rightarrow> rtx_event \<Rightarrow> (rtx_stream \<times> rtx_output list) option" where
  "rtx_step s (RtxPacket packet nowMs) =
     (let (b, s') = RtxStream_ReceivePacket packet nowMs s in Some (s', [RtxReceived b]))"
| "rtx_step s (RtxReport nowMs) =
     map_option (\<lambda>(r, s'). (s', [RtxReported r])) (RtxStream_GetRtcpReceiverReport nowMs s)"
| "rtx_step s (RtxSenderReport ntpSec ntpFrac nowMs) =
     Some (RtxStream_ReceiveRtcpSenderReport ntpSec ntpFrac nowMs s, [])"

subsection \<open>The history of a stream\<close>

text \<open>
  The calls so far, each packet with the sequence number the sender gave it, counted without
  wrapping. What follows is computed from these alone, in unbounded numbers: the numbers of the packets that
  arrived, how many packets the stream should have got by now, and how many it got.
\<close>

type_synonym rtx_history = "(rtx_event \<times> int) list"

fun is_packet :: "rtx_event \<Rightarrow> bool" where
  "is_packet (RtxPacket packet nowMs) = True"
| "is_packet e = False"

fun is_report :: "rtx_event \<Rightarrow> bool" where
  "is_report (RtxReport nowMs) = True"
| "is_report e = False"

definition numbers :: "rtx_history \<Rightarrow> int list" where
  "numbers h = map snd (filter (\<lambda>x. is_packet (fst x)) h)"

definition packets_received :: "rtx_history \<Rightarrow> nat" where
  "packets_received h = length (numbers h)"

text \<open>
  One packet is expected before any has arrived, and a cycle is added when the first number is zero
  (see \<^verbatim>\<open>RtpStream_expected_packets\<close>).
\<close>

definition packets_expected :: "rtx_history \<Rightarrow> nat" where
  "packets_expected h = (case numbers h of [] \<Rightarrow> 1 | b # es \<Rightarrow> nat (Max (set (b # es)) - b + 1 + first_cycle b))"

definition highest :: "rtx_history \<Rightarrow> int" where
  "highest h = (case numbers h of [] \<Rightarrow> 0 | b # es \<Rightarrow> Max (set (b # es)) + first_cycle b)"

text \<open>The history up to the last report, empty if there was none, and the interval since.\<close>

definition until_report :: "rtx_history \<Rightarrow> rtx_history" where
  "until_report h = rev (dropWhile (\<lambda>x. \<not> is_report (fst x)) (rev h))"

definition expected_before :: "rtx_history \<Rightarrow> nat" where
  "expected_before h = (if until_report h = [] then 0 else packets_expected (until_report h))"

definition expected_since :: "rtx_history \<Rightarrow> nat" where
  "expected_since h = packets_expected h - expected_before h"

definition received_since :: "rtx_history \<Rightarrow> nat" where
  "received_since h = packets_received h - packets_received (until_report h)"

definition lost_since :: "rtx_history \<Rightarrow> nat" where
  "lost_since h = expected_since h - received_since h"

definition unreportable :: "rtx_history \<Rightarrow> bool" where
  "unreportable h \<longleftrightarrow>
     2 ^ 23 \<le> lost_since h \<or> 0 < lost_since h \<and> 511 * expected_since h \<le> 512 * lost_since h"

text \<open>Timestamp and arrival of the last sender report.\<close>

fun sender_report :: "rtx_event \<Rightarrow> u32 \<times> u64 \<Rightarrow> u32 \<times> u64" where
  "sender_report (RtxSenderReport ntpSec ntpFrac nowMs) sr = (compact_ntp ntpSec ntpFrac, nowMs)"
| "sender_report e sr = sr"

definition last_sr :: "rtx_history \<Rightarrow> u32 \<times> u64" where
  "last_sr h = fold (\<lambda>x. sender_report (fst x)) h (0, 0)"

text \<open>
  What may come next: a packet near the highest number so far, as long as the counts stay below
  \<open>2 ^ 31\<close>; a report whose fraction can be expressed; any sender report.
\<close>

fun next_ok :: "rtx_history \<Rightarrow> rtx_event \<times> int \<Rightarrow> bool" where
  "next_ok h (RtxPacket packet nowMs, e) =
     (rp_sequenceNumber packet = word_of_int e \<and>
      (case numbers h of
         [] \<Rightarrow> 0 \<le> e \<and> e < 65536
       | b # es \<Rightarrow> Max (set (b # es)) - 1500 < e \<and> e < Max (set (b # es)) + 3000) \<and>
      packets_received h + 1 < 2 ^ 31 \<and> packets_expected (h @ [(RtxPacket packet nowMs, e)]) < 2 ^ 31)"
| "next_ok h (RtxReport nowMs, e) = (\<not> unreportable h)"
| "next_ok h (RtxSenderReport ntpSec ntpFrac nowMs, e) = True"

definition regular :: "rtx_history \<Rightarrow> bool" where
  "regular h = list_all (\<lambda>i. next_ok (take i h) (h ! i)) [0..<length h]"

lemma numbers_append [simp]: "numbers (h @ h') = numbers h @ numbers h'"
  by (simp add: numbers_def)

lemma numbers_single [simp]: "numbers [x] = (if is_packet (fst x) then [snd x] else [])"
  by (simp add: numbers_def)

lemma until_report_snoc [simp]:
  "until_report (h @ [x]) = (if is_report (fst x) then h @ [x] else until_report h)"
  by (simp add: until_report_def)

lemma last_sr_snoc [simp]: "last_sr (h @ [x]) = sender_report (fst x) (last_sr h)"
  by (simp add: last_sr_def)

text \<open>A call that is not a packet changes no count.\<close>

lemma counts_cong:
  "numbers h = numbers h' \<Longrightarrow> packets_received h = packets_received h' \<and> packets_expected h = packets_expected h' \<and> highest h = highest h'"
  by (simp add: packets_received_def packets_expected_def highest_def)

lemma Max_snoc: "Max (set (b # es @ [e])) = max (Max (set (b # es))) (e :: int)"
proof -
  have "set (b # es @ [e]) = insert e (set (b # es))" by auto
  then show ?thesis by (simp add: max.commute del: set_append)
qed

lemma Max_ge_first: "b \<le> Max (set (b # es))" for b :: int
  by (rule Max_ge) simp_all

text \<open>The stream counts what the history says.\<close>

definition tracked :: "int list \<Rightarrow> rtx_stream \<Rightarrow> bool" where
  "tracked ns s \<longleftrightarrow> (case ns of
     [] \<Rightarrow> \<not> started s \<and> cycles s = 0 \<and> maxSeq s = 0 \<and> baseSeq s = 0
   | b # es \<Rightarrow> tracks b (Max (set (b # es))) (first_cycle b) s)"

lemma tracked_cong:
  "started s' = started s \<Longrightarrow> cycles s' = cycles s \<Longrightarrow> maxSeq s' = maxSeq s \<Longrightarrow> baseSeq s' = baseSeq s
    \<Longrightarrow> tracked ns s' = tracked ns s"
  by (simp add: tracked_def tracks_def split: list.split)

definition records :: "rtx_params \<Rightarrow> rtx_history \<Rightarrow> rtx_stream \<Rightarrow> bool" where
  "records params h s \<longleftrightarrow> rtx_params s = params \<and> rtx_inv s \<and> tracked (numbers h) s \<and>
     rtx_packetsCount s = of_nat (packets_received h) \<and>
     rtx_expectedPrior s = of_nat (expected_before h) \<and>
     rtx_receivedPrior s = of_nat (packets_received (until_report h)) \<and>
     (rtx_lastSrTimestamp s, rtx_lastSrReceived s) = last_sr h \<and>
     packets_received h < 2 ^ 31 \<and> packets_expected h < 2 ^ 31 \<and>
     expected_before h \<le> packets_expected h \<and> packets_received (until_report h) \<le> packets_received h"

lemma records_expected:
  assumes "records params h s"
  shows "GetExpectedPackets s = of_nat (packets_expected h)" and "ucast (maxSeq s) + cycles s = word_of_int (highest h)"
proof -
  have "GetExpectedPackets s = of_nat (packets_expected h) \<and> ucast (maxSeq s) + cycles s = word_of_int (highest h)"
  proof (cases "numbers h")
    case Nil
    with assms show ?thesis by (simp add: records_def tracked_def packets_expected_def highest_def GetExpectedPackets_def)
  next
    case (Cons b es)
    with assms have t: "tracks b (Max (set (b # es))) (first_cycle b) s" by (simp add: records_def tracked_def)
    have "0 \<le> Max (set (b # es)) - b + 1 + first_cycle b"
      using Max_ge_first [of b es] by (simp add: first_cycle_def)
    then have "(of_nat (packets_expected h) :: u32) = word_of_int (Max (set (b # es)) - b + 1 + first_cycle b)"
      unfolding packets_expected_def Cons list.case by (rule of_nat_nat)
    moreover from t have "cycles s + ucast (maxSeq s) = word_of_int (Max (set (b # es)) + first_cycle b)"
      unfolding tracks_def by blast
    then have "ucast (maxSeq s) + cycles s = word_of_int (highest h)"
      unfolding highest_def Cons list.case by (subst add.commute)
    ultimately show ?thesis using tracks_expected [OF t] by simp
  qed
  then show "GetExpectedPackets s = of_nat (packets_expected h)" "ucast (maxSeq s) + cycles s = word_of_int (highest h)"
    by blast+
qed

lemma unat_of_nat_diff_32:
  assumes "b \<le> a" and "a < 2 ^ 31"
  shows "unat (of_nat a - of_nat b :: u32) = a - b"
  using assms by (simp add: of_nat_diff [symmetric] unat_of_nat_less del: of_nat_diff)

lemma records_intervals:
  assumes "records params h s"
  shows "unat (expected_interval s) = expected_since h" and "unat (received_interval s) = received_since h"
    and "interval_lost s = lost_since h" and "total_missing s = packets_expected h - packets_received h"
    and "countable s" and "heavy_loss s = unreportable h"
proof -
  let ?p = "packets_received (until_report h)"
  from assms have b: "packets_received h < 2 ^ 31" "packets_expected h < 2 ^ 31" "expected_before h \<le> packets_expected h" "?p \<le> packets_received h"
    by (simp_all add: records_def)
  from assms have c: "rtx_packetsCount s = of_nat (packets_received h)" "rtx_receivedPrior s = of_nat ?p"
    "rtx_expectedPrior s = of_nat (expected_before h)" by (simp_all add: records_def)
  show e: "unat (expected_interval s) = expected_since h"
    using b unat_of_nat_diff_32 [of "expected_before h" "packets_expected h"]
    by (simp add: expected_interval_def records_expected(1) [OF assms] c expected_since_def)
  have "(ucast (of_nat ?p :: u32) :: u64) = of_nat ?p"
    using b by (simp add: ucast_eq uint_nat unat_of_nat_less)
  then have "rtx_packetsCount s - ucast (rtx_receivedPrior s) = of_nat (received_since h)"
    using b by (simp add: c received_since_def of_nat_diff)
  then have "received_interval s = ucast (of_nat (received_since h) :: u64)" by (simp add: received_interval_def)
  moreover have "received_since h < 2 ^ 31" using b by (simp add: received_since_def)
  ultimately show rr: "unat (received_interval s) = received_since h"
    by (simp add: unsigned_ucast_eq take_bit_nat_eq_self unat_of_nat_less)
  show l: "interval_lost s = lost_since h" by (simp add: interval_lost_def lost_since_def e rr)
  show t: "total_missing s = packets_expected h - packets_received h"
    using b by (simp add: total_missing_def records_expected(1) [OF assms] c unat_of_nat_less)
  have "expected_since h < 2 ^ 31" using b by (simp add: expected_since_def)
  with b \<open>received_since h < 2 ^ 31\<close> show "countable s"
    unfolding countable_def e rr l t lost_since_def by linarith
  show "heavy_loss s = unreportable h" by (simp add: heavy_loss_def unreportable_def e l)
qed

lemma records_packet:
  assumes rec: "records params h s" and ok: "next_ok h (RtxPacket packet nowMs, e)"
  shows "\<exists>s'. RtxStream_ReceivePacket packet nowMs s = (True, s') \<and>
    records params (h @ [(RtxPacket packet nowMs, e)]) s'"
proof -
  let ?h = "h @ [(RtxPacket packet nowMs, e)]"
  obtain outcome t where rs: "ReceiveStreamPacket packet nowMs s = (outcome, t)" by fastforce
  have keep: "rtx_params t = rtx_params s" "rtx_inv t = rtx_inv s" "rtx_packetsCount t = rtx_packetsCount s"
    "rtx_expectedPrior t = rtx_expectedPrior s" "rtx_receivedPrior t = rtx_receivedPrior s"
    "rtx_lastSrTimestamp t = rtx_lastSrTimestamp s" "rtx_lastSrReceived t = rtx_lastSrReceived s"
    using rs by (auto simp: rtx_inv_def ReceiveStreamPacket_def UpdateSeq_def InitSeq_def Let_def split: if_splits)
  have acc: "outcome = Accepted \<and> tracked (numbers ?h) t \<and> packets_expected h \<le> packets_expected ?h"
  proof (cases "numbers h")
    case Nil
    with rec ok ReceiveStreamPacket_first [of s e packet nowMs] rs show ?thesis
      by (simp add: records_def tracked_def follows_def packets_expected_def first_cycle_def)
  next
    case (Cons b es)
    with rec have "tracks b (Max (set (b # es))) (first_cycle b) s" by (simp add: records_def tracked_def)
    from ReceiveStreamPacket_near [OF this, of packet e nowMs] ok Cons rs
    have "outcome = Accepted" "tracks b (max (Max (set (b # es))) e) (first_cycle b) t"
      by (simp_all add: follows_def)
    moreover have "nat (Max (set (b # es)) - b + 1 + first_cycle b)
        \<le> nat (max (Max (set (b # es))) e - b + 1 + first_cycle b)" by (intro nat_mono) simp
    ultimately show ?thesis
      unfolding packets_expected_def tracked_def numbers_append numbers_single Cons
      by (simp only: list.case append_Cons append_Nil fst_conv snd_conv is_packet.simps if_True Max_snoc)
  qed
  let ?t = "t\<lparr>rtx_packetsCount := rtx_packetsCount t + 1\<rparr>"
  have "tracked (numbers ?h) ?t = tracked (numbers ?h) t" by (rule tracked_cong) simp_all
  moreover have "packets_received ?h = packets_received h + 1" by (simp add: packets_received_def)
  moreover have "until_report ?h = until_report h" "expected_before ?h = expected_before h" "last_sr ?h = last_sr h"
    by (simp_all add: expected_before_def)
  moreover have "packets_received h + 1 < 2 ^ 31" "packets_expected ?h < 2 ^ 31" using ok by simp_all
  ultimately have "records params ?h ?t"
    using rec keep acc unfolding records_def by (simp add: rtx_inv_def)
  with rs acc show ?thesis by (simp add: RtxStream_ReceivePacket_def)
qed

lemma GetRtcpReceiverReport_state:
  assumes "RtxStream_GetRtcpReceiverReport nowMs s = Some (r, s')"
  shows "rtx_params s' = rtx_params s" "maxSeq s' = maxSeq s" "cycles s' = cycles s" "baseSeq s' = baseSeq s"
    "started s' = started s" "rtx_packetsCount s' = rtx_packetsCount s"
    "rtx_expectedPrior s' = GetExpectedPackets s" "rtx_receivedPrior s' = ucast (rtx_packetsCount s)"
    "rtx_lastSrTimestamp s' = rtx_lastSrTimestamp s" "rtx_lastSrReceived s' = rtx_lastSrReceived s"
  using assms unfolding RtxStream_GetRtcpReceiverReport_def Let_def by (auto dest!: bind_eq_SomeD)

lemma records_report:
  assumes rec: "records params h s" and rep: "RtxStream_GetRtcpReceiverReport nowMs s = Some (r, s')"
  shows "records params (h @ [(RtxReport nowMs, e)]) s'"
proof -
  let ?h = "h @ [(RtxReport nowMs, e)]"
  note st = GetRtcpReceiverReport_state [OF rep]
  have "rtx_inv s'" using rec GetRtcpReceiverReport_inv [OF _ rep] by (simp add: records_def)
  moreover have c: "packets_received ?h = packets_received h" "packets_expected ?h = packets_expected h" using counts_cong [of ?h h] by simp_all
  moreover have "packets_received h < 2 ^ 31" using rec by (simp add: records_def)
  then have "(ucast (of_nat (packets_received h) :: u64) :: u32) = of_nat (packets_received h)"
    by (simp add: ucast_eq uint_nat unat_of_nat_less)
  ultimately show ?thesis
    using rec st records_expected(1) [OF rec] tracked_cong [of s' s "numbers h"]
    by (simp add: records_def expected_before_def)
qed

fun hist_step :: "rtx_history \<times> rtx_stream \<Rightarrow> rtx_event \<times> int
    \<Rightarrow> ((rtx_history \<times> rtx_stream) \<times> rtx_output list) option" where
  "hist_step (h, s) x = map_option (\<lambda>(s', out). ((h @ [x], s'), out)) (rtx_step s (fst x))"

lemma hist_step_safe:
  assumes "records params h s" and "next_ok h x"
  shows "\<exists>s' out. rtx_step s (fst x) = Some (s', out) \<and> records params (h @ [x]) s'"
proof -
  obtain ev e where x: "x = (ev, e)" by (cases x)
  show ?thesis
  proof (cases ev)
    case (RtxPacket packet nowMs)
    with records_packet [OF assms(1), of packet nowMs e] assms(2) x show ?thesis by auto
  next
    case (RtxReport nowMs)
    with assms x have "countable s" "\<not> heavy_loss s" "rtx_inv s"
      using records_intervals [OF assms(1)] by (simp_all add: records_def)
    with GetRtcpReceiverReport_exact [of s nowMs] obtain r s' where
      "RtxStream_GetRtcpReceiverReport nowMs s = Some (r, s')" by auto
    with records_report [OF assms(1)] RtxReport x show ?thesis by auto
  next
    case (RtxSenderReport ntpSec ntpFrac nowMs)
    let ?s = "RtxStream_ReceiveRtcpSenderReport ntpSec ntpFrac nowMs s"
    have "tracked (numbers h) ?s = tracked (numbers h) s"
      by (rule tracked_cong) (simp_all add: RtxStream_ReceiveRtcpSenderReport_def)
    moreover have "packets_received (h @ [x]) = packets_received h" "packets_expected (h @ [x]) = packets_expected h" "numbers (h @ [x]) = numbers h"
      "until_report (h @ [x]) = until_report h" "expected_before (h @ [x]) = expected_before h"
      "last_sr (h @ [x]) = (compact_ntp ntpSec ntpFrac, nowMs)"
      using counts_cong [of "h @ [x]" h] by (simp_all add: x RtxSenderReport expected_before_def)
    ultimately have "records params (h @ [x]) ?s"
      using assms(1) unfolding records_def by (simp add: rtx_inv_def RtxStream_ReceiveRtcpSenderReport_def)
    then show ?thesis by (simp add: x RtxSenderReport)
  qed
qed

interpretation rtx_machine: safe_machine hist_step "\<lambda>(h, s). records params h s" "\<lambda>(h, s). next_ok h" for params
  by unfold_locales (use hist_step_safe in fastforce)

lemma hist_run:
  "run_steps hist_step (h, s) xs =
     map_option (\<lambda>(s', outs). ((h @ xs, s'), outs)) (run_steps rtx_step s (map fst xs))"
  by (induction xs arbitrary: h s) (auto split: option.split)

lemma hist_ok_run:
  "\<forall>i < length xs. next_ok (h @ take i xs) (xs ! i) \<Longrightarrow> ok_run hist_step (\<lambda>(h, s). next_ok h) (h, s) xs"
proof (induction xs arbitrary: h s)
  case (Cons x xs)
  have "next_ok h x" using Cons.prems by force
  moreover have "\<forall>i < length xs. next_ok ((h @ [x]) @ take i xs) (xs ! i)"
    using Cons.prems by (metis (no_types) Suc_less_eq append_Cons append_Nil append_assoc length_Cons nth_Cons_Suc take_Suc_Cons)
  ultimately show ?case using Cons.IH by (auto split: option.split)
qed simp

lemma RtxStream_new_records: "RtxStream_new params = Some s \<Longrightarrow> records params [] s"
  by (auto simp: RtxStream_new_def records_def tracked_def rtx_inv_def seq_tracker.defs seq_tracker_new_def numbers_def
      packets_received_def packets_expected_def until_report_def expected_before_def last_sr_def split: if_splits)

lemma regular_run:
  assumes "RtxStream_new params = Some s0" and "regular h"
  shows "\<exists>s outs. run_steps rtx_step s0 (map fst h) = Some (s, outs) \<and> records params h s"
proof -
  have "ok_run hist_step (\<lambda>(h, s). next_ok h) ([], s0) h"
    using assms(2) by (intro hist_ok_run) (auto simp: regular_def list_all_iff)
  with rtx_machine.run_safe [of params "([], s0)" h] RtxStream_new_records [OF assms(1)] show ?thesis
    by (auto simp: hist_run)
qed

lemma records_report_exact:
  assumes rec: "records params h s"
  shows "case RtxStream_GetRtcpReceiverReport nowMs s of
       None \<Rightarrow> unreportable h
     | Some (r, s') \<Rightarrow> \<not> unreportable h \<and> rr_ssrc r = xp_ssrc params \<and>
         unat (rr_fractionLost r) = (if lost_since h = 0 then 0
           else (512 * lost_since h + expected_since h) div (2 * expected_since h)) \<and>
         GetTotalLost (rr_totalLost r) = int (min 8388607 (packets_expected h - packets_received h)) \<and>
         rr_lastSeq r = word_of_int (highest h) \<and> rr_jitter r = 0 \<and>
         rr_lsr r = (if snd (last_sr h) \<noteq> 0 then fst (last_sr h) else 0) \<and>
         (let delay = unat (nowMs - snd (last_sr h)) in
          if snd (last_sr h) = 0 then rr_dlsr r = 0
          else delay < 65536000 \<longrightarrow> unat (rr_dlsr r) = delay * 65536 div 1000)"
proof -
  note i = records_intervals [OF rec]
  from rec have inv: "rtx_inv s" "rtx_params s = params" "last_sr h = (rtx_lastSrTimestamp s, rtx_lastSrReceived s)"
    by (simp_all add: records_def)
  note ex = GetRtcpReceiverReport_exact [OF inv(1) i(5), of nowMs, unfolded i(6)]
  show ?thesis
  proof (cases "RtxStream_GetRtcpReceiverReport nowMs s")
    case None
    with ex show ?thesis by (simp split: if_splits)
  next
    case (Some rs)
    obtain r s' where rs: "rs = (r, s')" by (cases rs)
    with Some ex have nu: "\<not> unreportable h" and r: "r = counter_report nowMs s" by (auto split: if_splits)
    let ?f = "(512 * lost_since h + expected_since h) div (2 * expected_since h)"
    have "?f < 256" if "lost_since h \<noteq> 0"
      using nu that round_half_up_small [of "expected_since h" "lost_since h"]
      by (simp add: unreportable_def lost_since_def)
    then have "unat (rr_fractionLost r) = (if lost_since h = 0 then 0 else ?f)"
      by (simp add: r counter_report_def i(1,3) unat_of_nat_less)
    moreover have "GetTotalLost (rr_totalLost r) = int (min 8388607 (packets_expected h - packets_received h))"
      by (subst GetTotalLost_positive) (simp_all add: r counter_report_def i(4) unat_of_nat_less)
    moreover have "unat (compact_delay (ucast d)) = unat d * 65536 div 1000" if "unat d < 65536000" for d :: u64
      using that compact_delay_exact [of "ucast d"] by (simp add: unsigned_ucast_eq take_bit_nat_eq_self)
    ultimately show ?thesis
      using Some rs nu inv records_expected(2) [OF rec] by (simp add: r counter_report_def Let_def)
  qed
qed

section \<open>Properties\<close>

text \<open>
  C25: Receiver reports of an RTX stream. Take any calls on a fresh stream whose packets carry, in any
  order and with any losses and repetitions, sequence numbers near the highest one so far (less
  than \<open>2 ^ 31\<close> in all), and in which no report was asked for when it cannot be expressed.
  Then the stream works them off, and a report after them has, computed from the history of calls: as the fraction
  lost, 256 times what is missing of the packets expected since the last report over these, rounded; as the
  total lost, what is missing of all packets expected so far, clamped to 23 bits,
  although the code adds up differences; the highest number; and the last sender report with the delay since, in
  units of 1/65536 seconds, if that is less than 65536 seconds.
  The packets expected are those from the first to the highest number, with two peculiarities of the code:
  a whole cycle more if the first number is zero, and one packet before any has arrived. A report
  cannot be expressed, and only then fails, when at least \<open>2 ^ 23\<close> packets, or at least 511 of 512,
  were lost since the last one (the rounded fraction is then 256, which does not fit the 8 bits it is
  converted to); this includes a report before the first packet.
\<close>

theorem RtxStream_reports:
  assumes "RtxStream_new params = Some s0" and "regular h"
  shows "\<exists>s outs. run_steps rtx_step s0 (map fst h) = Some (s, outs) \<and>
    (case RtxStream_GetRtcpReceiverReport nowMs s of
       None \<Rightarrow> unreportable h
     | Some (r, s') \<Rightarrow> \<not> unreportable h \<and> rr_ssrc r = xp_ssrc params \<and>
         unat (rr_fractionLost r) = (if lost_since h = 0 then 0
           else (512 * lost_since h + expected_since h) div (2 * expected_since h)) \<and>
         GetTotalLost (rr_totalLost r) = int (min 8388607 (packets_expected h - packets_received h)) \<and>
         rr_lastSeq r = word_of_int (highest h) \<and> rr_jitter r = 0 \<and>
         rr_lsr r = (if snd (last_sr h) \<noteq> 0 then fst (last_sr h) else 0) \<and>
         (let delay = unat (nowMs - snd (last_sr h)) in
          if snd (last_sr h) = 0 then rr_dlsr r = 0
          else delay < 65536000 \<longrightarrow> unat (rr_dlsr r) = delay * 65536 div 1000))"
proof -
  obtain s outs where run: "run_steps rtx_step s0 (map fst h) = Some (s, outs)" and rec: "records params h s"
    using regular_run [OF assms] by blast
  from records_report_exact [OF rec, of nowMs] run show ?thesis by blast
qed

definition example_params :: rtx_params where
  "example_params = \<lparr>xp_ssrc = 7, xp_payloadType = 97, xp_mimeType = \<lparr>mt_type = VIDEO, mt_subtype = RTX\<rparr>,
     xp_clockRate = 90000, xp_rrid = [], xp_cname = []\<rparr>"

definition example_rtx :: rtx_stream where
  "example_rtx = the (RtxStream_new example_params)"

text \<open>Packets 65530 to 65540, of which four arrive, with a report after the second.\<close>

definition example_losses :: rtx_history where
  "example_losses = [(RtxPacket (numbered 65530) 0, 65530), (RtxPacket (numbered 65533) 0, 65533),
     (RtxReport 0, 0), (RtxPacket (numbered 4) 0, 65540), (RtxPacket (numbered 65535) 0, 65535)]"

lemma example_rtx_new: "RtxStream_new example_params = Some example_rtx"
  by (simp add: example_rtx_def RtxStream_new_def example_params_def)

lemmas history_defs = unreportable_def lost_since_def expected_since_def received_since_def expected_before_def
  until_report_def packets_expected_def packets_received_def numbers_def first_cycle_def

lemma example_losses_counts:
  "regular example_losses" "\<not> unreportable example_losses" "lost_since example_losses = 5"
  "expected_since example_losses = 7" "packets_expected example_losses = 11" "packets_received example_losses = 4"
  by (simp_all add: regular_def example_losses_def upt_conv_Cons numbered_def history_defs)

theorem RtxStream_reports_witness:
  "\<exists>s outs r s'. run_steps rtx_step example_rtx (map fst example_losses) = Some (s, outs) \<and>
    RtxStream_GetRtcpReceiverReport 0 s = Some (r, s') \<and>
    unat (rr_fractionLost r) = 183 \<and> GetTotalLost (rr_totalLost r) = 7"
  using RtxStream_reports [OF example_rtx_new example_losses_counts(1), of 0] example_losses_counts(2-)
  by (auto split: option.splits)

end
