(* ===== verification/Spec2Isabelle.thy ===== *)
theory Spec2Isabelle
  imports SeqManager RtpRetransmissionBuffer NackGenerator KeyFrameRequestManager
    StunRoundtrip IceServerSafety RateCalculator RtpPacketExtensions
    RtxStream
begin

text \<open>
  \<^bold>\<open>Verification of the media core of the mediasoup worker.\<close>

  mediasoup is a selective forwarding unit: a Node.js or Rust application (\<^verbatim>\<open>src/node\<close>, \<^verbatim>\<open>src/rust\<close>)
  drives a worker process in C++ (\<^verbatim>\<open>src/worker\<close>) that receives RTP packets from producers and
  forwards them to consumers. The worker is one thread around a libuv loop. This development
  models those of its classes whose behaviour is their own: the bookkeeping that decides which
  packet is forwarded, renumbered, asked for again or retransmitted, the packet itself, and the ICE
  agent that decides which remote address a transport talks to. Paths below are relative to \<^verbatim>\<open>src/worker\<close>,
  \<^verbatim>\<open>include/X\<close> and \<^verbatim>\<open>src/X\<close> together make a class.

  \<^bold>\<open>How the parts interact.\<close> A datagram that \<^verbatim>\<open>StunPacket::IsStun\<close> accepts is parsed and goes to
  the \<^verbatim>\<open>IceServer\<close> of its transport, which authenticates it and keeps the table of
  \<^verbatim>\<open>TransportTuple\<close>s. An RTP packet is accepted or
  discarded by its \<^verbatim>\<open>RtpStream\<close>, and updates the counters of the stream (\<^verbatim>\<open>RateCalculator\<close>) and its
  \<^verbatim>\<open>NackGenerator\<close>, which asks for lost packets through RTCP and for a key frame when too many are
  lost; the \<^verbatim>\<open>KeyFrameRequestManager\<close> of the producer limits such requests. A consumer renumbers
  what it forwards by a \<^verbatim>\<open>SeqManager\<close> and keeps it in an \<^verbatim>\<open>RtpRetransmissionBuffer\<close> to answer NACKs.

  \<^bold>\<open>Theories.\<close>
  \<^item> \<open>Prelude\<close>: names for the machine integers and lemmas on lists, options and words.
  \<^item> \<open>OrderedSet\<close>: the ordered containers of the standard library (\<^verbatim>\<open>std::set\<close>, \<^verbatim>\<open>std::map\<close>) as lists
    with the comparator of the code. The locale \<open>ordered_keys\<close> states on which keys the comparator
    is a strict order; for the wrapping order of sequence numbers these are sets that span less
    than half the range (interpretation \<open>seq_order\<close>).
  \<^item> \<open>StateMachine\<close>: runs of a component over the calls and timers that reach it. The locales
    \<open>safe_machine\<close> and \<open>accounted_machine\<close> lift one step to runs; they are interpreted by
    \<open>nack_machine\<close>, \<open>kf_machine\<close>, \<open>ice_machine\<close>, \<open>packet_machine\<close> and \<open>rtx_machine\<close>.
  \<^item> \<open>Utils\<close> (\<^verbatim>\<open>include/Utils.hpp\<close>, \<^verbatim>\<open>src/Utils/Crypto.cpp\<close>): big-endian access to buffers, padding, the
    CRC32 of STUN, NTP time, the order of timestamps. The locale \<open>byte_field\<close> is the contract of
    reading and writing one field; it is interpreted for each width. The table-driven CRC equals
    the bitwise one; times and fields survive a round trip.
  \<^item> \<open>SeqManager\<close> (\<^verbatim>\<open>RTC/SeqManager\<close>): the wrapping order, and that inputs of which some are dropped get
    gapless outputs as long as they arrive in order, and duplicates when they do not.
  \<^item> \<open>RtpTypes\<close>: the fields of an RTP packet the other theories read.
  \<^item> \<open>RtpRetransmissionBuffer\<close> (\<^verbatim>\<open>RTC/RtpRetransmissionBuffer\<close>): the deque indexed by sequence number;
    its invariant under every operation, exact lookup, the bound by the retransmission delay in
    milliseconds, and the packets it discards when timestamps wrap.
  \<^item> \<open>NackGenerator\<close> (\<^verbatim>\<open>RTC/NackGenerator\<close>): bounds and ordering of its lists over any run, requests for
    every lost packet, at once or when the configured delay is over, retries by timer, the key frame
    request when the list overflows, and the requests that a stale list of recovered packets suppresses.
  \<^item> \<open>KeyFrameRequestManager\<close> (\<^verbatim>\<open>RTC/KeyFrameRequestManager\<close>): the heap objects, each with
    its one-shot \<^verbatim>\<open>Timer\<close> (\<^verbatim>\<open>handles/Timer\<close>), implement a contract per SSRC; requests are bounded, and
    until a key frame arrives a wish is sent or a timer that sends it is running.
  \<^item> \<open>StunPacket\<close>, \<open>StunRoundtrip\<close> (\<^verbatim>\<open>RTC/StunPacket\<close>): the parser ends and stays inside the datagram; what
    is serialised parses to the same message and passes authentication.
  \<^item> \<open>TransportTuple\<close> (\<^verbatim>\<open>RTC/TransportTuple\<close>): the hash that stands for a remote address; exact for
    IPv4, and what it identifies for IPv6.
  \<^item> \<open>IceServer\<close>, \<open>IceServerSafety\<close> (\<^verbatim>\<open>RTC/IceServer\<close>): every operation of the ICE agent; no assertion
    fails over a run, a peer without credentials changes nothing, an authenticated one gets what it
    asks for, and the listener can mirror the tables. One kind of authenticated request (a stale
    nomination while there is no tuple) is excluded from the runs, and shown to end the process.
  \<^item> \<open>RateCalculator\<close> (\<^verbatim>\<open>RTC/RateCalculator\<close>): the circular buffer implements a sliding window.
  \<^item> \<open>RtpSequence\<close> (\<^verbatim>\<open>RTC/RtpStream\<close>, the methods on sequence numbers): the wrapping counters follow the
    sender's unbounded numbers, and what is left of them after a re-synchronisation.
  \<^item> \<open>RtxStream\<close> (\<^verbatim>\<open>RTC/RtxStream\<close>, fields of \<^verbatim>\<open>RTC/RTCP/ReceiverReport\<close>): over any run (interpretation
    \<open>rtx_machine\<close>) a report holds the losses that follow from the history of calls, in unbounded
    numbers, unless nearly all packets were lost; the signed field and the delay are read back as written.
  \<^item> \<open>RtpPacket\<close>, \<open>RtpPacketSafety\<close>, \<open>RtpPacketOps\<close>, \<open>RtpPacketExtensions\<close> (\<^verbatim>\<open>RTC/RtpPacket\<close>): the packet as
    pointers into a buffer. The first holds every operation, the second the invariant and the parser,
    the others the operations that rewrite a packet: RTX, payload shift, header extensions, clone. The
    parser is safe on any bytes; any sequence of operations keeps the invariant (interpretation
    \<open>packet_machine\<close>) and with it the safety of every reader; RTX and header extensions round trip; the
    bytes of a packet parse back; a clone has the bytes of its original but for the padding.

  \<^bold>\<open>Conventions.\<close> A class is a record, with a prefix where member names clash; a method is a function
  of the arguments and the record; calls to a listener are a list of outputs. \<open>None\<close> is a failed
  \<^verbatim>\<open>MS_ASSERT\<close>, a dereferenced null or dangling pointer, an access outside a buffer, or a conversion
  that the language leaves undefined. Where a
  parser returns a null pointer to reject its input, that is a second, inner \<open>None\<close>. Machine integers
  are words of their width; sizes and times that are shown not to wrap, or whose wrapping is
  written out, are natural numbers. Every loop is total: by structural recursion, with a measure
  (\<open>RemoveNackItems_loop\<close>, \<open>parse_one_byte\<close>), or as a partial function that is proved to return (\<open>parse_attributes\<close>,
  \<open>remove_old_items\<close>). There is no fuel.

  \<^bold>\<open>Parameters.\<close> HMAC-SHA1 is OpenSSL's: a function of key and data with results of 20 bytes. The
  clock (\<^verbatim>\<open>DepLibUV::GetTimeMs\<close>) is an argument of what reads it. The scaling of a byte count to a rate
  by a \<^verbatim>\<open>float\<close> is a function. The codec objects attached to a packet have a type of their own, and
  their virtual methods are functions, of which the packet asks that they write into the payload only. The
  bytes of a newly allocated buffer are a function of the position.

  \<^bold>\<open>Not modelled.\<close> Transports, routers, producers and consumers are driven by JSON requests and mostly
  hand packets from one object to the next; DTLS, SRTP and SCTP live in OpenSSL, libsrtp and usrsctp;
  congestion control in libwebrtc; sockets, pipes and the clockwork of timers in libuv; speaker detection,
  trends and the scores of streams are in floating point. \<^verbatim>\<open>RtpStreamRecv\<close> and \<^verbatim>\<open>RtpStreamSend\<close> join the parts
  modelled here with an RTT and scores in floating point. The RTCP message classes (save the fields above), the payload descriptors
  of the codecs, the routing tables of the listeners, the port manager and the framing of TCP
  connections are not part of the model either. The interfaces in Node.js and Rust are clients of the worker. Logging,
  \<^verbatim>\<open>Dump\<close> and \<^verbatim>\<open>FillJson\<close> methods have no effect on the state and are left out everywhere.
\<close>

end
